(* ===== verification/Go_Base.thy ===== *)
theory Go_Base
  imports
    Complex_Main
    "HOL-Library.AList"
    "HOL-Library.Char_ord"
    "HOL-Library.List_Lexorder"
    "HOL-Library.Log_Nat"
    "HOL-Library.Multiset"
    "HOL-Library.Sublist"
begin

text \<open>
  The prelude of the development: what the Go sources take from the language and its
  standard library, and the generic lemmas the components share.

  \<^item> A Go \<^verbatim>\<open>string\<close> is a sequence of bytes: a HOL \<^typ>\<open>string\<close>. The order \<open><\<close> on strings is
    the byte-wise lexicographic one (theories Char\_ord and List\_Lexorder), as in Go.
  \<^item> \<^verbatim>\<open>int\<close> and \<^verbatim>\<open>time.Duration\<close> are 64 bits wide: \<^typ>\<open>int\<close> with \<open>int64\<close> written where a
    product can leave the range. \<^verbatim>\<open>time.Time\<close> is a count of nanoseconds.
  \<^item> A Go map that the code iterates over or whose \<^verbatim>\<open>len\<close> it reads is an association list
    with distinct keys (\<open>gm_wf\<close>); the position in the list stands for the unspecified
    iteration order. A map that is only read and written by key is a HOL map.
  \<^item> A decoded JSON or YAML value (Go's \<^verbatim>\<open>any\<close>) is a \<open>json\<close>, with one constructor per dynamic
    type that the sources tell apart.
  \<^item> A \<^verbatim>\<open>float64\<close> rate, price or token count is a \<^typ>\<open>rat\<close>: comparisons are exact, the
    rounding of sums and products is not modelled. Where the code converts an integer to
    \<^verbatim>\<open>float64\<close> before comparing, the rounding to 53 bits is written out (\<open>f64_of_int\<close>).
\<close>

named_theorems go_simps "equations of the standard-library models"
named_theorems go_inv "preservation of component invariants"

section \<open>Strings\<close>

definition nul :: string where
  "nul = [CHR 0x00]"

definition lower_char :: "char \<Rightarrow> char" where
  "lower_char c = (let n = (of_char c :: nat) in if 65 \<le> n \<and> n \<le> 90 then char_of (n + 32) else c)"

text \<open>
  \<^verbatim>\<open>strings.ToLower\<close> and \<^verbatim>\<open>strings.TrimSpace\<close> on ASCII text, the path the functions themselves take for such strings.
  Letters and spaces outside ASCII, which Go folds and trims as well, are left as they are.
\<close>

definition strings_ToLower :: "string \<Rightarrow> string" where
  "strings_ToLower s = map lower_char s"

definition is_space :: "char \<Rightarrow> bool" where
  "is_space c = (of_char c \<in> {9, 10, 11, 12, 13, 32 :: nat})"

definition strings_TrimSpace :: "string \<Rightarrow> string" where
  "strings_TrimSpace s = rev (dropWhile is_space (rev (dropWhile is_space s)))"

text \<open>\<^verbatim>\<open>strings.Contains(s, sub)\<close>, \<^verbatim>\<open>strings.HasPrefix(s, p)\<close>, \<^verbatim>\<open>strings.HasSuffix(s, p)\<close>.\<close>

definition strings_Contains :: "string \<Rightarrow> string \<Rightarrow> bool" where
  "strings_Contains s sub = sublist sub s"

definition strings_HasPrefix :: "string \<Rightarrow> string \<Rightarrow> bool" where
  "strings_HasPrefix s p = (take (length p) s = p)"

definition strings_HasSuffix :: "string \<Rightarrow> string \<Rightarrow> bool" where
  "strings_HasSuffix s p = (length p \<le> length s \<and> drop (length s - length p) s = p)"

fun strings_Join :: "string list \<Rightarrow> string \<Rightarrow> string" where
  "strings_Join [] sep = []"
| "strings_Join [x] sep = x"
| "strings_Join (x # xs) sep = x @ sep @ strings_Join xs sep"

text \<open>\<^verbatim>\<open>strconv.Itoa\<close> and the verb \<^verbatim>\<open>%d\<close> on a natural number.\<close>

fun itoa :: "nat \<Rightarrow> string" where
  "itoa n = (if n < 10 then [char_of (48 + n)] else itoa (n div 10) @ [char_of (48 + n mod 10)])"

declare itoa.simps [simp del]

lemma itoa_value: "foldl (\<lambda>a c. 10 * a + (of_char c - 48)) (0 :: nat) (itoa n) = n"
proof (induction n rule: itoa.induct)
  case (1 n)
  have digit: "of_char (char_of (48 + m) :: char) - 48 = m" if "m < 10" for m :: nat
    using that by (simp add: of_char_of take_bit_eq_mod)
  show ?case
  proof (cases "n < 10")
    case True
    then show ?thesis by (subst itoa.simps) (simp add: digit)
  next
    case False
    then show ?thesis using 1 by (subst itoa.simps) (simp add: digit)
  qed
qed

lemma itoa_inj [simp]: "itoa m = itoa n \<longleftrightarrow> m = n"
  by (metis itoa_value)

lemma strings_HasPrefix_iff [go_simps]: "strings_HasPrefix s p \<longleftrightarrow> (\<exists>t. s = p @ t)"
  by (metis append_eq_conv_conj strings_HasPrefix_def append_take_drop_id)

lemma strings_Contains_Nil [simp]: "strings_Contains s []"
  by (simp add: strings_Contains_def)

lemma lower_char_idem [simp]: "lower_char (lower_char c) = lower_char c"
  by (auto simp: lower_char_def Let_def of_char_of take_bit_eq_mod)

lemma strings_ToLower_idem [simp]: "strings_ToLower (strings_ToLower s) = strings_ToLower s"
  by (simp add: strings_ToLower_def)

lemma strings_ToLower_Nil [simp]: "strings_ToLower [] = []"
  by (simp add: strings_ToLower_def)

text \<open>A key built from parts that are separated by NUL splits uniquely where the first part has no NUL.\<close>

lemma nul_separated_eq:
  assumes "CHR 0x00 \<notin> set a" and "CHR 0x00 \<notin> set b"
    and "a @ nul @ x = b @ nul @ y"
  shows "a = b \<and> x = y"
  using assms
proof (induction a arbitrary: b)
  case Nil
  then show ?case by (cases b) (auto simp: nul_def)
next
  case (Cons c a)
  then show ?case by (cases b) (auto simp: nul_def)
qed

section \<open>Integers, durations and instants\<close>

definition int64 :: "int \<Rightarrow> int" where
  "int64 x = (x + 2 ^ 63) mod 2 ^ 64 - 2 ^ 63"

definition in_int64 :: "int \<Rightarrow> bool" where
  "in_int64 x \<longleftrightarrow> - (2 ^ 63) \<le> x \<and> x < 2 ^ 63"

lemma int64_bounds: "in_int64 (int64 x)"
  using pos_mod_bound [of "2 ^ 64 :: int" "x + 2 ^ 63"] pos_mod_sign [of "2 ^ 64 :: int" "x + 2 ^ 63"]
  by (simp add: in_int64_def int64_def)

lemma int64_id: "in_int64 x \<Longrightarrow> int64 x = x"
  by (simp add: in_int64_def int64_def)

type_synonym duration = int
type_synonym instant = int

abbreviation Millisecond :: duration where "Millisecond \<equiv> 1000000"
abbreviation Second :: duration where "Second \<equiv> 1000000000"
abbreviation Minute :: duration where "Minute \<equiv> 60000000000"

text \<open>An instant that was written in \<^verbatim>\<open>time.RFC3339\<close> and read back: whole seconds.\<close>

definition rfc3339 :: "instant \<Rightarrow> instant" where
  "rfc3339 t = t div Second * Second"

text \<open>\<^verbatim>\<open>t.Sub(u)\<close> saturates at the ends of the duration range.\<close>

definition time_Sub :: "instant \<Rightarrow> instant \<Rightarrow> duration" where
  "time_Sub t u = max (- (2 ^ 63)) (min (2 ^ 63 - 1) (t - u))"

lemma time_Sub_self [simp]: "time_Sub t t = 0"
  by (simp add: time_Sub_def)

lemma time_Sub_mono: "t \<le> t' \<Longrightarrow> time_Sub t u \<le> time_Sub t' u"
  by (auto simp: time_Sub_def)

lemma time_Sub_nonneg: "u \<le> t \<Longrightarrow> 0 \<le> time_Sub t u"
  by (simp add: time_Sub_def)

lemma time_Sub_exact: "in_int64 (t - u) \<Longrightarrow> time_Sub t u = t - u"
  by (simp add: time_Sub_def in_int64_def)

section \<open>Go maps that are iterated\<close>

type_synonym ('k, 'v) gomap = "('k \<times> 'v) list"

definition gm_wf :: "('k, 'v) gomap \<Rightarrow> bool" where
  "gm_wf m \<longleftrightarrow> distinct (map fst m)"

abbreviation gm_get :: "('k, 'v) gomap \<Rightarrow> 'k \<Rightarrow> 'v option" where
  "gm_get \<equiv> map_of"

abbreviation gm_put :: "'k \<Rightarrow> 'v \<Rightarrow> ('k, 'v) gomap \<Rightarrow> ('k, 'v) gomap" where
  "gm_put \<equiv> AList.update"

abbreviation gm_del :: "'k \<Rightarrow> ('k, 'v) gomap \<Rightarrow> ('k, 'v) gomap" where
  "gm_del \<equiv> AList.delete"

lemma find_snoc:
  "find P (xs @ [x]) = (case find P xs of Some y \<Rightarrow> Some y | None \<Rightarrow> if P x then Some x else None)"
  by (induction xs) auto

lemma gm_wf_Nil [simp]: "gm_wf []"
  by (simp add: gm_wf_def)

lemma gm_wf_put [simp, intro]: "gm_wf m \<Longrightarrow> gm_wf (gm_put k v m)"
  by (simp add: gm_wf_def distinct_update)

lemma gm_wf_del [simp, intro]: "gm_wf m \<Longrightarrow> gm_wf (gm_del k m)"
  by (simp add: gm_wf_def distinct_delete)

lemma gm_wf_filter [simp, intro]: "gm_wf m \<Longrightarrow> gm_wf (filter P m)"
  by (simp add: gm_wf_def distinct_map_filter)

lemma gm_get_put [simp]: "gm_get (gm_put k v m) k' = (if k' = k then Some v else gm_get m k')"
  by (simp add: update_conv')

lemma gm_get_del [simp]: "gm_get (gm_del k m) k' = (if k' = k then None else gm_get m k')"
  by (simp add: delete_conv')

lemma gm_in_set_iff: "gm_wf m \<Longrightarrow> (k, v) \<in> set m \<longleftrightarrow> gm_get m k = Some v"
  by (simp add: gm_wf_def)

lemma gm_keys_get: "k \<in> fst ` set m \<longleftrightarrow> gm_get m k \<noteq> None"
  by (metis dom_map_of_conv_image_fst domIff)

lemma gm_length_put:
  "length (gm_put k v m) = (if gm_get m k = None then Suc (length m) else length m)"
  by (induction m) auto

lemma gm_length_del: "length (gm_del k m) \<le> length m"
  by (simp add: length_delete_le)

lemma gm_length_del_mem: "gm_wf m \<Longrightarrow> gm_get m k \<noteq> None \<Longrightarrow> Suc (length (gm_del k m)) = length m"
proof (induction m)
  case Nil
  then show ?case by simp
next
  case (Cons p m)
  show ?case
  proof (cases "fst p = k")
    case True
    with Cons.prems have "k \<notin> fst ` set m" by (auto simp: gm_wf_def)
    then have "gm_del k m = m" by simp
    with True show ?thesis by simp
  next
    case False
    with Cons.prems have "gm_wf m" and "gm_get m k \<noteq> None"
      by (auto simp: gm_wf_def)
    from Cons.IH [OF this] False show ?thesis by simp
  qed
qed

lemma gm_get_filter:
  "gm_wf m \<Longrightarrow> gm_get (filter (\<lambda>(k, v). P k v) m) k
     = (case gm_get m k of None \<Rightarrow> None | Some v \<Rightarrow> if P k v then Some v else None)"
proof (induction m)
  case Nil
  then show ?case by simp
next
  case (Cons p m)
  obtain k' v where p: "p = (k', v)" by force
  from Cons.prems p have wf: "gm_wf m" and "k' \<notin> fst ` set m" by (auto simp: gm_wf_def)
  then have "gm_get m k' = None" by (metis gm_keys_get)
  with Cons.IH [OF wf] p show ?case by auto
qed

lemma gm_wf_nodup: "gm_wf m \<Longrightarrow> distinct m"
  by (simp add: gm_wf_def distinct_map)

lemma gm_subset_same_length:
  assumes wf: "gm_wf m" "gm_wf m'" and len: "length m = length m'"
    and sub: "\<And>k. gm_get m k \<noteq> None \<Longrightarrow> gm_get m' k \<noteq> None"
  shows "gm_get m' k \<noteq> None \<longleftrightarrow> gm_get m k \<noteq> None"
proof -
  have "fst ` set m \<subseteq> fst ` set m'" using sub by (metis gm_keys_get subsetI)
  moreover have "card (fst ` set m) = card (fst ` set m')"
    using wf len by (metis distinct_card gm_wf_def length_map set_map)
  ultimately have "fst ` set m = fst ` set m'" by (simp add: card_subset_eq)
  then show ?thesis by (metis gm_keys_get)
qed

section \<open>Decoded JSON and YAML values\<close>

datatype f64 = Fin rat | PosInf | NegInf | NaN

text \<open>Go's \<^verbatim>\<open>==\<close> on \<^verbatim>\<open>float64\<close>: a NaN equals nothing.\<close>

fun f64_eq :: "f64 \<Rightarrow> f64 \<Rightarrow> bool" where
  "f64_eq NaN y = False"
| "f64_eq x NaN = False"
| "f64_eq x y = (x = y)"

text \<open>Conversion of an integer to \<^verbatim>\<open>float64\<close>: round to 53 significant bits, ties to even.\<close>

definition round53 :: "nat \<Rightarrow> nat" where
  "round53 n =
     (let l = floorlog 2 n in
      if l \<le> 53 then n
      else let s = l - 53; q = n div 2 ^ s; r = n mod 2 ^ s; h = 2 ^ (s - 1)
           in (if h < r \<or> (r = h \<and> odd q) then q + 1 else q) * 2 ^ s)"

definition f64_of_int :: "int \<Rightarrow> f64" where
  "f64_of_int n = Fin (of_int (sgn n * int (round53 (nat \<bar>n\<bar>))))"

lemma round53_exact: "n < 2 ^ 53 \<Longrightarrow> round53 n = n"
proof -
  assume "n < 2 ^ 53"
  then have "floorlog 2 n \<le> 53" by (intro floorlog_leI) auto
  then show ?thesis by (simp add: round53_def)
qed

lemma f64_of_int_exact: "\<bar>n\<bar> < 2 ^ 53 \<Longrightarrow> f64_of_int n = Fin (of_int n)"
proof -
  assume "\<bar>n\<bar> < 2 ^ 53"
  then have "nat \<bar>n\<bar> < 2 ^ 53" by simp
  then show ?thesis by (simp add: f64_of_int_def round53_exact sgn_mult_abs)
qed

datatype json =
    JNull
  | JBool bool
  | JInt int
  | JInt32 int
  | JInt64 int
  | JFloat32 f64
  | JFloat64 f64
  | JStr string
  | JArr "json list"
  | JObj "(string \<times> json) list"

type_synonym jobject = "(string \<times> json) list"

text \<open>Well-formed values: the keys of every object are distinct, as they are in a Go map.\<close>

fun json_wf :: "json \<Rightarrow> bool" where
  "json_wf (JArr xs) = list_all json_wf xs"
| "json_wf (JObj kvs) = (distinct (map fst kvs) \<and> list_all (\<lambda>kv. json_wf (snd kv)) kvs)"
| "json_wf _ = True"

lemma json_size_lookup [termination_simp]:
  "map_of kvs k = Some v \<Longrightarrow> size v < Suc (size_list (size_prod (\<lambda>x. 0) size) kvs)"
  by (induction kvs) (auto split: if_splits)

lemma json_size_entry [termination_simp]:
  "(k, v) \<in> set kvs \<Longrightarrow> size v < Suc (size_list (size_prod (\<lambda>x. 0) size) kvs)"
  by (induction kvs) auto

lemma json_size_obj_lookup:
  "map_of kvs k = Some (JObj m)
   \<Longrightarrow> size_list (size_prod (\<lambda>x. 0) size) m < size_list (size_prod (\<lambda>x. 0) size) kvs"
  using json_size_lookup [of kvs k "JObj m"] by simp

lemma json_size_obj_entry:
  "(k, JObj m) \<in> set kvs
   \<Longrightarrow> size_list (size_prod (\<lambda>x. 0) size) m < size_list (size_prod (\<lambda>x. 0) size) kvs"
  using json_size_entry [of k "JObj m" kvs] by simp

lemma json_size_elem [termination_simp]:
  "v \<in> set vs \<Longrightarrow> size v < Suc (size_list size vs)"
  by (induction vs) auto

lemmas set_zip_right_size [termination_simp] = set_zip_rightD [THEN json_size_elem]

lemma json_size_lookup_snd [termination_simp]:
  "map_of kvs k = Some v \<Longrightarrow> size v < Suc (size_list (\<lambda>x. Suc (size (snd x))) kvs)"
  by (induction kvs) (auto split: if_splits)

lemma json_size_branch:
  "map_of kvs k = Some (JArr bs) \<Longrightarrow> JObj m \<in> set bs
   \<Longrightarrow> size_list (size_prod (\<lambda>x. 0) size) m < size_list (size_prod (\<lambda>x. 0) size) kvs"
  using json_size_lookup [of kvs k "JArr bs"] json_size_elem [of "JObj m" bs] by simp

end
