(* ===== verification/Agent_Types.thy ===== *)
theory Agent_Types
  imports Go_Base
begin

text \<open>
  The document types of \<^verbatim>\<open>internal/types\<close>: agents with their scenarios, tools, streaming, chaos
  and strict-tools blocks, and pipelines. A pointer field that the code compares with nil is
  an \<^verbatim>\<open>option\<close>; a map field is an association list with distinct keys.
\<close>

section \<open>Metadata and tools (agent.go, tool.go)\<close>

record metadata =
  md_Name :: string
  md_Description :: string
  md_Tags :: "string list"
  md_TenantID :: string

record tool_error =
  te_Code :: string
  te_Message :: string

record tool_response_rule =
  trr_Match :: jobject
  trr_Response :: json
  trr_Error :: "tool_error option"
  trr_IsDefault :: bool

record tool_definition =
  td_Name :: string
  td_Description :: string
  td_Parameters :: jobject
  td_Responses :: "tool_response_rule list"
  td_Validate :: bool
  td_ErrorRate :: rat

section \<open>Scenarios (behavior.go)\<close>

record tool_call_spec =
  tc_Name :: string
  tc_Arguments :: jobject
  tc_RawArguments :: string

record match_rule =
  mr_ContentContains :: string
  mr_ContentRegex :: string
  mr_TurnNumber :: "int option"
  mr_HasImage :: "bool option"

record hallucination_spec =
  hs_Type :: string
  hs_GroundTruth :: string
  hs_Note :: string

record scenario_response =
  sr_Content :: string
  sr_ToolCalls :: "tool_call_spec list"
  sr_Metadata :: jobject
  sr_FinishReason :: string
  sr_Refusal :: string
  sr_Hallucination :: "hallucination_spec option"

record scenario =
  sc_Name :: string
  sc_Match :: "match_rule option"
  sc_Response :: scenario_response

section \<open>Streaming, strict-tools and chaos blocks (behavior.go)\<close>

record streaming_config =
  st_Enabled :: bool
  st_ChunkSize :: int
  st_ChunkDelayMs :: "int option"
  st_TTFTMs :: int
  st_TokensPerSec :: rat
  st_JitterMs :: int
  st_TTFTP50Ms :: int
  st_TTFTP95Ms :: int
  st_ITLP50Ms :: int
  st_ITLP95Ms :: int
  st_TruncateAfterChunks :: int
  st_Malformed :: bool

record strict_tools_config =
  stc_Level :: string
  stc_IDs :: "bool option"
  stc_ToolChoice :: "bool option"
  stc_Schemas :: "bool option"

record chaos_latency_config =
  cl_Distribution :: string
  cl_MinMs :: int
  cl_MaxMs :: int
  cl_MeanMs :: int
  cl_StddevMs :: int

record chaos_error_config =
  ce_Rate :: rat
  ce_StatusCode :: int
  ce_StatusCodes :: "int list"
  ce_Timeout :: bool
  ce_TimeoutMs :: int
  ce_Message :: string
  ce_FailFirst :: int

record chaos_rate_limit_config =
  rl_Requests :: int
  rl_WindowMs :: int

record chaos_connection_config =
  cc_Mode :: string
  cc_Rate :: rat
  cc_FailFirst :: int

record chaos_config =
  ch_Enabled :: bool
  ch_Preset :: string
  ch_Latency :: "chaos_latency_config option"
  ch_Errors :: "chaos_error_config option"
  ch_RateLimit :: "chaos_rate_limit_config option"
  ch_Connection :: "chaos_connection_config option"

record behavior_config =
  bc_Scenarios :: "scenario list"
  bc_Streaming :: "streaming_config option"
  bc_Chaos :: "chaos_config option"
  bc_StrictTools :: "strict_tools_config option"

section \<open>Agents and pipelines (agent.go, pipeline.go)\<close>

record agent_spec =
  as_Protocol :: string
  as_Model :: string
  as_SystemPrompt :: string
  as_Tools :: "tool_definition list"
  as_Behavior :: behavior_config

record agent_definition =
  ad_APIVersion :: string
  ad_Kind :: string
  ad_Metadata :: metadata
  ad_Spec :: agent_spec

record pipeline_agent =
  pa_ID :: string
  pa_Ref :: string

record pipeline_edge =
  pe_From :: string
  pe_To :: string
  pe_WhenContains :: string

record pipeline_spec =
  ps_Topology :: string
  ps_Agents :: "pipeline_agent list"
  ps_Edges :: "pipeline_edge list"

record pipeline_definition =
  pd_APIVersion :: string
  pd_Kind :: string
  pd_Metadata :: metadata
  pd_Spec :: pipeline_spec

definition TopologySequential :: string where "TopologySequential = ''sequential''"
definition TopologyParallel :: string where "TopologyParallel = ''parallel''"
definition TopologyGraph :: string where "TopologyGraph = ''graph''"

abbreviation agent_name :: "agent_definition \<Rightarrow> string" where
  "agent_name a \<equiv> md_Name (ad_Metadata a)"

abbreviation agent_tenant :: "agent_definition \<Rightarrow> string" where
  "agent_tenant a \<equiv> md_TenantID (ad_Metadata a)"

abbreviation agent_model :: "agent_definition \<Rightarrow> string" where
  "agent_model a \<equiv> as_Model (ad_Spec a)"

abbreviation agent_behavior :: "agent_definition \<Rightarrow> behavior_config" where
  "agent_behavior a \<equiv> as_Behavior (ad_Spec a)"

section \<open>A sample agent for the witnesses\<close>

definition sample_behavior :: "scenario list \<Rightarrow> chaos_config option \<Rightarrow> behavior_config" where
  "sample_behavior scs ch =
     \<lparr>bc_Scenarios = scs, bc_Streaming = None, bc_Chaos = ch, bc_StrictTools = None\<rparr>"

definition sample_agent ::
  "string \<Rightarrow> string \<Rightarrow> string \<Rightarrow> scenario list \<Rightarrow> chaos_config option \<Rightarrow> agent_definition" where
  "sample_agent tenant name model scs ch =
     \<lparr>ad_APIVersion = ''mockagents/v1'', ad_Kind = ''Agent'',
      ad_Metadata = \<lparr>md_Name = name, md_Description = [], md_Tags = [], md_TenantID = tenant\<rparr>,
      ad_Spec = \<lparr>as_Protocol = ''openai-chat-completions'', as_Model = model, as_SystemPrompt = [],
                 as_Tools = [], as_Behavior = sample_behavior scs ch\<rparr>\<rparr>"

lemma sample_agent_sel [simp]:
  "agent_name (sample_agent t n m scs ch) = n"
  "agent_tenant (sample_agent t n m scs ch) = t"
  "agent_model (sample_agent t n m scs ch) = m"
  "as_Tools (ad_Spec (sample_agent t n m scs ch)) = []"
  "bc_Scenarios (agent_behavior (sample_agent t n m scs ch)) = scs"
  "bc_Chaos (agent_behavior (sample_agent t n m scs ch)) = ch"
  "bc_StrictTools (agent_behavior (sample_agent t n m scs ch)) = None"
  by (simp_all add: sample_agent_def sample_behavior_def)

end
