(* ===== verification/Tool_Schema.thy ===== *)
theory Tool_Schema
  imports Agent_Types
begin

text \<open>
  The JSON-Schema subset of \<^verbatim>\<open>internal/toolschema\<close>: equality of decoded values, validation of
  tool-call arguments, and the structured-outputs subset for strict function schemas.
  Messages are values of \<open>param_error\<close> and \<open>strict_error\<close>, carrying what the source formats.
\<close>

section \<open>Equality of decoded values (EqualScalar)\<close>

fun toFloat :: "json \<Rightarrow> f64 option" where
  "toFloat (JInt n) = Some (f64_of_int n)"
| "toFloat (JInt32 n) = Some (f64_of_int n)"
| "toFloat (JInt64 n) = Some (f64_of_int n)"
| "toFloat (JFloat32 x) = Some x"
| "toFloat (JFloat64 x) = Some x"
| "toFloat _ = None"

fun EqualScalar :: "json \<Rightarrow> json \<Rightarrow> bool"
  and EqualElems :: "json list \<Rightarrow> json list \<Rightarrow> bool"
  and EqualEntries :: "(string \<times> json) list \<Rightarrow> (string \<times> json) list \<Rightarrow> bool" where
  "EqualScalar a b =
     (case toFloat a of
        Some af \<Rightarrow> (case toFloat b of Some bf \<Rightarrow> f64_eq af bf | None \<Rightarrow> False)
      | None \<Rightarrow>
          if toFloat b \<noteq> None then False
          else (case a of
                  JArr av \<Rightarrow> (case b of JArr bv \<Rightarrow> length av = length bv \<and> EqualElems av bv | _ \<Rightarrow> False)
                | JObj av \<Rightarrow> (case b of JObj bv \<Rightarrow> length av = length bv \<and> EqualEntries av bv | _ \<Rightarrow> False)
                | _ \<Rightarrow> a = b))"
| "EqualElems (x # xs) (y # ys) = (EqualScalar x y \<and> EqualElems xs ys)"
| "EqualElems _ _ = True"
| "EqualEntries ((k, x) # xs) bv =
     ((case map_of bv k of None \<Rightarrow> False | Some y \<Rightarrow> EqualScalar x y) \<and> EqualEntries xs bv)"
| "EqualEntries [] bv = True"

declare EqualScalar.simps [simp del]

section \<open>Type checks (checkType, toInt, inEnum)\<close>

datatype param_error =
    MissingRequired string
  | UnexpectedParameter string
  | ExpectedType string string
  | ExpectedIntegerGotFloat string
  | NotInEnum string json "json list"
  | TooShort string int int
  | TooLong string int int

definition is_integral :: "rat \<Rightarrow> bool" where
  "is_integral r = (of_int \<lfloor>r\<rfloor> = r)"

definition checkType :: "string \<Rightarrow> json \<Rightarrow> string \<Rightarrow> param_error option" where
  "checkType name val expected =
     (if expected = ''string'' then
        (case val of JStr _ \<Rightarrow> None | _ \<Rightarrow> Some (ExpectedType name expected))
      else if expected = ''integer'' then
        (case val of
           JInt _ \<Rightarrow> None | JInt32 _ \<Rightarrow> None | JInt64 _ \<Rightarrow> None
         | JFloat64 (Fin r) \<Rightarrow> if is_integral r then None else Some (ExpectedIntegerGotFloat name)
         | JFloat64 _ \<Rightarrow> Some (ExpectedIntegerGotFloat name)
         | _ \<Rightarrow> Some (ExpectedType name expected))
      else if expected = ''number'' then
        (case val of JInt _ \<Rightarrow> None | JInt32 _ \<Rightarrow> None | JInt64 _ \<Rightarrow> None | JFloat64 _ \<Rightarrow> None
         | _ \<Rightarrow> Some (ExpectedType name expected))
      else if expected = ''boolean'' then
        (case val of JBool _ \<Rightarrow> None | _ \<Rightarrow> Some (ExpectedType name expected))
      else if expected = ''array'' then
        (case val of JArr _ \<Rightarrow> None | _ \<Rightarrow> Some (ExpectedType name expected))
      else if expected = ''object'' then
        (case val of JObj _ \<Rightarrow> None | _ \<Rightarrow> Some (ExpectedType name expected))
      else None)"

definition inEnum :: "json \<Rightarrow> json list \<Rightarrow> bool" where
  "inEnum val allowed = list_ex (\<lambda>a. EqualScalar a val) allowed"

text \<open>
  \<^verbatim>\<open>int(v)\<close> truncates towards zero; where the value does not fit, the result is what the amd64
  conversion instruction gives, the least integer.
\<close>

definition int_of_f64 :: "f64 \<Rightarrow> int" where
  "int_of_f64 x =
     (case x of
        Fin r \<Rightarrow> let t = (if 0 \<le> r then \<lfloor>r\<rfloor> else \<lceil>r\<rceil>) in if in_int64 t then t else - (2 ^ 63)
      | _ \<Rightarrow> - (2 ^ 63))"

fun toInt :: "json \<Rightarrow> int option" where
  "toInt (JInt n) = Some n"
| "toInt (JInt64 n) = Some n"
| "toInt (JFloat64 x) = Some (int_of_f64 x)"
| "toInt _ = None"

text \<open>\<^verbatim>\<open>utf8.RuneCountInString\<close>: the width of the encoding at the front, 1 for an invalid byte.\<close>

definition cont_byte :: "nat \<Rightarrow> nat \<Rightarrow> char \<Rightarrow> bool" where
  "cont_byte lo hi c = (lo \<le> of_char c \<and> of_char c \<le> hi)"

fun rune_width :: "string \<Rightarrow> nat" where
  "rune_width [] = 0"
| "rune_width (c # cs) =
     (let b = (of_char c :: nat); cont = cont_byte 128 191;
          second = (if b = 224 then cont_byte 160 191 else if b = 237 then cont_byte 128 159
                    else if b = 240 then cont_byte 144 191 else if b = 244 then cont_byte 128 143
                    else cont)
      in if 194 \<le> b \<and> b \<le> 223 then (case cs of c1 # _ \<Rightarrow> if cont c1 then 2 else 1 | _ \<Rightarrow> 1)
         else if 224 \<le> b \<and> b \<le> 239 then
           (case cs of c1 # c2 # _ \<Rightarrow> if second c1 \<and> cont c2 then 3 else 1 | _ \<Rightarrow> 1)
         else if 240 \<le> b \<and> b \<le> 244 then
           (case cs of c1 # c2 # c3 # _ \<Rightarrow> if second c1 \<and> cont c2 \<and> cont c3 then 4 else 1 | _ \<Rightarrow> 1)
         else 1)"

lemma rune_width_pos: "s \<noteq> [] \<Longrightarrow> 0 < rune_width s"
  by (cases s) (auto simp: Let_def split: list.splits)

function RuneCountInString :: "string \<Rightarrow> nat" where
  "RuneCountInString s = (if s = [] then 0 else Suc (RuneCountInString (drop (rune_width s) s)))"
  by pat_completeness auto
termination
  by (relation "measure length") (use rune_width_pos in auto)

declare RuneCountInString.simps [simp del]

section \<open>Argument validation (ValidateParameters)\<close>

definition str_field :: "jobject \<Rightarrow> string \<Rightarrow> string" where
  "str_field ob k = (case map_of ob k of Some (JStr s) \<Rightarrow> s | _ \<Rightarrow> [])"

definition missing_required :: "jobject \<Rightarrow> jobject \<Rightarrow> string \<Rightarrow> param_error list" where
  "missing_required schema args path =
     (case map_of schema ''required'' of
        Some (JArr reqList) \<Rightarrow>
          concat (map (\<lambda>r. case r of
                             JStr name \<Rightarrow> if map_of args name = None then [MissingRequired (path @ name)] else []
                           | _ \<Rightarrow> []) reqList)
      | _ \<Rightarrow> [])"

definition getPropertyNames :: "jobject \<Rightarrow> string list" where
  "getPropertyNames schema =
     (case map_of schema ''properties'' of Some (JObj propMap) \<Rightarrow> map fst propMap | _ \<Rightarrow> [])"

definition additional_properties :: "jobject \<Rightarrow> jobject \<Rightarrow> string \<Rightarrow> param_error list" where
  "additional_properties schema args path =
     (case map_of schema ''additionalProperties'' of
        Some (JBool False) \<Rightarrow>
          concat (map (\<lambda>(name, _). if name \<in> set (getPropertyNames schema) then []
                                   else [UnexpectedParameter (path @ name)]) args)
      | _ \<Rightarrow> [])"

definition enum_errors :: "jobject \<Rightarrow> json \<Rightarrow> string \<Rightarrow> param_error list" where
  "enum_errors propDef val name =
     (case map_of propDef ''enum'' of
        Some (JArr enumList) \<Rightarrow> if inEnum val enumList then [] else [NotInEnum name val enumList]
      | _ \<Rightarrow> [])"

definition length_errors :: "jobject \<Rightarrow> string \<Rightarrow> string \<Rightarrow> param_error list" where
  "length_errors propDef str name =
     (let n = int (RuneCountInString str) in
      (case map_of propDef ''minLength'' of
         Some m \<Rightarrow> (case toInt m of Some lo \<Rightarrow> if n < lo then [TooShort name n lo] else [] | None \<Rightarrow> [])
       | None \<Rightarrow> [])
      @ (case map_of propDef ''maxLength'' of
           Some m \<Rightarrow> (case toInt m of Some hi \<Rightarrow> if hi < n then [TooLong name n hi] else [] | None \<Rightarrow> [])
         | None \<Rightarrow> []))"

text \<open>
  \<open>validateObjectAt\<close> and \<open>validateValue\<close> call each other on ever smaller schemas; the array case is
  \<open>validateArray\<close>, and \<open>idx\<close> renders the element's position.
\<close>

function (sequential) validateObjectAt :: "jobject \<Rightarrow> jobject \<Rightarrow> string \<Rightarrow> param_error list"
  and validateValue :: "jobject \<Rightarrow> json \<Rightarrow> string \<Rightarrow> param_error list"
  and validateArray :: "jobject \<Rightarrow> json \<Rightarrow> string \<Rightarrow> param_error list" where
  "validateObjectAt schema args path =
     missing_required schema args path
     @ (case map_of schema ''properties'' of
          Some (JObj propMap) \<Rightarrow>
            concat (map (\<lambda>(name, propSchema).
                       case map_of args name of
                         None \<Rightarrow> []
                       | Some val \<Rightarrow> (case propSchema of
                                        JObj propDef \<Rightarrow> validateValue propDef val (path @ name)
                                      | _ \<Rightarrow> [])) propMap)
        | _ \<Rightarrow> [])
     @ additional_properties schema args path"
| "validateValue propDef val name =
     (let propType = str_field propDef ''type'' in
      (if propType = [] then [] else (case checkType name val propType of None \<Rightarrow> [] | Some e \<Rightarrow> [e]))
      @ enum_errors propDef val name
      @ (if propType = ''string'' then (case val of JStr s \<Rightarrow> length_errors propDef s name | _ \<Rightarrow> [])
         else if propType = ''object'' then
           (case val of JObj nested \<Rightarrow> validateObjectAt propDef nested (name @ ''.'') | _ \<Rightarrow> [])
         else if propType = ''array'' then validateArray propDef val name
         else []))"
| "validateArray propDef val name =
     (case val of
        JArr arr \<Rightarrow>
          (case map_of propDef ''items'' of
             Some (JObj itemsSchema) \<Rightarrow>
               concat (map (\<lambda>i. validateValue itemsSchema (arr ! i) (name @ ''['' @ itoa i @ '']''))
                           [0..<length arr])
           | _ \<Rightarrow> [])
      | _ \<Rightarrow> [])"
  by pat_completeness auto
termination
  by (relation "measure (\<lambda>x. case x of
        Inl (schema, _, _) \<Rightarrow> 2 * size (JObj schema)
      | Inr (Inl (propDef, _, _)) \<Rightarrow> 2 * size (JObj propDef) + 1
      | Inr (Inr (propDef, _, _)) \<Rightarrow> 2 * size (JObj propDef))")
     (fastforce dest!: json_size_obj_lookup json_size_obj_entry)+

declare validateObjectAt.simps [simp del] validateValue.simps [simp del] validateArray.simps [simp del]

definition ValidateParameters :: "jobject \<Rightarrow> jobject \<Rightarrow> param_error list" where
  "ValidateParameters schema args =
     (if schema = [] then []
      else if str_field schema ''type'' = ''object'' then validateObjectAt schema args [] else [])"


section \<open>The structured-outputs subset (ValidateStrictSubset)\<close>

datatype strict_error =
    AdditionalPropertiesNotFalse string
  | RequiredMissesKey string string

definition strictContext :: "string list \<Rightarrow> string" where
  "strictContext path =
     (if path = [] then ''()''
      else ''('' @ strings_Join (map (\<lambda>p. [CHR 0x27] @ p @ [CHR 0x27]) path) '', '' @ '')'')"

definition is_object_schema :: "jobject \<Rightarrow> bool" where
  "is_object_schema schema \<longleftrightarrow>
     str_field schema ''type'' = ''object''
     \<or> (str_field schema ''type'' = [] \<and> map_of schema ''properties'' \<notin> {None, Some JNull})"

definition required_list :: "jobject \<Rightarrow> string list" where
  "required_list schema =
     (case map_of schema ''required'' of
        Some (JArr rs) \<Rightarrow> concat (map (\<lambda>r. case r of JStr s \<Rightarrow> [s] | _ \<Rightarrow> []) rs)
      | _ \<Rightarrow> [])"

function validateStrictAt :: "jobject \<Rightarrow> string list \<Rightarrow> strict_error list" where
  "validateStrictAt schema path =
     (let ctx = strictContext path in
      (if is_object_schema schema then
         (if map_of schema ''additionalProperties'' = Some (JBool False) then []
          else [AdditionalPropertiesNotFalse ctx])
         @ (case map_of schema ''properties'' of
              Some (JObj props) \<Rightarrow>
                concat (map (\<lambda>name.
                    (if name \<in> set (required_list schema) then [] else [RequiredMissesKey ctx name])
                    @ (case map_of props name of
                         Some (JObj subSchema) \<Rightarrow> validateStrictAt subSchema (path @ [''properties'', name])
                       | _ \<Rightarrow> [])) (sort (map fst props)))
            | _ \<Rightarrow> [])
       else [])
      @ (case map_of schema ''items'' of
           Some (JObj items) \<Rightarrow> validateStrictAt items (path @ [''items'']) | _ \<Rightarrow> [])
      @ (case map_of schema ''anyOf'' of
           Some (JArr branches) \<Rightarrow>
             concat (map (\<lambda>(i, b). case b of JObj sub \<Rightarrow> validateStrictAt sub (path @ [''anyOf'', itoa i]) | _ \<Rightarrow> [])
                         (zip [0..<length branches] branches))
         | _ \<Rightarrow> []))"
  by pat_completeness auto
termination
  by (relation "measure (\<lambda>(schema, _). size (JObj schema))")
     (auto dest!: set_zip_rightD json_size_obj_lookup dest: json_size_branch)


declare validateStrictAt.simps [simp del]

definition ValidateStrictSubset :: "jobject \<Rightarrow> strict_error list" where
  "ValidateStrictSubset schema = validateStrictAt schema []"

section \<open>EqualScalar decides equality of canonical forms\<close>

text \<open>
  The value a decoded term stands for: a number is its \<^verbatim>\<open>float64\<close> value whatever its Go type, an
  object is the map from its keys.
\<close>

datatype cval = CNull | CBool bool | CNum f64 | CStr string | CArr "cval list" | CObj "string \<rightharpoonup> cval"

fun canon :: "json \<Rightarrow> cval" where
  "canon JNull = CNull"
| "canon (JBool b) = CBool b"
| "canon (JStr s) = CStr s"
| "canon (JArr xs) = CArr (map canon xs)"
| "canon (JObj kvs) = CObj (\<lambda>k. map_option canon (map_of kvs k))"
| "canon v = CNum (the (toFloat v))"

fun nan_free :: "json \<Rightarrow> bool" where
  "nan_free (JFloat32 x) = (x \<noteq> NaN)"
| "nan_free (JFloat64 x) = (x \<noteq> NaN)"
| "nan_free (JArr xs) = list_all nan_free xs"
| "nan_free (JObj kvs) = list_all (\<lambda>kv. nan_free (snd kv)) kvs"
| "nan_free _ = True"

definition plain_value :: "json \<Rightarrow> bool" where
  "plain_value v \<longleftrightarrow> json_wf v \<and> nan_free v"

lemma plain_value_simps [simp]:
  "plain_value (JArr xs) \<longleftrightarrow> (\<forall>x \<in> set xs. plain_value x)"
  "plain_value (JObj kvs) \<longleftrightarrow> gm_wf kvs \<and> (\<forall>kv \<in> set kvs. plain_value (snd kv))"
  by (auto simp: plain_value_def list_all_iff gm_wf_def)

lemma f64_eq_iff: "x \<noteq> NaN \<Longrightarrow> y \<noteq> NaN \<Longrightarrow> f64_eq x y \<longleftrightarrow> x = y"
  by (cases x; cases y) auto

lemma toFloat_not_nan: "plain_value a \<Longrightarrow> toFloat a = Some x \<Longrightarrow> x \<noteq> NaN"
  by (cases a) (auto simp: f64_of_int_def plain_value_def)

lemma canon_num: "toFloat a = Some x \<Longrightarrow> canon a = CNum x"
  by (cases a) auto

lemma canon_not_num: "toFloat a = None \<Longrightarrow> canon a \<noteq> CNum x"
  by (cases a) auto

lemma EqualScalar_JArr:
  "EqualScalar (JArr av) b = (case b of JArr bv \<Rightarrow> length av = length bv \<and> EqualElems av bv | _ \<Rightarrow> False)"
  by (cases b) (simp_all add: EqualScalar.simps)

lemma EqualScalar_JObj:
  "EqualScalar (JObj av) b = (case b of JObj bv \<Rightarrow> length av = length bv \<and> EqualEntries av bv | _ \<Rightarrow> False)"
  by (cases b) (simp_all add: EqualScalar.simps)

lemma EqualScalar_atom:
  "toFloat a = None \<Longrightarrow> (\<And>xs. a \<noteq> JArr xs) \<Longrightarrow> (\<And>xs. a \<noteq> JObj xs) \<Longrightarrow> EqualScalar a b \<longleftrightarrow> a = b"
  by (cases a; cases b) (auto simp: EqualScalar.simps)

lemma canon_obj_eq:
  assumes wf: "gm_wf m" "gm_wf m'"
  shows "canon (JObj m) = canon (JObj m') \<longleftrightarrow>
    length m = length m' \<and> (\<forall>(k, x) \<in> set m. map_option canon (map_of m' k) = Some (canon x))"
    (is "?L \<longleftrightarrow> ?R")
proof
  assume ?L
  then have eq: "map_option canon (map_of m k) = map_option canon (map_of m' k)" for k
    by (auto dest: fun_cong)
  then have "fst ` set m = fst ` set m'"
    by (auto simp: set_eq_iff gm_keys_get simp del: not_None_eq) (metis option.map_disc_iff)+
  then have "card (set (map fst m)) = card (set (map fst m'))" by simp
  then have "length m = length m'" using wf by (simp add: gm_wf_def distinct_card del: set_map)
  moreover have "map_option canon (map_of m' k) = Some (canon x)" if "(k, x) \<in> set m" for k x
    using eq [of k] wf that by (simp add: gm_in_set_iff)
  ultimately show ?R by auto
next
  assume R: ?R
  have ent: "map_option canon (map_of m' k) = Some (canon x)" if "map_of m k = Some x" for k x
    using R map_of_SomeD [OF that] by auto
  have "map_of m' k \<noteq> None \<longleftrightarrow> map_of m k \<noteq> None" for k
    using R ent by (intro gm_subset_same_length [OF wf]) fastforce+
  then have "map_option canon (map_of m k) = map_option canon (map_of m' k)" for k
    using ent [of k] by (cases "map_of m k"; cases "map_of m' k") (auto, metis option.distinct(1))
  then show ?L by simp
qed

lemma EqualScalar_canon_aux:
  "plain_value a \<Longrightarrow> plain_value b \<Longrightarrow> EqualScalar a b \<longleftrightarrow> canon a = canon b"
  "(\<forall>x \<in> set xs. plain_value x) \<Longrightarrow> (\<forall>y \<in> set ys. plain_value y) \<Longrightarrow> length xs = length ys
     \<Longrightarrow> EqualElems xs ys \<longleftrightarrow> map canon xs = map canon ys"
  "(\<forall>e \<in> set es. plain_value (snd e)) \<Longrightarrow> (\<forall>f \<in> set fs. plain_value (snd f))
     \<Longrightarrow> EqualEntries es fs \<longleftrightarrow> (\<forall>(k, x) \<in> set es. map_option canon (map_of fs k) = Some (canon x))"
proof (induction a b and xs ys and es fs rule: EqualScalar_EqualElems_EqualEntries.induct)
  case (1 a b)
  show ?case
  proof (cases "toFloat a = None \<and> toFloat b = None")
    case False
    then show ?thesis using "1.prems"
      by (auto simp: EqualScalar.simps [of a b] f64_eq_iff toFloat_not_nan canon_num canon_not_num
          split: option.splits dest!: canon_num canon_not_num dest: toFloat_not_nan)
  next
    case True
    show ?thesis
    proof (cases a)
      case (JArr av)
      then show ?thesis using True "1.prems" "1.IH"(1) [of av]
        by (cases b) (auto simp: EqualScalar_JArr dest: map_eq_imp_length_eq)
    next
      case (JObj av)
      show ?thesis
      proof (cases b)
        case b: (JObj bv)
        have wf: "gm_wf av" "gm_wf bv" using "1.prems" JObj b by auto
        have IH: "EqualEntries av bv \<longleftrightarrow> (\<forall>(k, x) \<in> set av. map_option canon (map_of bv k) = Some (canon x))"
          if "length av = length bv"
          using "1.IH"(2) [of av bv] True "1.prems" JObj b that by auto
        have "canon a = canon b \<longleftrightarrow> length av = length bv \<and> EqualEntries av bv"
          using canon_obj_eq [OF wf] IH JObj b by auto
        then show ?thesis using JObj b by (simp add: EqualScalar_JObj)
      qed (use JObj True in \<open>auto simp: EqualScalar_JObj\<close>)
    qed (use True in \<open>cases b; auto simp: EqualScalar_atom\<close>)+
  qed
next
  case (4 k x xs bv)
  have "plain_value y" if "map_of bv k = Some y" for y
    using "4.prems" map_of_SomeD [OF that] by force
  with 4 show ?case by (cases "map_of bv k") auto
qed auto

lemma EqualScalar_iff_canon:
  "plain_value a \<Longrightarrow> plain_value b \<Longrightarrow> EqualScalar a b \<longleftrightarrow> canon a = canon b"
  by (rule EqualScalar_canon_aux(1))

section \<open>What the validator accepts\<close>

text \<open>
  \<open>conforms\<close> states what a value must satisfy, independently of the functions that check it;
  \<open>schema_props\<close>, \<open>required_names\<close> and
  \<open>closed_schema\<close> read the keywords of an object schema.
\<close>

definition required_names :: "jobject \<Rightarrow> string set" where
  "required_names schema = {name. \<exists>rs. map_of schema ''required'' = Some (JArr rs) \<and> JStr name \<in> set rs}"

definition closed_schema :: "jobject \<Rightarrow> bool" where
  "closed_schema schema \<longleftrightarrow> map_of schema ''additionalProperties'' = Some (JBool False)"

definition schema_props :: "jobject \<Rightarrow> jobject" where
  "schema_props schema = (case map_of schema ''properties'' of Some (JObj ps) \<Rightarrow> ps | _ \<Rightarrow> [])"

lemma missing_required_Nil:
  "missing_required schema args path = [] \<longleftrightarrow> (\<forall>name \<in> required_names schema. map_of args name \<noteq> None)"
  by (auto simp: missing_required_def required_names_def split: option.splits json.splits)

lemma getPropertyNames_props: "getPropertyNames schema = map fst (schema_props schema)"
  by (simp add: getPropertyNames_def schema_props_def split: option.split json.split)

lemma additional_properties_closed:
  "additional_properties schema args path =
     (if closed_schema schema
      then map (\<lambda>(name, _). UnexpectedParameter (path @ name))
             (filter (\<lambda>(name, _). name \<notin> fst ` set (schema_props schema)) args)
      else [])"
proof -
  have "concat (map (\<lambda>(name, _). if name \<in> A then [] else [UnexpectedParameter (path @ name)]) args)
      = map (\<lambda>(name, _). UnexpectedParameter (path @ name)) (filter (\<lambda>(name, _). name \<notin> A) args)" for A
    by (induction args) auto
  then show ?thesis
    by (simp add: additional_properties_def closed_schema_def getPropertyNames_props
        split: option.split json.split bool.split)
qed

lemma additional_properties_Nil:
  "additional_properties schema args path = [] \<longleftrightarrow>
     (closed_schema schema \<longrightarrow> fst ` set args \<subseteq> fst ` set (schema_props schema))"
  by (force simp: additional_properties_closed filter_empty_conv)

text \<open>
  Two decoded values are the same when they are numbers of one value (of whatever Go type), equal
  atoms, arrays of pairwise equal elements, or objects of equal size whose entries agree.
\<close>

inductive same_value :: "json \<Rightarrow> json \<Rightarrow> bool" where
  same_number: "toFloat a = Some x \<Longrightarrow> toFloat b = Some x \<Longrightarrow> x \<noteq> NaN \<Longrightarrow> same_value a b"
| same_null: "same_value JNull JNull"
| same_bool: "same_value (JBool t) (JBool t)"
| same_string: "same_value (JStr s) (JStr s)"
| same_array: "list_all2 same_value xs ys \<Longrightarrow> same_value (JArr xs) (JArr ys)"
| same_object: "length m = length m' \<Longrightarrow> (\<forall>k x. (k, x) \<in> set m \<longrightarrow> (\<exists>y. map_of m' k = Some y \<and> same_value x y))
     \<Longrightarrow> same_value (JObj m) (JObj m')"

inductive_simps same_value_simps:
  "same_value a (JArr ys)" "same_value (JArr xs) b" "same_value (JObj m) b"

text \<open>The JSON Schema types, over the kinds of decoded values; an unknown type name admits everything.\<close>

definition of_type :: "string \<Rightarrow> json \<Rightarrow> bool" where
  "of_type t v \<longleftrightarrow>
     (t = ''string'' \<longrightarrow> (\<exists>s. v = JStr s))
     \<and> (t = ''integer'' \<longrightarrow> (\<exists>n. v = JInt n \<or> v = JInt32 n \<or> v = JInt64 n \<or> v = JFloat64 (Fin (of_int n))))
     \<and> (t = ''number'' \<longrightarrow> (\<exists>n. v = JInt n \<or> v = JInt32 n \<or> v = JInt64 n) \<or> (\<exists>x. v = JFloat64 x))
     \<and> (t = ''boolean'' \<longrightarrow> (\<exists>c. v = JBool c))
     \<and> (t = ''array'' \<longrightarrow> (\<exists>xs. v = JArr xs))
     \<and> (t = ''object'' \<longrightarrow> (\<exists>m. v = JObj m))"

text \<open>The bound a length keyword states, and the strings that keep both bounds.\<close>

inductive length_limit :: "json \<Rightarrow> int \<Rightarrow> bool" where
  "length_limit (JInt n) n"
| "length_limit (JInt64 n) n"
| "length_limit (JFloat64 x) (int_of_f64 x)"

inductive_simps length_limit_simps: "length_limit m n"

definition length_ok :: "jobject \<Rightarrow> string \<Rightarrow> bool" where
  "length_ok propDef s \<longleftrightarrow>
     (\<forall>m lo. map_of propDef ''minLength'' = Some m \<longrightarrow> length_limit m lo \<longrightarrow> lo \<le> int (RuneCountInString s))
     \<and> (\<forall>m hi. map_of propDef ''maxLength'' = Some m \<longrightarrow> length_limit m hi \<longrightarrow> int (RuneCountInString s) \<le> hi)"

inductive conforms_object :: "jobject \<Rightarrow> jobject \<Rightarrow> bool"
  and conforms :: "jobject \<Rightarrow> json \<Rightarrow> bool" where
  conforms_objectI:
    "(\<forall>name \<in> required_names schema. map_of args name \<noteq> None)
     \<Longrightarrow> (\<forall>name propDef val. (name, JObj propDef) \<in> set (schema_props schema)
            \<longrightarrow> map_of args name = Some val \<longrightarrow> conforms propDef val)
     \<Longrightarrow> (closed_schema schema \<Longrightarrow> fst ` set args \<subseteq> fst ` set (schema_props schema))
     \<Longrightarrow> conforms_object schema args"
| conformsI:
    "of_type (str_field propDef ''type'') val
     \<Longrightarrow> (\<forall>allowed. map_of propDef ''enum'' = Some (JArr allowed) \<longrightarrow> (\<exists>a \<in> set allowed. same_value a val))
     \<Longrightarrow> (\<And>s. str_field propDef ''type'' = ''string'' \<Longrightarrow> val = JStr s \<Longrightarrow> length_ok propDef s)
     \<Longrightarrow> (\<forall>nested. str_field propDef ''type'' = ''object'' \<longrightarrow> val = JObj nested \<longrightarrow> conforms_object propDef nested)
     \<Longrightarrow> (\<forall>arr items. str_field propDef ''type'' = ''array'' \<longrightarrow> val = JArr arr
            \<longrightarrow> map_of propDef ''items'' = Some (JObj items) \<longrightarrow> (\<forall>x \<in> set arr. conforms items x))
     \<Longrightarrow> conforms propDef val"

lemmas conforms_object_iff = conforms_object.simps
lemmas conforms_iff = conforms.simps

section \<open>The checks of a value against their meaning\<close>

lemma is_integral_iff: "is_integral r \<longleftrightarrow> (\<exists>n. r = of_int n)"
  unfolding is_integral_def by (metis floor_of_int)

lemma checkType_None: "checkType name val t = None \<longleftrightarrow> of_type t val"
  unfolding checkType_def of_type_def by (cases val) (auto simp: is_integral_iff split: f64.split)

lemma same_value_number: "toFloat a = Some x \<Longrightarrow> same_value a b \<longleftrightarrow> toFloat b = Some x \<and> x \<noteq> NaN"
  by (auto elim: same_value.cases intro: same_number)

lemma EqualScalar_same_aux:
  "EqualScalar a b \<longleftrightarrow> same_value a b"
  "length xs = length ys \<Longrightarrow> EqualElems xs ys \<longleftrightarrow> list_all2 same_value xs ys"
  "EqualEntries es fs \<longleftrightarrow> (\<forall>k x. (k, x) \<in> set es \<longrightarrow> (\<exists>y. map_of fs k = Some y \<and> same_value x y))"
proof (induction a b and xs ys and es fs rule: EqualScalar_EqualElems_EqualEntries.induct)
  case (1 a b)
  show ?case
  proof (cases "toFloat a")
    case (Some x)
    have "f64_eq x y \<longleftrightarrow> x = y \<and> x \<noteq> NaN" for y by (cases x; cases y) auto
    with Some show ?thesis by (auto simp: EqualScalar.simps [of a b] same_value_number [OF Some] split: option.split)
  next
    case a: None
    show ?thesis
    proof (cases "toFloat b")
      case (Some y)
      then have "\<not> same_value a b" using a by (auto elim: same_value.cases)
      with a Some show ?thesis by (simp add: EqualScalar.simps [of a b])
    next
      case None
      with a 1 show ?thesis
        by (cases a; cases b)
           (auto simp: EqualScalar_JArr EqualScalar_JObj EqualScalar_atom same_value_simps list_all2_lengthD
             elim: same_value.cases intro: same_value.intros)
    qed
  qed
next
  case (4 k x xs bv)
  then show ?case by (cases "map_of bv k") auto
qed auto

lemmas EqualScalar_same = EqualScalar_same_aux(1)

lemma enum_errors_Nil:
  "enum_errors propDef val name = [] \<longleftrightarrow>
     (\<forall>allowed. map_of propDef ''enum'' = Some (JArr allowed) \<longrightarrow> (\<exists>a \<in> set allowed. same_value a val))"
  by (simp add: enum_errors_def inEnum_def list_ex_iff EqualScalar_same split: option.split json.split)

lemma length_limit_toInt: "length_limit m n \<longleftrightarrow> toInt m = Some n"
  by (cases m) (auto simp: length_limit_simps)

lemma length_errors_Nil: "length_errors propDef s name = [] \<longleftrightarrow> length_ok propDef s"
  by (auto simp: length_errors_def length_ok_def length_limit_toInt Let_def split: option.split)

lemma case_Nil_iff:
  "(case v of JObj d \<Rightarrow> f d | _ \<Rightarrow> []) = [] \<longleftrightarrow> (\<forall>d. v = JObj d \<longrightarrow> f d = [])"
  "(case v of JArr xs \<Rightarrow> g xs | _ \<Rightarrow> []) = [] \<longleftrightarrow> (\<forall>xs. v = JArr xs \<longrightarrow> g xs = [])"
  "(case v of JStr s \<Rightarrow> h s | _ \<Rightarrow> []) = [] \<longleftrightarrow> (\<forall>s. v = JStr s \<longrightarrow> h s = [])"
  "(case x of None \<Rightarrow> [] | Some y \<Rightarrow> k y) = [] \<longleftrightarrow> (\<forall>y. x = Some y \<longrightarrow> k y = [])"
  by (auto split: json.split option.split)

lemma validateObjectAt_Nil:
  "validateObjectAt schema args path = [] \<longleftrightarrow>
     (\<forall>name \<in> required_names schema. map_of args name \<noteq> None) \<and>
     (\<forall>name propDef val. (name, JObj propDef) \<in> set (schema_props schema) \<longrightarrow> map_of args name = Some val
        \<longrightarrow> validateValue propDef val (path @ name) = []) \<and>
     (closed_schema schema \<longrightarrow> fst ` set args \<subseteq> fst ` set (schema_props schema))"
proof -
  have "concat (map (\<lambda>(name, propSchema).
                       case map_of args name of
                         None \<Rightarrow> []
                       | Some val \<Rightarrow> (case propSchema of
                                        JObj propDef \<Rightarrow> validateValue propDef val (path @ name)
                                      | _ \<Rightarrow> [])) pm) = [] \<longleftrightarrow>
       (\<forall>name propDef val. (name, JObj propDef) \<in> set pm \<longrightarrow> map_of args name = Some val
        \<longrightarrow> validateValue propDef val (path @ name) = [])" for pm
    by (induction pm) (auto simp: case_Nil_iff)
  moreover have "(case map_of schema ''properties'' of Some (JObj pm) \<Rightarrow> F pm | _ \<Rightarrow> [])
      = (if map_of schema ''properties'' = None \<or> (\<forall>pm. map_of schema ''properties'' \<noteq> Some (JObj pm))
         then [] else F (schema_props schema))" for F :: "jobject \<Rightarrow> param_error list"
    by (simp add: schema_props_def split: option.split json.split)
  moreover have "schema_props schema = []" if "\<forall>pm. map_of schema ''properties'' \<noteq> Some (JObj pm)"
    using that by (simp add: schema_props_def split: option.split json.split)
  ultimately show ?thesis
    by (simp add: validateObjectAt.simps [of schema args path] missing_required_Nil
        additional_properties_Nil)
qed

lemma of_type_Nil [simp]: "of_type [] v" by (simp add: of_type_def)

lemma validateValue_Nil:
  "validateValue propDef val name = [] \<longleftrightarrow>
     of_type (str_field propDef ''type'') val \<and>
     (\<forall>allowed. map_of propDef ''enum'' = Some (JArr allowed) \<longrightarrow> (\<exists>a \<in> set allowed. same_value a val)) \<and>
     (\<forall>s. str_field propDef ''type'' = ''string'' \<longrightarrow> val = JStr s \<longrightarrow> length_ok propDef s) \<and>
     (\<forall>nested. str_field propDef ''type'' = ''object'' \<longrightarrow> val = JObj nested \<longrightarrow>
        validateObjectAt propDef nested (name @ ''.'') = []) \<and>
     (str_field propDef ''type'' = ''array'' \<longrightarrow> validateArray propDef val name = [])"
  by (simp add: validateValue.simps [of propDef val name] Let_def case_Nil_iff checkType_None
      enum_errors_Nil length_errors_Nil option.case_eq_if)

lemma validateArray_Nil:
  "validateArray propDef val name = [] \<longleftrightarrow>
     (\<forall>arr items. val = JArr arr \<longrightarrow> map_of propDef ''items'' = Some (JObj items)
        \<longrightarrow> (\<forall>i < length arr. validateValue items (arr ! i) (name @ ''['' @ itoa i @ '']'') = []))"
  unfolding validateArray.simps [of propDef val name]
  by (cases val) (auto split: option.split json.split)


lemma schema_props_mem:
  "x \<in> set (schema_props schema) \<Longrightarrow> \<exists>pm. map_of schema ''properties'' = Some (JObj pm) \<and> x \<in> set pm"
  by (cases "map_of schema ''properties''"; cases "the (map_of schema ''properties'')")
     (auto simp: schema_props_def)

lemma validate_conforms:
  "validateObjectAt schema args path = [] \<longleftrightarrow> conforms_object schema args"
  "validateValue propDef val name = [] \<longleftrightarrow> conforms propDef val"
  "validateArray propDef' val' name' = [] \<longleftrightarrow>
     (\<forall>arr items. val' = JArr arr \<longrightarrow> map_of propDef' ''items'' = Some (JObj items) \<longrightarrow> (\<forall>x \<in> set arr. conforms items x))"
proof (induction schema args path and propDef val name and propDef' val' name'
    rule: validateObjectAt_validateValue_validateArray.induct)
  case (1 schema args path)
  have "validateValue propDef val (path @ name) = [] \<longleftrightarrow> conforms propDef val"
    if "(name, JObj propDef) \<in> set (schema_props schema)" "map_of args name = Some val" for name propDef val
    using schema_props_mem [OF that(1)] that(2) "1.IH" by fastforce
  then show ?case unfolding validateObjectAt_Nil conforms_object_iff [of schema args] by auto
next
  case (2 propDef val name)
  have "validateObjectAt propDef nested (name @ ''.'') = [] \<longleftrightarrow> conforms_object propDef nested"
    if "str_field propDef ''type'' = ''object''" "val = JObj nested" for nested
    using "2.IH"(1) that by simp
  moreover have "validateArray propDef val name = [] \<longleftrightarrow>
     (\<forall>arr items. val = JArr arr \<longrightarrow> map_of propDef ''items'' = Some (JObj items) \<longrightarrow> (\<forall>x \<in> set arr. conforms items x))"
    if "str_field propDef ''type'' = ''array''"
    using "2.IH"(2) that by simp
  ultimately show ?case unfolding validateValue_Nil conforms_iff [of propDef val] by auto
next
  case (3 propDef val name)
  then show ?case
    unfolding validateArray_Nil by (auto simp: all_set_conv_all_nth)
qed

section \<open>What the strict subset demands\<close>

text \<open>The schemas the strict check visits, and its demand on each of them.\<close>

inductive sub_schema :: "jobject \<Rightarrow> jobject \<Rightarrow> bool" where
  sub_refl: "sub_schema schema schema"
| sub_property: "is_object_schema schema \<Longrightarrow> map_of (schema_props schema) name = Some (JObj s)
     \<Longrightarrow> sub_schema s t \<Longrightarrow> sub_schema schema t"
| sub_items: "map_of schema ''items'' = Some (JObj s) \<Longrightarrow> sub_schema s t \<Longrightarrow> sub_schema schema t"
| sub_anyOf: "map_of schema ''anyOf'' = Some (JArr bs) \<Longrightarrow> JObj s \<in> set bs \<Longrightarrow> sub_schema s t
     \<Longrightarrow> sub_schema schema t"

definition strict_node :: "jobject \<Rightarrow> bool" where
  "strict_node s \<longleftrightarrow> (is_object_schema s \<longrightarrow>
     closed_schema s \<and> fst ` set (schema_props s) \<subseteq> required_names s)"

lemma required_list_names: "set (required_list schema) = required_names schema"
proof (cases "\<exists>rs. map_of schema ''required'' = Some (JArr rs)")
  case True
  then obtain rs where rs: "map_of schema ''required'' = Some (JArr rs)" by auto
  have "set (concat (map (\<lambda>r. case r of JStr s \<Rightarrow> [s] | _ \<Rightarrow> []) rs)) = {name. JStr name \<in> set rs}"
    by (induction rs) (auto split: json.splits)
  with rs show ?thesis by (simp add: required_list_def required_names_def)
next
  case False
  then have "required_list schema = []" by (auto simp: required_list_def split: option.split json.split)
  with False show ?thesis by (simp add: required_names_def)
qed

lemma case_option_JObj_Nil:
  "(case x of Some (JObj d) \<Rightarrow> f d | _ \<Rightarrow> []) = [] \<longleftrightarrow> (\<forall>d. x = Some (JObj d) \<longrightarrow> f d = [])"
  "(case x of Some (JArr d) \<Rightarrow> g d | _ \<Rightarrow> []) = [] \<longleftrightarrow> (\<forall>d. x = Some (JArr d) \<longrightarrow> g d = [])"
  by (auto split: json.split option.split)

lemma schema_props_eq: "map_of schema ''properties'' = Some (JObj pm) \<Longrightarrow> schema_props schema = pm"
  by (simp add: schema_props_def)

lemma validateStrictAt_Nil:
  "validateStrictAt schema path = [] \<longleftrightarrow>
     strict_node schema \<and>
     (\<forall>name s. is_object_schema schema \<longrightarrow> map_of (schema_props schema) name = Some (JObj s) \<longrightarrow>
        validateStrictAt s (path @ [''properties'', name]) = []) \<and>
     (\<forall>s. map_of schema ''items'' = Some (JObj s) \<longrightarrow> validateStrictAt s (path @ [''items'']) = []) \<and>
     (\<forall>bs i s. map_of schema ''anyOf'' = Some (JArr bs) \<longrightarrow> i < length bs \<longrightarrow> bs ! i = JObj s \<longrightarrow>
        validateStrictAt s (path @ [''anyOf'', itoa i]) = [])"
proof -
  have props: "(case map_of schema ''properties'' of
              Some (JObj props) \<Rightarrow>
                concat (map (\<lambda>name.
                    (if name \<in> set (required_list schema) then [] else [RequiredMissesKey ctx name])
                    @ (case map_of props name of
                         Some (JObj subSchema) \<Rightarrow> validateStrictAt subSchema (path @ [''properties'', name])
                       | _ \<Rightarrow> [])) (sort (map fst props)))
            | _ \<Rightarrow> []) = [] \<longleftrightarrow>
     fst ` set (schema_props schema) \<subseteq> required_names schema \<and>
     (\<forall>name s. map_of (schema_props schema) name = Some (JObj s) \<longrightarrow>
        validateStrictAt s (path @ [''properties'', name]) = [])" (is "?L \<longleftrightarrow> ?R") for ctx
  proof (cases "\<exists>pm. map_of schema ''properties'' = Some (JObj pm)")
    case True
    then obtain pm where pm: "map_of schema ''properties'' = Some (JObj pm)" by auto
    have "name \<in> fst ` set pm" if "map_of pm name = Some y" for name y
      using map_of_SomeD [OF that] by force
    with pm have "?L \<longleftrightarrow> (\<forall>name \<in> fst ` set pm. name \<in> required_names schema \<and>
        (\<forall>s. map_of pm name = Some (JObj s) \<longrightarrow> validateStrictAt s (path @ [''properties'', name]) = []))"
      by (auto simp: required_list_names case_option_JObj_Nil)
    also have "\<dots> \<longleftrightarrow> ?R"
      unfolding schema_props_eq [OF pm] by (meson \<open>\<And>y name. map_of pm name = Some y \<Longrightarrow> name \<in> fst ` set pm\<close> subset_iff)
    finally show ?thesis .
  next
    case False
    then have "schema_props schema = []" by (auto simp: schema_props_def split: option.splits json.splits)
    with False show ?thesis by (auto simp: case_option_JObj_Nil)
  qed
  have branches: "concat (map (\<lambda>(i, b). case b of JObj sub \<Rightarrow> validateStrictAt sub (path @ [''anyOf'', itoa i]) | _ \<Rightarrow> [])
                         (zip [0..<length bs] bs)) = [] \<longleftrightarrow>
       (\<forall>i s. i < length bs \<longrightarrow> bs ! i = JObj s \<longrightarrow> validateStrictAt s (path @ [''anyOf'', itoa i]) = [])" for bs
    by (force simp: set_zip case_Nil_iff)
  show ?thesis
    unfolding validateStrictAt.simps [of schema path] Let_def strict_node_def closed_schema_def
    by (simp add: props branches case_option_JObj_Nil(2) del: concat_eq_Nil_conv)
       (auto simp: case_option_JObj_Nil(1))
qed

lemma validateStrictAt_sub:
  "sub_schema schema t \<Longrightarrow> validateStrictAt schema path = [] \<Longrightarrow> strict_node t"
proof (induction arbitrary: path rule: sub_schema.induct)
  case (sub_anyOf schema bs s t)
  then show ?case by (metis in_set_conv_nth validateStrictAt_Nil)
qed (metis validateStrictAt_Nil)+

lemma strict_nodes_validate:
  "(\<And>t. sub_schema schema t \<Longrightarrow> strict_node t) \<Longrightarrow> validateStrictAt schema path = []"
proof (induction "size (JObj schema)" arbitrary: schema path rule: less_induct)
  case less
  have step: "validateStrictAt s p = []"
    if "size (JObj s) < size (JObj schema)" "\<And>t. sub_schema s t \<Longrightarrow> sub_schema schema t" for s p
    using less.hyps [OF that(1)] less.prems that(2) by blast
  have "validateStrictAt s p = []"
    if "is_object_schema schema" "map_of (schema_props schema) name = Some (JObj s)" for name s p
  proof (rule step)
    show "size (JObj s) < size (JObj schema)"
      using that by (auto simp: schema_props_def split: option.splits json.splits dest!: json_size_obj_lookup)
    show "sub_schema schema t" if "sub_schema s t" for t
      using \<open>is_object_schema schema\<close> \<open>map_of (schema_props schema) name = Some (JObj s)\<close> that
      by (rule sub_property)
  qed
  moreover have "validateStrictAt s p = []" if "map_of schema ''items'' = Some (JObj s)" for s p
    using that json_size_obj_lookup [OF that] by (intro step) (auto intro: sub_items)
  moreover have "validateStrictAt s p = []"
    if "map_of schema ''anyOf'' = Some (JArr bs)" "i < length bs" "bs ! i = JObj s" for bs i s p
  proof (rule step)
    have mem: "JObj s \<in> set bs" using that nth_mem by metis
    show "size (JObj s) < size (JObj schema)" using json_size_branch [OF that(1) mem] by simp
    show "sub_schema schema t" if "sub_schema s t" for t
      using \<open>map_of schema ''anyOf'' = Some (JArr bs)\<close> mem that by (rule sub_anyOf)
  qed
  ultimately show ?case
    unfolding validateStrictAt_Nil [of schema] using less.prems [OF sub_refl] by blast
qed


section \<open>Properties\<close>

text \<open>
  \<open>EqualScalar\<close> decides equality of the values two decoded terms stand for: numbers of any Go
  type compare by their \<^verbatim>\<open>float64\<close> value, arrays and objects element-wise, and terms of different
  kinds are never equal. Hence it is an equivalence relation on well-formed values without NaN,
  independent of the iteration order of maps.
\<close>

theorem EqualScalar_decides_canonical_equality:
  assumes "plain_value a" and "plain_value b"
  shows "EqualScalar a b \<longleftrightarrow> canon a = canon b"
  using assms by (rule EqualScalar_iff_canon)

theorem EqualScalar_decides_canonical_equality_witness:
  "EqualScalar (JObj [(''a'', JInt 1), (''b'', JArr [JStr ''1''])])
               (JObj [(''b'', JArr [JStr ''1'']), (''a'', JFloat64 (Fin 1))])
   \<and> \<not> EqualScalar (JInt 1) (JStr ''1'')"
proof -
  have "plain_value (JObj [(''a'', JInt 1), (''b'', JArr [JStr ''1''])])"
    "plain_value (JObj [(''b'', JArr [JStr ''1'']), (''a'', JFloat64 (Fin 1))])"
    "plain_value (JInt 1)" "plain_value (JStr ''1'')"
    by (auto simp: plain_value_def gm_wf_def)
  from EqualScalar_decides_canonical_equality [OF this(1,2)]
    EqualScalar_decides_canonical_equality [OF this(3,4)]
  show ?thesis by (auto simp: f64_of_int_exact fun_eq_iff)
qed

text \<open>
  C34. The validator reports no error exactly when the schema's type is not "object" (such a schema is
  not checked at all) or the arguments conform: every required name is present, every declared property
  that is present conforms to its own schema (its type, its enumeration, its length bounds and,
  recursively, its properties or items), and a closed schema has no other argument.
\<close>

theorem ValidateParameters_accepts_iff_conforms:
  "ValidateParameters schema args = [] \<longleftrightarrow>
     (str_field schema ''type'' = ''object'' \<longrightarrow> conforms_object schema args)"
proof -
  have "schema \<noteq> []" if "str_field schema ''type'' = ''object''" using that by (auto simp: str_field_def)
  then show ?thesis by (auto simp: ValidateParameters_def validate_conforms)
qed

definition sample_schema :: jobject where
  "sample_schema =
     [(''type'', JStr ''object''), (''additionalProperties'', JBool False),
      (''required'', JArr [JStr ''city'']),
      (''properties'', JObj [(''city'', JObj [(''type'', JStr ''string''), (''minLength'', JInt 2), (''maxLength'', JInt 4)])])]"

theorem ValidateParameters_accepts_iff_conforms_witness:
  "conforms_object sample_schema [(''city'', JStr ''Oslo'')]
   \<and> \<not> conforms_object sample_schema [(''city'', JStr ''O'')]
   \<and> \<not> conforms_object sample_schema [(''city'', JStr ''Paris'')]
   \<and> \<not> conforms_object sample_schema []
   \<and> ValidateParameters [(''type'', JStr ''string'')] [] = []"
proof -
  have t: "str_field sample_schema ''type'' = ''object''" "str_field [(''type'', JStr ''string'')] ''type'' \<noteq> ''object''"
    by code_simp+
  have "ValidateParameters sample_schema [(''city'', JStr ''Oslo'')] = []" by code_simp
  moreover have "ValidateParameters sample_schema [(''city'', JStr ''O'')] = [TooShort ''city'' 1 2]" by code_simp
  moreover have "ValidateParameters sample_schema [(''city'', JStr ''Paris'')] = [TooLong ''city'' 5 4]" by code_simp
  moreover have "ValidateParameters sample_schema [] = [MissingRequired ''city'']" by code_simp
  moreover have "conforms_object sample_schema args \<longleftrightarrow> ValidateParameters sample_schema args = []" for args
    using ValidateParameters_accepts_iff_conforms [of sample_schema args] t(1) by simp
  ultimately show ?thesis
    using ValidateParameters_accepts_iff_conforms [of "[(''type'', JStr ''string'')]" "[]"] t(2) by simp
qed

text \<open>
  The structured-outputs check accepts a schema exactly when every schema it contains (through
  properties, items and anyOf branches) that describes an object is closed and requires each of
  its properties.
\<close>

theorem ValidateStrictSubset_iff_strict_nodes:
  "ValidateStrictSubset schema = [] \<longleftrightarrow> {t. sub_schema schema t} \<subseteq> {t. strict_node t}"
  unfolding ValidateStrictSubset_def
  using validateStrictAt_sub strict_nodes_validate by blast

text \<open>
  An object schema that passes the structured-outputs check pins the arguments: whatever the
  argument validator accepts under it has exactly the declared property names as keys.
\<close>

theorem strict_schema_pins_arguments:
  assumes "str_field schema ''type'' = ''object''" and "ValidateStrictSubset schema = []"
    and "ValidateParameters schema args = []"
  shows "fst ` set args = set (getPropertyNames schema)"
proof -
  have "strict_node schema"
    using assms(2) validateStrictAt_sub [OF sub_refl] by (simp add: ValidateStrictSubset_def)
  moreover have "is_object_schema schema" using assms(1) by (simp add: is_object_schema_def)
  ultimately have closed: "closed_schema schema" and req: "fst ` set (schema_props schema) \<subseteq> required_names schema"
    by (auto simp: strict_node_def)
  have "schema \<noteq> []" using assms(1) by (auto simp: str_field_def)
  then have "validateObjectAt schema args [] = []" using assms(1,3) by (simp add: ValidateParameters_def)
  with closed have "fst ` set args \<subseteq> fst ` set (schema_props schema)"
    and "\<forall>name \<in> required_names schema. name \<in> fst ` set args"
    by (auto simp: validateObjectAt_Nil gm_keys_get)
  with req show ?thesis by (auto simp: getPropertyNames_props)
qed

theorem strict_schema_pins_arguments_witness:
  "fst ` set [(''city'', JStr ''Oslo'')] = set (getPropertyNames sample_schema)"
  by (rule strict_schema_pins_arguments) code_simp+

end
