(* ===== verification/Scenario_Matcher.thy ===== *)
theory Scenario_Matcher
  imports Agent_Types
begin

text \<open>
  \<^verbatim>\<open>internal/engine/scenario_matcher.go\<close>: which scenario answers a user message. The regular
  expressions of Go's \<^verbatim>\<open>regexp\<close> package are a parameter: \<open>compile\<close> gives None for a pattern that
  does not compile, and otherwise the submatch function together with the names of the
  groups (index 0 is the whole match, an unnamed group has the empty name). The two caches
  of the matcher are state that the definitions pass along.
\<close>

section \<open>Regular expressions and the matcher's caches\<close>

record regexp =
  re_FindStringSubmatch :: "string \<Rightarrow> string list option"
  re_SubexpNames :: "string list"

type_synonym captures = "(string \<times> string) list"

record match_result =
  res_Scenario :: scenario
  res_Captures :: captures
  res_Default :: bool

record matcher =
  m_regexCache :: "string \<rightharpoonup> regexp option"
  m_lowerCache :: "string \<rightharpoonup> string"

definition NewScenarioMatcher :: matcher where
  "NewScenarioMatcher = \<lparr>m_regexCache = Map.empty, m_lowerCache = Map.empty\<rparr>"

definition lowerContains :: "matcher \<Rightarrow> string \<Rightarrow> string \<times> matcher" where
  "lowerContains m s =
     (case m_lowerCache m s of
        Some v \<Rightarrow> (v, m)
      | None \<Rightarrow> let lowered = strings_ToLower s
                in (lowered, m\<lparr>m_lowerCache := (m_lowerCache m)(s \<mapsto> lowered)\<rparr>))"

definition compileRegex :: "(string \<Rightarrow> regexp option) \<Rightarrow> matcher \<Rightarrow> string \<Rightarrow> regexp option \<times> matcher" where
  "compileRegex compile m pattern =
     (case m_regexCache m pattern of
        Some cached \<Rightarrow> (cached, m)
      | None \<Rightarrow> let re = compile pattern
                in (re, m\<lparr>m_regexCache := (m_regexCache m)(pattern \<mapsto> re)\<rparr>))"

section \<open>Evaluating a rule (evaluate)\<close>

text \<open>
  The named groups of a successful match, the last of several groups with one name winning.
  A match has one entry per group.
\<close>

definition named_captures :: "string list \<Rightarrow> string list \<Rightarrow> captures" where
  "named_captures names groups =
     fold (\<lambda>(name, g) caps. if name = [] then caps else gm_put name g caps) (zip (tl names) (tl groups)) []"

text \<open>
  None is "did not match", \<open>Some []\<close> the shared empty map \<^verbatim>\<open>matchedSentinel\<close>.
\<close>

definition evaluate ::
  "(string \<Rightarrow> regexp option) \<Rightarrow> matcher \<Rightarrow> match_rule \<Rightarrow> string \<Rightarrow> string \<Rightarrow> int \<Rightarrow> int
   \<Rightarrow> captures option \<times> matcher" where
  "evaluate compile m rule userMessage lowerMessage turnNumber imageCount =
     (if (case mr_HasImage rule of Some want \<Rightarrow> (0 < imageCount) \<noteq> want | None \<Rightarrow> False) then (None, m)
      else
        let (containsOk, m1) =
              (if mr_ContentContains rule = [] then (True, m)
               else let (low, m1) = lowerContains m (mr_ContentContains rule)
                    in (strings_Contains lowerMessage low, m1))
        in if \<not> containsOk then (None, m1)
           else
             let (caps, m2) =
                   (if mr_ContentRegex rule = [] then (Some [], m1)
                    else let (re, m2) = compileRegex compile m1 (mr_ContentRegex rule)
                         in (case re of
                               None \<Rightarrow> (None, m2)
                             | Some r \<Rightarrow> (map_option (named_captures (re_SubexpNames r))
                                            (re_FindStringSubmatch r userMessage), m2)))
             in (case caps of
                   None \<Rightarrow> (None, m2)
                 | Some cs \<Rightarrow>
                     if (case mr_TurnNumber rule of Some t \<Rightarrow> turnNumber \<noteq> t | None \<Rightarrow> False)
                     then (None, m2) else (Some cs, m2)))"

section \<open>Choosing the scenario (MatchWithCaptures, Match)\<close>

fun match_loop ::
  "(string \<Rightarrow> regexp option) \<Rightarrow> matcher \<Rightarrow> scenario option \<Rightarrow> scenario list \<Rightarrow> string \<Rightarrow> string \<Rightarrow> int \<Rightarrow> int
   \<Rightarrow> match_result option \<times> matcher" where
  "match_loop compile m dflt [] msg low turn img =
     ((case dflt of
         Some sc \<Rightarrow> Some \<lparr>res_Scenario = sc, res_Captures = [], res_Default = True\<rparr>
       | None \<Rightarrow> None), m)"
| "match_loop compile m dflt (sc # scs) msg low turn img =
     (case sc_Match sc of
        None \<Rightarrow> match_loop compile m (case dflt of None \<Rightarrow> Some sc | Some d \<Rightarrow> Some d) scs msg low turn img
      | Some rule \<Rightarrow>
          (case evaluate compile m rule msg low turn img of
             (Some caps, m') \<Rightarrow> (Some \<lparr>res_Scenario = sc, res_Captures = caps, res_Default = False\<rparr>, m')
           | (None, m') \<Rightarrow> match_loop compile m' dflt scs msg low turn img))"

definition MatchWithCaptures ::
  "(string \<Rightarrow> regexp option) \<Rightarrow> matcher \<Rightarrow> scenario list \<Rightarrow> string \<Rightarrow> int \<Rightarrow> int
   \<Rightarrow> match_result option \<times> matcher" where
  "MatchWithCaptures compile m scenarios userMessage turnNumber imageCount =
     match_loop compile m None scenarios userMessage (strings_ToLower userMessage) turnNumber imageCount"

datatype match_error = ErrNoMatchingScenario

definition Match ::
  "(string \<Rightarrow> regexp option) \<Rightarrow> matcher \<Rightarrow> scenario list \<Rightarrow> string \<Rightarrow> int \<Rightarrow> int
   \<Rightarrow> (match_error + scenario) \<times> matcher" where
  "Match compile m scenarios userMessage turnNumber imageCount =
     (case MatchWithCaptures compile m scenarios userMessage turnNumber imageCount of
        (Some r, m') \<Rightarrow> (Inr (res_Scenario r), m')
      | (None, m') \<Rightarrow> (Inl ErrNoMatchingScenario, m'))"

section \<open>What a rule means\<close>

text \<open>
  The rule's meaning with no cache: the conjunction of its conditions, and the captures of its
  regular expression.
\<close>

definition rule_captures ::
  "(string \<Rightarrow> regexp option) \<Rightarrow> string \<Rightarrow> int \<Rightarrow> int \<Rightarrow> match_rule \<Rightarrow> captures option" where
  "rule_captures compile msg turn img rule =
     (if (\<forall>want \<in> set_option (mr_HasImage rule). (0 < img) = want)
         \<and> strings_Contains (strings_ToLower msg) (strings_ToLower (mr_ContentContains rule))
         \<and> (\<forall>t \<in> set_option (mr_TurnNumber rule). turn = t)
      then if mr_ContentRegex rule = [] then Some []
           else Option.bind (compile (mr_ContentRegex rule))
                  (\<lambda>r. map_option (named_captures (re_SubexpNames r)) (re_FindStringSubmatch r msg))
      else None)"

definition applies :: "(string \<Rightarrow> regexp option) \<Rightarrow> string \<Rightarrow> int \<Rightarrow> int \<Rightarrow> scenario \<Rightarrow> bool" where
  "applies compile msg turn img sc =
     (case sc_Match sc of None \<Rightarrow> False | Some rule \<Rightarrow> rule_captures compile msg turn img rule \<noteq> None)"

text \<open>The specification: the first scenario whose rule applies, else the first without a rule.\<close>

definition select_scenario ::
  "(string \<Rightarrow> regexp option) \<Rightarrow> string \<Rightarrow> int \<Rightarrow> int \<Rightarrow> scenario list \<Rightarrow> match_result option" where
  "select_scenario compile msg turn img scs =
     (case find (applies compile msg turn img) scs of
        Some sc \<Rightarrow> Some \<lparr>res_Scenario = sc,
                        res_Captures = the (rule_captures compile msg turn img (the (sc_Match sc))),
                        res_Default = False\<rparr>
      | None \<Rightarrow>
          map_option (\<lambda>sc. \<lparr>res_Scenario = sc, res_Captures = [], res_Default = True\<rparr>)
            (find (\<lambda>sc. sc_Match sc = None) scs))"

section \<open>The caches hold what was computed\<close>

text \<open>
  \<open>cache_ok\<close>: every cached lower-case form and every cached compilation is the one that would be
  computed afresh. Every operation of the matcher keeps it.
\<close>

definition cache_ok :: "(string \<Rightarrow> regexp option) \<Rightarrow> matcher \<Rightarrow> bool" where
  "cache_ok compile m \<longleftrightarrow>
     (\<forall>s v. m_lowerCache m s = Some v \<longrightarrow> v = strings_ToLower s)
     \<and> (\<forall>p r. m_regexCache m p = Some r \<longrightarrow> r = compile p)"

lemma cache_ok_new [go_inv]: "cache_ok compile NewScenarioMatcher"
  by (simp add: cache_ok_def NewScenarioMatcher_def)

lemma lowerContains_ok [go_inv]:
  assumes "cache_ok compile m" and "lowerContains m s = (v, m')"
  shows "v = strings_ToLower s \<and> cache_ok compile m'"
  using assms by (auto simp: lowerContains_def cache_ok_def Let_def split: option.splits if_splits)

lemma compileRegex_ok [go_inv]:
  assumes "cache_ok compile m" and "compileRegex compile m p = (r, m')"
  shows "r = compile p \<and> cache_ok compile m'"
  using assms by (auto simp: compileRegex_def cache_ok_def Let_def split: option.splits if_splits)

lemma evaluate_ok [go_inv]:
  assumes ok: "cache_ok compile m"
    and ev: "evaluate compile m rule msg (strings_ToLower msg) turn img = (caps, m')"
  shows "caps = rule_captures compile msg turn img rule \<and> cache_ok compile m'"
proof -
  obtain low m1 where low: "lowerContains m (mr_ContentContains rule) = (low, m1)" by force
  note L = lowerContains_ok [OF ok low]
  obtain re m2 where re: "compileRegex compile m1 (mr_ContentRegex rule) = (re, m2)" by force
  note R = compileRegex_ok [OF _ re]
  obtain re' m3 where re': "compileRegex compile m (mr_ContentRegex rule) = (re', m3)" by force
  note R' = compileRegex_ok [OF ok re']
  show ?thesis
    using ev ok L R R'
    by (auto simp: evaluate_def rule_captures_def low re re' Let_def
        split: option.splits if_splits bind_splits)
qed

lemma match_loop_select:
  assumes "cache_ok compile m"
  shows "\<exists>m'. cache_ok compile m' \<and>
    match_loop compile m dflt scs msg (strings_ToLower msg) turn img =
      ((case find (applies compile msg turn img) scs of
          Some sc \<Rightarrow> select_scenario compile msg turn img scs
        | None \<Rightarrow> (case dflt of
                     Some d \<Rightarrow> Some \<lparr>res_Scenario = d, res_Captures = [], res_Default = True\<rparr>
                   | None \<Rightarrow> select_scenario compile msg turn img scs)), m')"
  using assms
proof (induction scs arbitrary: m dflt)
  case Nil
  then show ?case by (auto simp: select_scenario_def split: option.splits)
next
  case (Cons sc scs)
  show ?case
  proof (cases "sc_Match sc")
    case None
    then have "\<not> applies compile msg turn img sc" by (simp add: applies_def)
    with None Cons.IH [OF Cons.prems, of "case dflt of None \<Rightarrow> Some sc | Some d \<Rightarrow> Some d"]
    show ?thesis by (auto simp: select_scenario_def split: option.splits)
  next
    case (Some rule)
    obtain caps m' where ev: "evaluate compile m rule msg (strings_ToLower msg) turn img = (caps, m')" by force
    from evaluate_ok [OF Cons.prems ev]
    have caps: "caps = rule_captures compile msg turn img rule" and ok': "cache_ok compile m'" by auto
    show ?thesis
      using Some ev caps ok' Cons.IH [OF ok', of dflt]
      by (cases caps) (auto simp: applies_def select_scenario_def split: option.splits)
  qed
qed

section \<open>Properties\<close>

text \<open>
  C35. With caches that hold what was computed, and in particular from a new matcher on,
  \<open>MatchWithCaptures\<close> returns exactly the specified scenario: the first one in definition order
  whose rule applies, with that rule's captures; the first one without a rule if no rule
  applies; nothing if there is neither. The caches it leaves are again correct, so a cache
  never changes an answer.
\<close>

theorem MatchWithCaptures_selects_first:
  assumes "cache_ok compile m"
  shows "fst (MatchWithCaptures compile m scs msg turn img) = select_scenario compile msg turn img scs
         \<and> cache_ok compile (snd (MatchWithCaptures compile m scs msg turn img))"
  using match_loop_select [OF assms, of None scs msg turn img]
  by (auto simp: MatchWithCaptures_def split: option.splits)

definition sample_rule :: "string \<Rightarrow> int option \<Rightarrow> match_rule" where
  "sample_rule c t = \<lparr>mr_ContentContains = c, mr_ContentRegex = [], mr_TurnNumber = t, mr_HasImage = None\<rparr>"

definition sample_scenario :: "string \<Rightarrow> match_rule option \<Rightarrow> scenario" where
  "sample_scenario n r =
     \<lparr>sc_Name = n, sc_Match = r,
      sc_Response = \<lparr>sr_Content = n, sr_ToolCalls = [], sr_Metadata = [], sr_FinishReason = [],
                     sr_Refusal = [], sr_Hallucination = None\<rparr>\<rparr>"

definition sample_scenarios :: "scenario list" where
  "sample_scenarios =
     [sample_scenario ''dflt'' None, sample_scenario ''second'' (Some (sample_rule ''hello'' (Some 2))),
      sample_scenario ''hi'' (Some (sample_rule ''HELLO'' None))]"

theorem MatchWithCaptures_selects_first_witness:
  "map_option (\<lambda>r. sc_Name (res_Scenario r))
     (fst (MatchWithCaptures (\<lambda>_. None) NewScenarioMatcher sample_scenarios ''Hello there'' 1 0)) = Some ''hi''"
proof -
  have "map_option (\<lambda>r. sc_Name (res_Scenario r))
      (select_scenario (\<lambda>_. None) ''Hello there'' 1 0 sample_scenarios) = Some ''hi''"
    by code_simp
  then show ?thesis
    using MatchWithCaptures_selects_first [OF cache_ok_new, of "\<lambda>_. None" sample_scenarios "''Hello there''" 1 0]
    by simp
qed

end
