(* ===== verification/Session_State.thy ===== *)
theory Session_State
  imports Agent_Types
begin

text \<open>
  \<^verbatim>\<open>internal/engine/state\<close>: a session (history, turn count, variables) and the in-memory store.
  The store maps ids to pointers and hands the pointers out, so it is modelled with an explicit
  heap: \<open>ms_heap\<close> holds the sessions, \<open>ms_sessions\<close> the id of each live one. An operation is one
  critical section of the code, and \<open>now\<close> is the instant its clock reads give; a turn reads the clock once
  for each of its two messages. Sorting by last access leaves ties in the order of the map's
  iteration, which is arbitrary, as the code's unstable sort does. The callback that
  builds a turn returns the variables map as it left it, with its result or its error.
\<close>

section \<open>Sessions (session.go)\<close>

record tool_call_msg =
  tcm_Name :: string
  tcm_Arguments :: jobject

record message =
  msg_Role :: string
  msg_Content :: string
  msg_ToolCalls :: "tool_call_msg list"
  msg_Timestamp :: instant

record session =
  se_ID :: string
  se_AgentName :: string
  se_Messages :: "message list"
  se_TurnCount :: int
  se_Variables :: "jobject option"
  se_CreatedAt :: instant
  se_LastAccess :: instant
  se_TTL :: duration
  se_MaxHistory :: int

definition NewSession :: "instant \<Rightarrow> string \<Rightarrow> string \<Rightarrow> duration \<Rightarrow> session" where
  "NewSession now sid agentName ttl =
     \<lparr>se_ID = sid, se_AgentName = agentName, se_Messages = [], se_TurnCount = 0, se_Variables = Some [],
      se_CreatedAt = now, se_LastAccess = now, se_TTL = ttl, se_MaxHistory = 0\<rparr>"

fun cloneVariableValue :: "json \<Rightarrow> json" where
  "cloneVariableValue (JObj kvs) = JObj (map (\<lambda>(k, child). (k, cloneVariableValue child)) kvs)"
| "cloneVariableValue (JArr xs) = JArr (map cloneVariableValue xs)"
| "cloneVariableValue v = v"

definition cloneVariables :: "jobject option \<Rightarrow> jobject" where
  "cloneVariables vs =
     (case vs of None \<Rightarrow> [] | Some m \<Rightarrow> map (\<lambda>(k, v). (k, cloneVariableValue v)) m)"

definition appendUserMessage :: "instant \<Rightarrow> string \<Rightarrow> session \<Rightarrow> session" where
  "appendUserMessage now content s =
     s\<lparr>se_Messages := se_Messages s @
          [\<lparr>msg_Role = ''user'', msg_Content = content, msg_ToolCalls = [], msg_Timestamp = now\<rparr>],
       se_TurnCount := se_TurnCount s + 1, se_LastAccess := now\<rparr>"

definition appendAssistantMessage :: "instant \<Rightarrow> string \<Rightarrow> tool_call_msg list \<Rightarrow> session \<Rightarrow> session" where
  "appendAssistantMessage now content toolCalls s =
     (let msgs = se_Messages s @
            [\<lparr>msg_Role = ''assistant'', msg_Content = content, msg_ToolCalls = toolCalls, msg_Timestamp = now\<rparr>]
      in s\<lparr>se_Messages :=
             (if 0 < se_MaxHistory s \<and> se_MaxHistory s < int (length msgs)
              then drop (length msgs - nat (se_MaxHistory s)) msgs else msgs),
           se_LastAccess := now\<rparr>)"

type_synonym 'e turn_builder = "int \<Rightarrow> jobject \<Rightarrow> jobject \<times> ('e + string \<times> tool_call_msg list)"

definition ApplyTurn :: "instant \<Rightarrow> instant \<Rightarrow> string \<Rightarrow> 'e turn_builder \<Rightarrow> session \<Rightarrow> ('e + unit) \<times> session" where
  "ApplyTurn tu ta userContent build s =
     (let reusedEmpty = (se_Variables s = Some []);
          variables = (if reusedEmpty then [] else cloneVariables (se_Variables s));
          (variables', r) = build (se_TurnCount s + 1) variables;
          inPlace = (if reusedEmpty then s\<lparr>se_Variables := Some variables'\<rparr> else s)
      in case r of
           Inl err \<Rightarrow> (Inl err, if reusedEmpty then inPlace\<lparr>se_Variables := Some []\<rparr> else inPlace)
         | Inr (content, toolCalls) \<Rightarrow>
             (Inr (), appendAssistantMessage ta content toolCalls
                        (appendUserMessage tu userContent (inPlace\<lparr>se_Variables := Some variables'\<rparr>))))"

definition IsExpired :: "instant \<Rightarrow> session \<Rightarrow> bool" where
  "IsExpired now s = (if se_TTL s \<le> 0 then False else se_TTL s < time_Sub now (se_LastAccess s))"

definition LatestUserMessage :: "session \<Rightarrow> string" where
  "LatestUserMessage s =
     (case find (\<lambda>m. msg_Role m = ''user'') (rev (se_Messages s)) of None \<Rightarrow> [] | Some m \<Rightarrow> msg_Content m)"

section \<open>The in-memory store (store.go)\<close>

definition DefaultSessionTTL :: duration where "DefaultSessionTTL = 30 * Minute"
definition DefaultMaxSessions :: int where "DefaultMaxSessions = 100000"
definition DefaultMaxHistory :: int where "DefaultMaxHistory = 256"

type_synonym ptr = nat

record memory_store =
  ms_sessions :: "(string, ptr) gomap"
  ms_heap :: "ptr \<Rightarrow> session"
  ms_next :: ptr
  ms_ttl :: duration
  ms_maxSessions :: int
  ms_maxHistory :: int

definition NewMemoryStore :: "duration \<Rightarrow> memory_store" where
  "NewMemoryStore ttl =
     \<lparr>ms_sessions = [], ms_heap = (\<lambda>_. NewSession 0 [] [] 0), ms_next = 0,
      ms_ttl = (if ttl \<le> 0 then DefaultSessionTTL else ttl),
      ms_maxSessions = DefaultMaxSessions, ms_maxHistory = DefaultMaxHistory\<rparr>"

definition SetLimits :: "int \<Rightarrow> int \<Rightarrow> memory_store \<Rightarrow> memory_store" where
  "SetLimits maxSessions maxHistory s = s\<lparr>ms_maxSessions := maxSessions, ms_maxHistory := maxHistory\<rparr>"

abbreviation ptr_expired :: "instant \<Rightarrow> memory_store \<Rightarrow> ptr \<Rightarrow> bool" where
  "ptr_expired now s p \<equiv> IsExpired now (ms_heap s p)"

definition evict_drop :: "int \<Rightarrow> int \<Rightarrow> int" where
  "evict_drop maxSessions entries =
     (let drop0 = maxSessions div 16; drop1 = (if drop0 < 1 then 1 else drop0)
      in if entries < drop1 then entries else drop1)"

definition evictForSpaceLocked :: "instant \<Rightarrow> memory_store \<Rightarrow> memory_store" where
  "evictForSpaceLocked now s =
     (if ms_maxSessions s \<le> 0 \<or> int (length (ms_sessions s)) < ms_maxSessions s then s
      else
        let s1 = s\<lparr>ms_sessions := filter (\<lambda>(sid, p). \<not> ptr_expired now s p) (ms_sessions s)\<rparr>
        in if int (length (ms_sessions s1)) < ms_maxSessions s then s1
           else
             let entries = sort_key (\<lambda>(sid, p). se_LastAccess (ms_heap s p)) (ms_sessions s1);
                 n = nat (evict_drop (ms_maxSessions s) (int (length entries)))
             in s1\<lparr>ms_sessions :=
                     fold (\<lambda>(sid, p) m. gm_del sid m) (take n entries) (ms_sessions s1)\<rparr>)"

definition deleteIfSame :: "string \<Rightarrow> ptr \<Rightarrow> memory_store \<Rightarrow> memory_store" where
  "deleteIfSame sid p s =
     (if gm_get (ms_sessions s) sid = Some p then s\<lparr>ms_sessions := gm_del sid (ms_sessions s)\<rparr> else s)"


text \<open>The section under the write lock, after the read-locked fast path has missed.\<close>

definition GetOrCreate_slow :: "instant \<Rightarrow> string \<Rightarrow> string \<Rightarrow> memory_store \<Rightarrow> ptr \<times> memory_store" where
  "GetOrCreate_slow now sid agentName s =
     (let create = (\<lambda>s0.
            let s1 = evictForSpaceLocked now s0; p = ms_next s1;
                sess = (NewSession now sid agentName (ms_ttl s1))\<lparr>se_MaxHistory := ms_maxHistory s1\<rparr>
            in (p, s1\<lparr>ms_heap := (ms_heap s1)(p := sess), ms_next := Suc p,
                      ms_sessions := gm_put sid p (ms_sessions s1)\<rparr>))
      in case gm_get (ms_sessions s) sid of
           Some p \<Rightarrow> if ptr_expired now s p then create (s\<lparr>ms_sessions := gm_del sid (ms_sessions s)\<rparr>) else (p, s)
         | None \<Rightarrow> create s)"

definition GetOrCreate :: "instant \<Rightarrow> string \<Rightarrow> string \<Rightarrow> memory_store \<Rightarrow> ptr \<times> memory_store" where
  "GetOrCreate now sid agentName s =
     (case gm_get (ms_sessions s) sid of
        Some p \<Rightarrow> if \<not> ptr_expired now s p then (p, s) else GetOrCreate_slow now sid agentName s
      | None \<Rightarrow> GetOrCreate_slow now sid agentName s)"

definition Delete :: "string \<Rightarrow> memory_store \<Rightarrow> memory_store" where
  "Delete sid s = s\<lparr>ms_sessions := gm_del sid (ms_sessions s)\<rparr>"

definition Count :: "memory_store \<Rightarrow> nat" where
  "Count s = length (ms_sessions s)"



definition Cleanup_one :: "instant \<Rightarrow> ptr \<Rightarrow> memory_store \<Rightarrow> memory_store" where
  "Cleanup_one now p s =
     (let sid = se_ID (ms_heap s p)
      in if gm_get (ms_sessions s) sid = Some p \<and> ptr_expired now s p
         then s\<lparr>ms_sessions := gm_del sid (ms_sessions s)\<rparr> else s)"

definition Cleanup_delete :: "instant \<Rightarrow> ptr list \<Rightarrow> memory_store \<Rightarrow> memory_store" where
  "Cleanup_delete now expired s = fold (Cleanup_one now) expired s"


text \<open>A caller's turn on a pointer it was handed, under that session's own lock.\<close>

definition turn_on :: "instant \<Rightarrow> instant \<Rightarrow> ptr \<Rightarrow> string \<Rightarrow> 'e turn_builder \<Rightarrow> memory_store \<Rightarrow> ('e + unit) \<times> memory_store" where
  "turn_on tu ta p userContent build s =
     (let (r, sess) = ApplyTurn tu ta userContent build (ms_heap s p)
      in (r, s\<lparr>ms_heap := (ms_heap s)(p := sess)\<rparr>))"

section \<open>Turns\<close>

lemma cloneVariableValue_id [simp]: "cloneVariableValue v = v"
proof (induction v rule: cloneVariableValue.induct)
  case (1 kvs)
  then show ?case by (force simp: intro!: map_idI)
next
  case (2 xs)
  then show ?case by (force simp: intro!: map_idI)
qed simp_all

definition variables_of :: "session \<Rightarrow> jobject" where
  "variables_of s = (case se_Variables s of None \<Rightarrow> [] | Some m \<Rightarrow> m)"

definition retained :: "int \<Rightarrow> 'a list \<Rightarrow> 'a list" where
  "retained maxHistory xs = (if maxHistory \<le> 0 then xs else drop (length xs - nat maxHistory) xs)"

lemma retained_length: "length (retained n xs) = (if n \<le> 0 then length xs else min (length xs) (nat n))"
  by (auto simp: retained_def min_def)

lemma retained_suffix: "suffix (retained n xs) xs"
  by (simp add: retained_def suffix_drop)

lemma cloneVariables_eq: "cloneVariables vs = (case vs of None \<Rightarrow> [] | Some m \<Rightarrow> m)"
  by (simp add: cloneVariables_def split: option.splits)

definition turn_messages :: "instant \<Rightarrow> instant \<Rightarrow> string \<Rightarrow> string \<Rightarrow> tool_call_msg list \<Rightarrow> message list" where
  "turn_messages tu ta userContent content toolCalls =
     [\<lparr>msg_Role = ''user'', msg_Content = userContent, msg_ToolCalls = [], msg_Timestamp = tu\<rparr>,
      \<lparr>msg_Role = ''assistant'', msg_Content = content, msg_ToolCalls = toolCalls, msg_Timestamp = ta\<rparr>]"

lemma ApplyTurn_cases:
  "ApplyTurn tu ta u build s =
     (case build (se_TurnCount s + 1) (variables_of s) of
        (vs, Inl err) \<Rightarrow> (Inl err, s)
      | (vs, Inr (content, tcs)) \<Rightarrow>
          (Inr (), s\<lparr>se_Messages := retained (se_MaxHistory s) (se_Messages s @ turn_messages tu ta u content tcs),
                    se_TurnCount := se_TurnCount s + 1, se_Variables := Some vs, se_LastAccess := ta\<rparr>))"
proof -
  have "variables_of s = (if se_Variables s = Some [] then [] else cloneVariables (se_Variables s))"
    by (auto simp: variables_of_def cloneVariables_eq split: option.splits)
  then show ?thesis
    by (auto simp: ApplyTurn_def Let_def appendAssistantMessage_def appendUserMessage_def retained_def
          turn_messages_def split: prod.splits sum.splits)
qed

section \<open>The store\<close>

definition store_wf :: "memory_store \<Rightarrow> bool" where
  "store_wf s \<longleftrightarrow> gm_wf (ms_sessions s) \<and>
     (\<forall>sid p. gm_get (ms_sessions s) sid = Some p \<longrightarrow> p < ms_next s \<and> se_ID (ms_heap s p) = sid)"

lemma fold_gm_del:
  "fold (\<lambda>(k, v) m. gm_del k m) es m = filter (\<lambda>(k, v). k \<notin> fst ` set es) m"
proof (induction es arbitrary: m)
  case (Cons e es)
  then show ?case by (auto simp: AList.delete_eq case_prod_beta intro!: filter_cong)
qed (simp add: case_prod_beta)

lemma length_filter_notin:
  assumes "gm_wf m" "n \<le> length m"
  shows "length (filter (\<lambda>(k, v). k \<notin> fst ` set (take n (sort_key f m))) m) = length m - n"
proof -
  define xs where "xs = sort_key f m"
  let ?P = "\<lambda>(k, v). k \<notin> fst ` set (take n xs)"
  have "mset xs = mset m" by (simp add: xs_def)
  then have "mset (map fst xs) = mset (map fst m)" by (metis mset_map)
  then have "distinct (map fst xs)" using assms(1) by (metis gm_wf_def mset_eq_imp_distinct_iff)
  then have "distinct (map fst (take n xs @ drop n xs))" by simp
  then have disj: "fst ` set (take n xs) \<inter> fst ` set (drop n xs) = {}"
    by (auto simp only: map_append distinct_append set_map)
  have "filter ?P xs = filter ?P (take n xs) @ filter ?P (drop n xs)"
    by (metis append_take_drop_id filter_append)
  also have "filter ?P (take n xs) = []" by (force simp: filter_empty_conv)
  also have "filter ?P (drop n xs) = drop n xs" using disj by (force simp: filter_id_conv)
  finally have "length (filter ?P xs) = length m - n" by (simp add: xs_def)
  moreover have "length (filter ?P xs) = length (filter ?P m)"
    using \<open>mset xs = mset m\<close> by (metis mset_filter size_mset)
  ultimately show ?thesis by (simp add: xs_def)
qed

definition lru_key :: "memory_store \<Rightarrow> string \<times> ptr \<Rightarrow> instant" where
  "lru_key s = (\<lambda>(sid, p). se_LastAccess (ms_heap s p))"

definition unexpired :: "instant \<Rightarrow> memory_store \<Rightarrow> (string, ptr) gomap" where
  "unexpired now s = filter (\<lambda>(sid, p). \<not> ptr_expired now s p) (ms_sessions s)"

lemma evict_drop_bounds:
  "1 \<le> n \<Longrightarrow> 1 \<le> nat (evict_drop m (int n)) \<and> nat (evict_drop m (int n)) \<le> n
     \<and> int (nat (evict_drop m (int n))) \<le> max 1 (m div 16)"
  by (auto simp: evict_drop_def Let_def)

lemma evict_cases:
  obtains (room) "evictForSpaceLocked now s = s"
      "ms_maxSessions s \<le> 0 \<or> int (length (ms_sessions s)) < ms_maxSessions s"
  | (expired) "evictForSpaceLocked now s = s\<lparr>ms_sessions := unexpired now s\<rparr>"
      "0 < ms_maxSessions s" "int (length (unexpired now s)) < ms_maxSessions s"
  | (lru) n where
      "evictForSpaceLocked now s =
         s\<lparr>ms_sessions := filter (\<lambda>(sid, p). sid \<notin> fst ` set (take n (sort_key (lru_key s) (unexpired now s))))
                           (unexpired now s)\<rparr>"
      "0 < ms_maxSessions s" "ms_maxSessions s \<le> int (length (unexpired now s))"
      "1 \<le> n" "n \<le> length (unexpired now s)" "int n \<le> max 1 (ms_maxSessions s div 16)"
proof (cases "ms_maxSessions s \<le> 0 \<or> int (length (ms_sessions s)) < ms_maxSessions s")
  case True
  then show ?thesis using room by (simp add: evictForSpaceLocked_def)
next
  case False
  show ?thesis
  proof (cases "int (length (unexpired now s)) < ms_maxSessions s")
    case True
    with False show ?thesis using expired by (simp add: evictForSpaceLocked_def unexpired_def)
  next
    case full: False
    define n where "n = nat (evict_drop (ms_maxSessions s) (int (length (unexpired now s))))"
    have n: "1 \<le> n" "n \<le> length (unexpired now s)" "int n \<le> max 1 (ms_maxSessions s div 16)"
      using evict_drop_bounds [of "length (unexpired now s)" "ms_maxSessions s"] False full
      by (auto simp: n_def)
    have "evictForSpaceLocked now s =
        s\<lparr>ms_sessions := filter (\<lambda>(sid, p). sid \<notin> fst ` set (take n (sort_key (lru_key s) (unexpired now s))))
                          (unexpired now s)\<rparr>"
      using False full
      by (simp add: evictForSpaceLocked_def Let_def unexpired_def [symmetric] fold_gm_del
            lru_key_def [symmetric] n_def)
    then show ?thesis using n False full by (intro lru [of n]) simp_all
  qed
qed

lemma unexpired_wf: "store_wf s \<Longrightarrow> gm_wf (unexpired now s)"
  by (simp add: store_wf_def unexpired_def)

lemma unexpired_get:
  "store_wf s \<Longrightarrow> gm_get (unexpired now s) sid = Some p
     \<longleftrightarrow> gm_get (ms_sessions s) sid = Some p \<and> \<not> ptr_expired now s p"
  by (auto simp: store_wf_def unexpired_def gm_get_filter split: option.splits if_splits)

lemma evict_fields [simp]:
  "ms_heap (evictForSpaceLocked now s) = ms_heap s"
  "ms_next (evictForSpaceLocked now s) = ms_next s"
  "ms_ttl (evictForSpaceLocked now s) = ms_ttl s"
  "ms_maxSessions (evictForSpaceLocked now s) = ms_maxSessions s"
  "ms_maxHistory (evictForSpaceLocked now s) = ms_maxHistory s"
  by (simp_all add: evictForSpaceLocked_def Let_def)

lemma evict_get:
  assumes "store_wf s" "gm_get (ms_sessions (evictForSpaceLocked now s)) sid = Some p"
  shows "gm_get (ms_sessions s) sid = Some p"
proof (cases rule: evict_cases [where s = s and now = now])
  case (lru n)
  then show ?thesis using assms
    by (auto simp: gm_get_filter unexpired_wf unexpired_get split: option.splits if_splits)
qed (use assms in \<open>auto simp: unexpired_get\<close>)

lemma evict_wf: "store_wf s \<Longrightarrow> gm_wf (ms_sessions (evictForSpaceLocked now s))"
  by (cases rule: evict_cases [where s = s and now = now]) (auto simp: unexpired_wf store_wf_def)

lemma store_wfD:
  "store_wf s \<Longrightarrow> gm_get (ms_sessions s) sid = Some p \<Longrightarrow> p < ms_next s \<and> se_ID (ms_heap s p) = sid"
  "store_wf s \<Longrightarrow> gm_wf (ms_sessions s)"
  by (simp_all add: store_wf_def)

lemma store_wf_sub:
  assumes "store_wf s" "gm_wf m" "\<And>sid p. gm_get m sid = Some p \<Longrightarrow> gm_get (ms_sessions s) sid = Some p"
  shows "store_wf (s\<lparr>ms_sessions := m\<rparr>)"
  using assms(2,3) store_wfD [OF assms(1)] unfolding store_wf_def by simp blast

lemma evict_store_wf: assumes "store_wf s" shows "store_wf (evictForSpaceLocked now s)"
proof -
  have "evictForSpaceLocked now s = s\<lparr>ms_sessions := ms_sessions (evictForSpaceLocked now s)\<rparr>" by simp
  then show ?thesis using store_wf_sub [OF assms evict_wf [OF assms] evict_get [OF assms]] by metis
qed

text \<open>After the eviction there is room for one more.\<close>

lemma evict_room:
  assumes "store_wf s" "0 < ms_maxSessions s" "int (Count s) \<le> ms_maxSessions s"
  shows "int (Count (evictForSpaceLocked now s)) < ms_maxSessions s"
proof (cases rule: evict_cases [where s = s and now = now])
  case (lru n)
  have "length (unexpired now s) \<le> Count s" by (simp add: unexpired_def Count_def)
  with lru assms show ?thesis
    by (simp add: Count_def length_filter_notin unexpired_wf)
qed (use assms in \<open>auto simp: Count_def\<close>)

lemma sorted_take_drop:
  assumes "sorted (map f xs)" "x \<in> set (take n xs)" "y \<in> set (drop n xs)"
  shows "f x \<le> f y"
proof -
  have "sorted (map f (take n xs) @ map f (drop n xs))" using assms(1) by (metis append_take_drop_id map_append)
  then show ?thesis using assms(2,3) by (auto simp: sorted_append)
qed

text \<open>A survivor is not expired and was used no earlier than a live session that had to go.\<close>

lemma evict_lru:
  assumes wf: "store_wf s"
    and gone: "gm_get (ms_sessions s) sid = Some p" "\<not> ptr_expired now s p"
      "gm_get (ms_sessions (evictForSpaceLocked now s)) sid = None"
    and kept: "gm_get (ms_sessions (evictForSpaceLocked now s)) sid' = Some q"
  shows "\<not> ptr_expired now s q \<and> se_LastAccess (ms_heap s p) \<le> se_LastAccess (ms_heap s q)"
proof (cases rule: evict_cases [where s = s and now = now])
  case (lru n)
  define xs where "xs = sort_key (lru_key s) (unexpired now s)"
  have inu: "(sid, p) \<in> set (unexpired now s)" using gone(1,2) wf
    by (simp add: unexpired_wf unexpired_get gm_in_set_iff)
  have k: "gm_get (unexpired now s) sid' = Some q" "sid' \<notin> fst ` set (take n xs)"
    using kept lru(1) wf by (auto simp: gm_get_filter unexpired_wf xs_def split: option.splits if_splits)
  have "sid \<in> fst ` set (take n xs)"
    using gone(3) lru(1) wf inu
    by (auto simp: gm_get_filter unexpired_wf xs_def gm_in_set_iff split: option.splits if_splits)
  then obtain p' where "(sid, p') \<in> set (take n xs)" by force
  moreover have "(sid, p') \<in> set (unexpired now s)" using calculation in_set_takeD [of _ n xs] by (simp add: xs_def)
  then have "p' = p" using inu wf by (simp add: gm_in_set_iff unexpired_wf)
  moreover have "(sid', q) \<in> set (drop n xs)"
  proof -
    have "(sid', q) \<in> set (take n xs @ drop n xs)" using k(1) wf
      by (simp add: xs_def gm_in_set_iff unexpired_wf)
    then show ?thesis using k(2) by (force simp del: append_take_drop_id)
  qed
  moreover have "sorted (map (lru_key s) xs)" by (simp add: xs_def)
  ultimately have "lru_key s (sid, p) \<le> lru_key s (sid', q)" by (metis sorted_take_drop)
  then show ?thesis using k(1) wf by (simp add: lru_key_def unexpired_get)
next
  case expired
  then have "gm_get (unexpired now s) sid = None" using gone(3) by simp
  then show ?thesis using gone(1,2) unexpired_get [OF wf] by (metis option.distinct(1))
next
  case room
  then show ?thesis using gone by simp
qed


lemma delete_wf: "store_wf s \<Longrightarrow> store_wf (s\<lparr>ms_sessions := gm_del sid (ms_sessions s)\<rparr>)"
  by (rule store_wf_sub) (auto simp: store_wfD split: if_splits)

lemma GetOrCreate_slow_eq: "GetOrCreate_slow now sid a s = GetOrCreate now sid a s"
  by (simp add: GetOrCreate_def GetOrCreate_slow_def Let_def split: option.splits)

definition purged :: "string \<Rightarrow> memory_store \<Rightarrow> memory_store" where
  "purged sid s = s\<lparr>ms_sessions := gm_del sid (ms_sessions s)\<rparr>"

definition fresh_session :: "instant \<Rightarrow> string \<Rightarrow> string \<Rightarrow> memory_store \<Rightarrow> session" where
  "fresh_session now sid a s = (NewSession now sid a (ms_ttl s))\<lparr>se_MaxHistory := ms_maxHistory s\<rparr>"

lemma purged_fields [simp]:
  "ms_heap (purged sid s) = ms_heap s" "ms_next (purged sid s) = ms_next s" "ms_ttl (purged sid s) = ms_ttl s"
  "ms_maxSessions (purged sid s) = ms_maxSessions s" "ms_maxHistory (purged sid s) = ms_maxHistory s"
  "ms_sessions (purged sid s) = gm_del sid (ms_sessions s)"
  by (simp_all add: purged_def)

lemma purged_absent: "gm_get (ms_sessions s) sid = None \<Longrightarrow> purged sid s = s"
  by (simp add: purged_def map_of_eq_None_iff)

lemma GetOrCreate_cases:
  obtains (hit) p where "gm_get (ms_sessions s) sid = Some p" "\<not> ptr_expired now s p"
      "GetOrCreate now sid a s = (p, s)"
  | (miss) s1 where "s1 = evictForSpaceLocked now (purged sid s)"
      "\<And>p. gm_get (ms_sessions s) sid = Some p \<Longrightarrow> ptr_expired now s p"
      "GetOrCreate now sid a s =
         (ms_next s, s1\<lparr>ms_heap := (ms_heap s)(ms_next s := fresh_session now sid a s), ms_next := Suc (ms_next s),
                        ms_sessions := gm_put sid (ms_next s) (ms_sessions s1)\<rparr>)"
proof (cases "gm_get (ms_sessions s) sid")
  case None
  then show ?thesis
    by (intro miss [OF refl])
       (simp_all add: GetOrCreate_def GetOrCreate_slow_def Let_def fresh_session_def purged_absent)
next
  case (Some p)
  show ?thesis
  proof (cases "ptr_expired now s p")
    case True
    with Some show ?thesis
      by (intro miss [OF refl])
         (simp_all add: GetOrCreate_def GetOrCreate_slow_def Let_def fresh_session_def purged_def [symmetric])
  next
    case False
    with Some show ?thesis by (intro hit) (simp_all add: GetOrCreate_def)
  qed
qed

lemma purged_wf: "store_wf s \<Longrightarrow> store_wf (purged sid s)"
  by (simp add: delete_wf purged_def)

lemma GetOrCreate_wf: assumes wf: "store_wf s" shows "store_wf (snd (GetOrCreate now sid a s))"
proof (cases rule: GetOrCreate_cases [where s = s and now = now and sid = sid and a = a])
  case (miss s1)
  have w1: "store_wf s1" using miss(1) wf by (simp add: evict_store_wf purged_wf)
  have h: "ms_heap s1 = ms_heap s" "ms_next s1 = ms_next s" by (simp_all add: miss(1))
  show ?thesis unfolding miss(3) store_wf_def
    using store_wfD [OF w1] h by (auto simp: fresh_session_def NewSession_def split: if_splits) fastforce+
qed (use wf in simp)

lemma GetOrCreate_count:
  assumes wf: "store_wf s" and cap: "0 < ms_maxSessions s" "int (Count s) \<le> ms_maxSessions s"
  shows "int (Count (snd (GetOrCreate now sid a s))) \<le> ms_maxSessions s"
proof (cases rule: GetOrCreate_cases [where s = s and now = now and sid = sid and a = a])
  case (miss s1)
  have "Count (purged sid s) \<le> Count s" by (simp add: Count_def gm_length_del)
  then have "int (Count s1) < ms_maxSessions s"
    using evict_room [OF purged_wf [OF wf, of sid], of now] cap miss(1) by simp
  then show ?thesis by (auto simp: miss(3) Count_def gm_length_put)
qed (use cap in simp)

lemma Cleanup_one_fields [simp]:
  "ms_heap (Cleanup_one now p s) = ms_heap s" "ms_next (Cleanup_one now p s) = ms_next s"
  "ms_maxSessions (Cleanup_one now p s) = ms_maxSessions s"
  by (simp_all add: Cleanup_one_def Let_def)

lemma Cleanup_one_wf: "store_wf s \<Longrightarrow> store_wf (Cleanup_one now p s)"
  by (simp add: Cleanup_one_def Let_def delete_wf)

lemma Cleanup_one_count: "Count (Cleanup_one now p s) \<le> Count s"
  by (simp add: Cleanup_one_def Let_def Count_def gm_length_del)

lemma Cleanup_one_get:
  assumes "store_wf s"
  shows "gm_get (ms_sessions (Cleanup_one now p s)) sid =
    (case gm_get (ms_sessions s) sid of None \<Rightarrow> None
     | Some q \<Rightarrow> if ptr_expired now s q \<and> q = p then None else Some q)"
proof (cases "gm_get (ms_sessions s) sid")
  case None
  then show ?thesis by (simp add: Cleanup_one_def Let_def)
next
  case (Some q)
  have q: "q = p \<longleftrightarrow> se_ID (ms_heap s p) = sid" if "gm_get (ms_sessions s) (se_ID (ms_heap s p)) = Some p"
    using store_wfD(1) [OF assms] that Some by (metis option.inject)
  have "q \<noteq> p" if "gm_get (ms_sessions s) (se_ID (ms_heap s p)) \<noteq> Some p"
    using store_wfD(1) [OF assms Some] that Some by metis
  with q Some show ?thesis unfolding Cleanup_one_def Let_def
    by (cases "gm_get (ms_sessions s) (se_ID (ms_heap s p)) = Some p"; cases "q = p") simp_all
qed

lemma Cleanup_delete_fields [simp]:
  "ms_heap (Cleanup_delete now ps s) = ms_heap s" "ms_maxSessions (Cleanup_delete now ps s) = ms_maxSessions s"
  unfolding Cleanup_delete_def by (induction ps arbitrary: s) auto

lemma Cleanup_delete_wf: "store_wf s \<Longrightarrow> store_wf (Cleanup_delete now ps s)"
  unfolding Cleanup_delete_def by (induction ps arbitrary: s) (auto simp: Cleanup_one_wf)

lemma Cleanup_delete_count: "Count (Cleanup_delete now ps s) \<le> Count s"
  unfolding Cleanup_delete_def by (induction ps arbitrary: s) (auto intro: order.trans [OF _ Cleanup_one_count])

text \<open>Whatever the snapshot, the sweep removes expired sessions only, and of those the listed ones.\<close>

lemma Cleanup_delete_get:
  assumes "store_wf s"
  shows "gm_get (ms_sessions (Cleanup_delete now ps s)) sid =
    (case gm_get (ms_sessions s) sid of None \<Rightarrow> None
     | Some p \<Rightarrow> if ptr_expired now s p \<and> p \<in> set ps then None else Some p)"
  using assms
proof (induction ps arbitrary: s)
  case Nil
  then show ?case by (simp add: Cleanup_delete_def split: option.splits)
next
  case (Cons p ps)
  have "Cleanup_delete now (p # ps) s = Cleanup_delete now ps (Cleanup_one now p s)"
    by (simp add: Cleanup_delete_def)
  then show ?case using Cons.IH [OF Cleanup_one_wf [OF Cons.prems], of now p]
    by (cases "gm_get (ms_sessions s) sid") (auto simp: Cleanup_one_get [OF Cons.prems])
qed


section \<open>Reachable stores\<close>

text \<open>
  The critical sections of concurrent callers, in any order and with any stale arguments: the pointer
  list of a sweep and the pointer of a compare-and-delete are whatever the caller saw earlier.
\<close>

inductive store_step :: "memory_store \<Rightarrow> memory_store \<Rightarrow> bool" where
  create: "store_step s (snd (GetOrCreate_slow now sid a s))"
| drop: "store_step s (Delete sid s)"
| drop_same: "store_step s (deleteIfSame sid p s)"
| sweep: "store_step s (Cleanup_delete now ps s)"
| turn: "store_step s (snd (turn_on tu ta p u (build :: string turn_builder) s))"

inductive_cases store_stepE: "store_step s s'"

inductive store_reachable :: "memory_store \<Rightarrow> bool" where
  init: "store_reachable (SetLimits maxSessions maxHistory (NewMemoryStore ttl))"
| more: "store_reachable s \<Longrightarrow> store_step s s' \<Longrightarrow> store_reachable s'"

definition history_ok :: "session \<Rightarrow> bool" where
  "history_ok s \<longleftrightarrow> se_MaxHistory s \<le> 0 \<or> int (length (se_Messages s)) \<le> se_MaxHistory s"

definition store_inv :: "memory_store \<Rightarrow> bool" where
  "store_inv s \<longleftrightarrow> store_wf s \<and> (ms_maxSessions s \<le> 0 \<or> int (Count s) \<le> ms_maxSessions s)
     \<and> (\<forall>p. history_ok (ms_heap s p))"

lemma ApplyTurn_history_ok: "history_ok s \<Longrightarrow> history_ok (snd (ApplyTurn tu ta u b s))"
  by (auto simp: ApplyTurn_cases history_ok_def retained_length split: prod.splits sum.splits)

lemma ApplyTurn_ID [simp]: "se_ID (snd (ApplyTurn tu ta u b s)) = se_ID s"
  by (auto simp: ApplyTurn_cases split: prod.splits sum.splits)

lemma turn_on_snd: "snd (turn_on tu ta p u b s) = s\<lparr>ms_heap := (ms_heap s)(p := snd (ApplyTurn tu ta u b (ms_heap s p)))\<rparr>"
  by (simp add: turn_on_def split: prod.splits)

lemma GetOrCreate_history:
  assumes "\<forall>p. history_ok (ms_heap s p)"
  shows "history_ok (ms_heap (snd (GetOrCreate now sid a s)) p)"
  using assms
  by (cases rule: GetOrCreate_cases [where s = s and now = now and sid = sid and a = a])
     (auto simp: fresh_session_def NewSession_def history_ok_def)

lemma GetOrCreate_limits [simp]: "ms_maxSessions (snd (GetOrCreate now sid a s)) = ms_maxSessions s"
  by (cases rule: GetOrCreate_cases [where s = s and now = now and sid = sid and a = a]) auto

lemma Delete_wf: "store_wf s \<Longrightarrow> store_wf (Delete sid s)"
  by (simp add: Delete_def delete_wf)

lemma store_step_inv: assumes "store_step s s'" "store_inv s" shows "store_inv s'"
  using assms(1)
proof cases
  case (create now sid a)
  then show ?thesis using assms(2) GetOrCreate_wf GetOrCreate_count GetOrCreate_history
    unfolding store_inv_def GetOrCreate_slow_eq by (metis GetOrCreate_limits not_le)
next
  case (drop sid)
  then show ?thesis using assms(2) gm_length_del [of sid "ms_sessions s"]
    by (auto simp: store_inv_def Delete_wf) (auto simp: Delete_def Count_def)
next
  case (drop_same sid p)
  then show ?thesis using assms(2) gm_length_del [of sid "ms_sessions s"]
    by (auto simp: store_inv_def deleteIfSame_def delete_wf Count_def)
next
  case (sweep now ps)
  then show ?thesis using assms(2) Cleanup_delete_count [of now ps s] by (auto simp: store_inv_def Cleanup_delete_wf)
next
  case (turn tu ta p u build)
  have "store_wf s'" using assms(2) unfolding turn turn_on_snd by (simp add: store_inv_def store_wf_def)
  then show ?thesis using assms(2) by (simp add: turn turn_on_snd store_inv_def Count_def ApplyTurn_history_ok)
qed

lemma store_reachable_inv: "store_reachable s \<Longrightarrow> store_inv s"
proof (induction rule: store_reachable.induct)
  case (init m h t)
  then show ?case
    by (auto simp: store_inv_def store_wf_def SetLimits_def NewMemoryStore_def Count_def NewSession_def history_ok_def)
qed (rule store_step_inv)

section \<open>The Store interface\<close>


definition live_ptr :: "instant \<Rightarrow> memory_store \<Rightarrow> string \<Rightarrow> ptr option" where
  "live_ptr now s = gm_get (unexpired now s)"

lemma live_ptr_Some:
  "store_wf s \<Longrightarrow> live_ptr now s k = Some p \<longleftrightarrow> gm_get (ms_sessions s) k = Some p \<and> \<not> ptr_expired now s p"
  by (simp add: live_ptr_def unexpired_get)

lemma option_eqI: "(\<And>p. x = Some p \<longleftrightarrow> y = Some p) \<Longrightarrow> x = y"
  by (metis not_Some_eq)


lemma fresh_unexpired [simp]: "\<not> IsExpired now (fresh_session now k a s)"
  by (simp add: IsExpired_def fresh_session_def NewSession_def)




section \<open>What making room may cost the other sessions\<close>

text \<open>
  The session of \<open>k\<close> went to make room for \<open>key\<close>: a session had to be created, the store was at its cap,
  and the session was expired or was used no later than every other session that stays. At most a
  sixteenth of the cap (one, if that is less) of the live sessions go at once.
\<close>

definition dropped_for_room :: "instant \<Rightarrow> string \<Rightarrow> memory_store \<Rightarrow> memory_store \<Rightarrow> string \<Rightarrow> bool" where
  "dropped_for_room now key s s' k \<longleftrightarrow>
     gm_get (ms_sessions s') k = None \<and> live_ptr now s key = None
     \<and> 0 < ms_maxSessions s \<and> ms_maxSessions s \<le> int (Count (purged key s))
     \<and> (\<exists>p. gm_get (ms_sessions s) k = Some p
          \<and> (IsExpired now (ms_heap s p)
             \<or> (\<forall>k' q. k' \<noteq> key \<longrightarrow> gm_get (ms_sessions s') k' = Some q \<longrightarrow>
                  \<not> IsExpired now (ms_heap s q) \<and> se_LastAccess (ms_heap s p) \<le> se_LastAccess (ms_heap s q))))
     \<and> int (card {j. j \<noteq> key \<and> live_ptr now s j \<noteq> None \<and> gm_get (ms_sessions s') j = None})
         \<le> max 1 (ms_maxSessions s div 16)"

lemma evict_full:
  "gm_get (ms_sessions (evictForSpaceLocked now s)) k \<noteq> gm_get (ms_sessions s) k
     \<Longrightarrow> 0 < ms_maxSessions s \<and> ms_maxSessions s \<le> int (Count s)"
  by (auto simp: evictForSpaceLocked_def Count_def split: if_splits)

lemma evict_dropped_card:
  assumes wf: "store_wf s"
  shows "finite {j. live_ptr now s j \<noteq> None \<and> gm_get (ms_sessions (evictForSpaceLocked now s)) j = None}
    \<and> int (card {j. live_ptr now s j \<noteq> None \<and> gm_get (ms_sessions (evictForSpaceLocked now s)) j = None})
        \<le> max 1 (ms_maxSessions s div 16)" (is "finite ?D \<and> _")
proof (cases rule: evict_cases [where s = s and now = now])
  case (lru n)
  define xs where "xs = take n (sort_key (lru_key s) (unexpired now s))"
  have "?D \<subseteq> fst ` set xs"
    using lru(1) wf
    by (auto simp: live_ptr_def gm_get_filter unexpired_wf xs_def split: option.splits if_splits)
  moreover have "card (fst ` set xs) \<le> n"
    by (rule order_trans [OF card_image_le]) (auto simp: xs_def intro: order_trans [OF card_length])
  ultimately have "finite ?D \<and> card ?D \<le> n"
    by (meson List.finite_set card_mono finite_imageI finite_subset order_trans)
  with lru(6) show ?thesis by linarith
next
  case room
  then have "?D = {}" using live_ptr_Some [OF wf] by auto
  then show ?thesis by (simp only: finite.emptyI card.empty) simp
next
  case expired
  then have "?D = {}" by (auto simp: live_ptr_def)
  then show ?thesis by (simp only: finite.emptyI card.empty) simp
qed

lemma GetOrCreate_others:
  assumes wf: "store_wf s" and "GetOrCreate now key a s = (p, s')" and k: "k \<noteq> key"
  shows "gm_get (ms_sessions s') k = gm_get (ms_sessions s) k \<or> dropped_for_room now key s s' k"
proof (cases rule: GetOrCreate_cases [where s = s and now = now and sid = key and a = a])
  case (miss s1)
  have wf': "store_wf (purged key s)" by (rule purged_wf [OF wf])
  have s': "gm_get (ms_sessions s') j = gm_get (ms_sessions s1) j" if "j \<noteq> key" for j
    using miss(3) assms(2) that by auto
  have same: "gm_get (ms_sessions (purged key s)) j = gm_get (ms_sessions s) j" if "j \<noteq> key" for j
    using that by simp
  have live: "live_ptr now (purged key s) j = live_ptr now s j" if "j \<noteq> key" for j
    by (rule option_eqI) (use that in \<open>simp add: live_ptr_Some [OF wf] live_ptr_Some [OF wf']\<close>)
  show ?thesis
  proof (cases "gm_get (ms_sessions s1) k = gm_get (ms_sessions s) k")
    case True
    then show ?thesis using s' k by simp
  next
    case False
    then have none: "gm_get (ms_sessions s1) k = None"
      using evict_get [OF wf', of now k] same [OF k] miss(1) by (metis not_Some_eq)
    with False obtain q where q: "gm_get (ms_sessions s) k = Some q" by (metis not_None_eq)
    have full: "0 < ms_maxSessions s" "ms_maxSessions s \<le> int (Count (purged key s))"
      using evict_full [of now "purged key s" k] False same [OF k] miss(1) by auto
    have idle: "live_ptr now s key = None" using miss(2) live_ptr_Some [OF wf] by (meson not_None_eq)
    have lru: "\<not> IsExpired now (ms_heap s r) \<and> se_LastAccess (ms_heap s q) \<le> se_LastAccess (ms_heap s r)"
      if "\<not> IsExpired now (ms_heap s q)" "k' \<noteq> key" "gm_get (ms_sessions s') k' = Some r" for k' r
      using evict_lru [OF wf', of k q now k' r] q same [OF k] that none s' [OF that(2)] miss(1) by simp
    have "{j. j \<noteq> key \<and> live_ptr now s j \<noteq> None \<and> gm_get (ms_sessions s') j = None}
        \<subseteq> {j. live_ptr now (purged key s) j \<noteq> None \<and> gm_get (ms_sessions (evictForSpaceLocked now (purged key s))) j = None}"
      (is "?A \<subseteq> ?B")
    proof
      fix j assume j: "j \<in> ?A"
      then show "j \<in> ?B" using live [of j] s' [of j] miss(1) by simp
    qed
    then have "card ?A \<le> card ?B" using evict_dropped_card [OF wf', of now] by (intro card_mono) blast+
    then have "int (card ?A) \<le> max 1 (ms_maxSessions s div 16)"
      using evict_dropped_card [OF wf', of now] by simp
    moreover have "gm_get (ms_sessions s') k = None" using none s' [OF k] by simp
    ultimately have "dropped_for_room now key s s' k"
      unfolding dropped_for_room_def using full q idle lru by (intro conjI exI [of _ q]) blast+
    then show ?thesis ..
  qed
qed (use assms in simp)


section \<open>Properties\<close>

definition sample_store :: memory_store where
  "sample_store = snd (GetOrCreate_slow 10 ''a'' ''bot'' (SetLimits 1 2 (NewMemoryStore 0)))"

lemma sample_store_reachable: "store_reachable sample_store"
  unfolding sample_store_def by (rule store_reachable.more [OF store_reachable.init store_step.create])

lemmas sample_store_simps = sample_store_def GetOrCreate_slow_def GetOrCreate_def evictForSpaceLocked_def
  evict_drop_def SetLimits_def NewMemoryStore_def NewSession_def DefaultSessionTTL_def DefaultMaxSessions_def
  IsExpired_def time_Sub_def

text \<open>
  C28. A turn is all or nothing. If the callback fails, the session is exactly as before, whatever the
  callback wrote to the variables; if it succeeds, the user's and the assistant's messages, the turn
  number, the variables and the access time change together, and the history is the newest part of it
  that the cap allows.
\<close>
theorem ApplyTurn_all_or_nothing:
  "(case ApplyTurn tu ta u build s of
      (Inl err, s') \<Rightarrow> s' = s \<and> snd (build (se_TurnCount s + 1) (variables_of s)) = Inl err
    | (Inr _, s') \<Rightarrow>
        (\<exists>vs content tcs. build (se_TurnCount s + 1) (variables_of s) = (vs, Inr (content, tcs))
           \<and> s' = s\<lparr>se_Messages := se_Messages s', se_TurnCount := se_TurnCount s + 1,
                    se_Variables := Some vs, se_LastAccess := ta\<rparr>
           \<and> suffix (se_Messages s') (se_Messages s @ turn_messages tu ta u content tcs)
           \<and> length (se_Messages s') =
               (if se_MaxHistory s \<le> 0 then length (se_Messages s) + 2
                else min (length (se_Messages s) + 2) (nat (se_MaxHistory s)))))"
  by (auto simp: ApplyTurn_cases retained_suffix retained_length turn_messages_def split: prod.splits sum.splits)

text \<open>
  C29. In every state that concurrent callers can reach, by their critical sections in any order, the
  store holds at most \<open>maxSessions\<close> sessions (when capped), an id maps to an allocated session that
  carries that id, and no session retains more messages than its cap.
\<close>
theorem store_reachable_bounded:
  assumes "store_reachable s"
  shows "(ms_maxSessions s \<le> 0 \<or> int (Count s) \<le> ms_maxSessions s)
    \<and> (\<forall>sid p. gm_get (ms_sessions s) sid = Some p \<longrightarrow> p < ms_next s \<and> se_ID (ms_heap s p) = sid)
    \<and> (\<forall>p. se_MaxHistory (ms_heap s p) \<le> 0
          \<or> int (length (se_Messages (ms_heap s p))) \<le> se_MaxHistory (ms_heap s p))"
  using store_reachable_inv [OF assms] store_wfD(1) by (auto simp: store_inv_def history_ok_def)

theorem store_reachable_bounded_witness:
  "int (Count sample_store) \<le> 1 \<and> 0 < Count sample_store"
proof -
  have "ms_maxSessions sample_store = 1" "Count sample_store = 1"
    by (simp_all add: sample_store_simps Count_def)
  then show ?thesis using store_reachable_bounded [OF sample_store_reachable] by simp
qed

text \<open>
  C31. A background sweep never loses a conversation: whatever stale snapshot of pointers it works from,
  a session that is not expired when the sweep takes the lock stays, and a request for its id right
  after the sweep gets the same session.
\<close>
theorem Cleanup_keeps_live_sessions:
  assumes "store_reachable s" "gm_get (ms_sessions s) sid = Some p" "\<not> IsExpired now (ms_heap s p)"
  shows "gm_get (ms_sessions (Cleanup_delete now snapshot s)) sid = Some p
    \<and> fst (GetOrCreate now sid a (Cleanup_delete now snapshot s)) = p"
proof -
  have "store_wf s" using store_reachable_inv [OF assms(1)] by (simp add: store_inv_def)
  then have "gm_get (ms_sessions (Cleanup_delete now snapshot s)) sid = Some p"
    using assms(2,3) by (simp add: Cleanup_delete_get)
  then show ?thesis using assms(3) by (simp add: GetOrCreate_def)
qed

theorem Cleanup_keeps_live_sessions_witness:
  "gm_get (ms_sessions (Cleanup_delete 11 [0, 7] sample_store)) ''a'' = Some 0"
proof -
  have "gm_get (ms_sessions sample_store) ''a'' = Some 0" "\<not> IsExpired 11 (ms_heap sample_store 0)"
    by (simp_all add: sample_store_simps)
  then show ?thesis using Cleanup_keeps_live_sessions [OF sample_store_reachable] by simp
qed

text \<open>
  Eviction is least recently used: when creating a session pushes out one that is still live, every
  session that stays is live and was used no earlier than the one that went.
\<close>
theorem GetOrCreate_evicts_lru:
  assumes "store_reachable s" "sid \<noteq> k" "sid' \<noteq> k"
    and "gm_get (ms_sessions s) sid = Some p" "\<not> IsExpired now (ms_heap s p)"
    and "gm_get (ms_sessions (snd (GetOrCreate now k a s))) sid = None"
    and "gm_get (ms_sessions (snd (GetOrCreate now k a s))) sid' = Some q"
  shows "\<not> IsExpired now (ms_heap s q) \<and> se_LastAccess (ms_heap s p) \<le> se_LastAccess (ms_heap s q)"
proof (cases rule: GetOrCreate_cases [where s = s and now = now and sid = k and a = a])
  case (miss s1)
  have "store_wf (purged k s)" using store_reachable_inv [OF assms(1)] by (simp add: store_inv_def purged_wf)
  from evict_lru [OF this, of sid p now sid' q] assms(2-) show ?thesis by (simp add: miss(1,3))
qed (use assms in simp)

definition sample_store2 :: memory_store where
  "sample_store2 = snd (GetOrCreate_slow 20 ''b'' ''bot'' (snd (GetOrCreate_slow 10 ''a'' ''bot'' (SetLimits 2 2 (NewMemoryStore 0)))))"

theorem GetOrCreate_evicts_lru_witness:
  "se_LastAccess (ms_heap sample_store2 0) \<le> se_LastAccess (ms_heap sample_store2 1)"
proof -
  have r: "store_reachable sample_store2" unfolding sample_store2_def
    by (intro store_reachable.more [OF store_reachable.more [OF store_reachable.init store_step.create] store_step.create])
  have "gm_get (ms_sessions sample_store2) ''a'' = Some 0" "\<not> IsExpired 30 (ms_heap sample_store2 0)"
    "gm_get (ms_sessions (snd (GetOrCreate 30 ''c'' ''bot'' sample_store2))) ''a'' = None"
    "gm_get (ms_sessions (snd (GetOrCreate 30 ''c'' ''bot'' sample_store2))) ''b'' = Some 1"
    by (simp_all add: sample_store2_def sample_store_simps Let_def)
  then show ?thesis using GetOrCreate_evicts_lru [OF r, of "''a''" "''c''" "''b''" 0 30 "''bot''" 1] by simp
qed


end
