(* ===== verification/Agent_Registry.thy ===== *)
theory Agent_Registry
  imports Agent_Types "HOL-Library.Product_Lexorder"
begin

text \<open>
  \<^verbatim>\<open>internal/engine/agent_registry.go\<close>: agents keyed by owner tenant and name, with a
  most-recent-registrant index by model, a tenant-aware index by model, and the backing files.
  A method that announces a change returns the announced pairs (tenant, name) beside the registry.
  The code compares definition pointers before it clears an index entry; the model compares the
  definitions. The two agree because an indexed definition is always one that is registered now
  (\<open>registry_inv\<close>), so equal definitions sit in the same slot and are the same pointer.
\<close>

section \<open>The registry\<close>

record registry =
  rg_agents :: "(string, (string, agent_definition) gomap) gomap"
  rg_byModel :: "string \<rightharpoonup> agent_definition"
  rg_byModelTenant :: "string \<rightharpoonup> (string, agent_definition) gomap"
  rg_sources :: "(string, (string, string) gomap) gomap"

type_synonym changes = "(string \<times> string) list"

datatype registry_error = AgentNotFound string | AgentNotFoundForTenant string string

definition NewAgentRegistry :: registry where
  "NewAgentRegistry =
     \<lparr>rg_agents = [], rg_byModel = Map.empty, rg_byModelTenant = Map.empty, rg_sources = []\<rparr>"

text \<open>Reading a missing bucket of a two-level map gives the nil map.\<close>

definition bucket :: "(string, (string, 'v) gomap) gomap \<Rightarrow> string \<Rightarrow> (string, 'v) gomap" where
  "bucket m owner = (case gm_get m owner of None \<Rightarrow> [] | Some b \<Rightarrow> b)"

definition claim_model ::
  "string \<Rightarrow> string \<Rightarrow> agent_definition \<Rightarrow> (string, agent_definition) gomap \<Rightarrow> (string, agent_definition) gomap" where
  "claim_model model owner def owners =
     (if agent_model def \<noteq> model then owners
      else case gm_get owners owner of
             None \<Rightarrow> gm_put owner def owners
           | Some cur \<Rightarrow> if agent_name def < agent_name cur then gm_put owner def owners else owners)"

definition rebuildModelBucket :: "string \<Rightarrow> registry \<Rightarrow> registry" where
  "rebuildModelBucket model r =
     (if model = [] then r
      else
        let owners = fold (\<lambda>(owner, byName). fold (\<lambda>(_, def). claim_model model owner def) byName) (rg_agents r) []
        in if owners = [] then r\<lparr>rg_byModelTenant := (rg_byModelTenant r)(model := None)\<rparr>
           else r\<lparr>rg_byModelTenant := (rg_byModelTenant r)(model \<mapsto> owners)\<rparr>)"

definition unindex :: "agent_definition \<Rightarrow> registry \<Rightarrow> registry" where
  "unindex prev r =
     (if agent_model prev \<noteq> [] \<and> rg_byModel r (agent_model prev) = Some prev
      then r\<lparr>rg_byModel := (rg_byModel r)(agent_model prev := None)\<rparr> else r)"

definition registerLocked :: "agent_definition \<Rightarrow> string \<Rightarrow> registry \<Rightarrow> registry" where
  "registerLocked def sourcePath r =
     (let owner = agent_tenant def; name = agent_name def; model = agent_model def;
          byName = bucket (rg_agents r) owner;
          prev = gm_get byName name;
          oldModel = (case prev of None \<Rightarrow> [] | Some p \<Rightarrow> agent_model p);
          r1 = (case prev of None \<Rightarrow> r | Some p \<Rightarrow> unindex p r);
          r2 = r1\<lparr>rg_agents := gm_put owner (gm_put name def byName) (rg_agents r1)\<rparr>;
          r3 = (if model \<noteq> [] then r2\<lparr>rg_byModel := (rg_byModel r2)(model \<mapsto> def)\<rparr> else r2);
          r4 = rebuildModelBucket model r3;
          r5 = (if oldModel \<noteq> [] \<and> oldModel \<noteq> model then rebuildModelBucket oldModel r4 else r4)
      in if sourcePath \<noteq> []
         then r5\<lparr>rg_sources := gm_put owner (gm_put name sourcePath (bucket (rg_sources r5) owner)) (rg_sources r5)\<rparr>
         else r5)"

definition RegisterWithSource :: "agent_definition option \<Rightarrow> string \<Rightarrow> registry \<Rightarrow> registry \<times> changes" where
  "RegisterWithSource def sourcePath r =
     (case def of None \<Rightarrow> (r, []) | Some d \<Rightarrow> (registerLocked d sourcePath r, [(agent_tenant d, agent_name d)]))"

definition Register :: "agent_definition option \<Rightarrow> registry \<Rightarrow> registry \<times> changes" where
  "Register def r =
     (case def of None \<Rightarrow> (r, []) | Some d \<Rightarrow> (registerLocked d [] r, [(agent_tenant d, agent_name d)]))"

text \<open>Deleting the last name of a bucket deletes the bucket, in both two-level maps.\<close>

definition del2 :: "string \<Rightarrow> string \<Rightarrow> (string, (string, 'v) gomap) gomap \<Rightarrow> (string, (string, 'v) gomap) gomap" where
  "del2 owner name m =
     (case gm_get m owner of
        None \<Rightarrow> m
      | Some b \<Rightarrow> let b' = gm_del name b in if b' = [] then gm_del owner m else gm_put owner b' m)"

definition dropAgent :: "string \<Rightarrow> string \<Rightarrow> agent_definition \<Rightarrow> registry \<Rightarrow> registry" where
  "dropAgent owner name def r =
     (let r1 = unindex def r
      in r1\<lparr>rg_agents := del2 owner name (rg_agents r1), rg_sources := del2 owner name (rg_sources r1)\<rparr>)"

definition RemoveForTenant :: "string \<Rightarrow> string \<Rightarrow> registry \<Rightarrow> (registry_error + unit) \<times> registry \<times> changes" where
  "RemoveForTenant name tenantID r =
     (case gm_get (bucket (rg_agents r) tenantID) name of
        None \<Rightarrow> (Inl (AgentNotFoundForTenant name tenantID), r, [])
      | Some def \<Rightarrow> (Inr (), rebuildModelBucket (agent_model def) (dropAgent tenantID name def r), [(tenantID, name)]))"

definition Remove :: "string \<Rightarrow> registry \<Rightarrow> (registry_error + unit) \<times> registry \<times> changes" where
  "Remove name r =
     (let (r', models, removed) =
        fold (\<lambda>(owner, byName) (r, models, removed).
                case gm_get byName name of
                  None \<Rightarrow> (r, models, removed)
                | Some def \<Rightarrow>
                    (dropAgent owner name def r,
                     if agent_model def \<noteq> [] then List.insert (agent_model def) models else models,
                     removed @ [(owner, name)]))
             (rg_agents r) (r, [], [])
      in if removed = [] then (Inl (AgentNotFound name), r', [])
         else (Inr (), fold rebuildModelBucket models r', removed))"

section \<open>Lookups\<close>

definition GetOwnedForTenant :: "string \<Rightarrow> string \<Rightarrow> registry \<Rightarrow> agent_definition option" where
  "GetOwnedForTenant name tenantID r = gm_get (bucket (rg_agents r) tenantID) name"

definition Get :: "string \<Rightarrow> registry \<Rightarrow> agent_definition option" where
  "Get name r = gm_get (bucket (rg_agents r) []) name"

definition GetByModel :: "string \<Rightarrow> registry \<Rightarrow> agent_definition option" where
  "GetByModel model r = rg_byModel r model"

definition GetForTenant :: "string \<Rightarrow> string \<Rightarrow> registry \<Rightarrow> agent_definition option" where
  "GetForTenant name tenantID r =
     (case gm_get (bucket (rg_agents r) tenantID) name of
        Some def \<Rightarrow> Some def
      | None \<Rightarrow> if tenantID \<noteq> [] then gm_get (bucket (rg_agents r) []) name else None)"

definition GetByModelForTenant :: "string \<Rightarrow> string \<Rightarrow> registry \<Rightarrow> agent_definition option" where
  "GetByModelForTenant model tenantID r =
     (case rg_byModelTenant r model of
        None \<Rightarrow> None
      | Some owners \<Rightarrow>
          (case gm_get owners tenantID of Some ownerMatch \<Rightarrow> Some ownerMatch | None \<Rightarrow> gm_get owners []))"

definition countLocked :: "registry \<Rightarrow> nat" where
  "countLocked r = sum_list (map (\<lambda>(_, byName). length byName) (rg_agents r))"

definition List_agents :: "registry \<Rightarrow> agent_definition list" where
  "List_agents r = sort_key (\<lambda>d. (agent_name d, agent_tenant d)) (concat (map (\<lambda>(_, byName). map snd byName) (rg_agents r)))"

definition ListNames :: "registry \<Rightarrow> string list" where
  "ListNames r = sort (remdups (concat (map (\<lambda>(_, byName). map fst byName) (rg_agents r))))"

definition mergedForTenantLocked :: "string \<Rightarrow> registry \<Rightarrow> (string, agent_definition) gomap" where
  "mergedForTenantLocked tenantID r =
     (let globals = fold (\<lambda>(name, def). gm_put name def) (bucket (rg_agents r) []) []
      in if tenantID \<noteq> [] then fold (\<lambda>(name, def). gm_put name def) (bucket (rg_agents r) tenantID) globals
         else globals)"

definition ListForTenant :: "string \<Rightarrow> registry \<Rightarrow> agent_definition list" where
  "ListForTenant tenantID r = sort_key agent_name (map snd (mergedForTenantLocked tenantID r))"

definition ListNamesForTenant :: "string \<Rightarrow> registry \<Rightarrow> string list" where
  "ListNamesForTenant tenantID r = sort (map fst (mergedForTenantLocked tenantID r))"

definition Source :: "string \<Rightarrow> string \<Rightarrow> registry \<Rightarrow> string" where
  "Source name tenantID r = (case gm_get (bucket (rg_sources r) tenantID) name of None \<Rightarrow> [] | Some p \<Rightarrow> p)"

definition Sources :: "registry \<Rightarrow> (string \<times> string \<times> string) list" where
  "Sources r = concat (map (\<lambda>(owner, byName).
      map (\<lambda>(name, path). (name, owner, path)) (filter (\<lambda>(name, path). path \<noteq> []) byName)) (rg_sources r))"

section \<open>Two-level maps\<close>

definition wf2 :: "(string, (string, 'v) gomap) gomap \<Rightarrow> bool" where
  "wf2 m \<longleftrightarrow> gm_wf m \<and> (\<forall>o' b. gm_get m o' = Some b \<longrightarrow> gm_wf b \<and> b \<noteq> [])"

definition get2 :: "(string, (string, 'v) gomap) gomap \<Rightarrow> string \<Rightarrow> string \<Rightarrow> 'v option" where
  "get2 m owner name = gm_get (bucket m owner) name"

lemma bucket_wf [simp]: "wf2 m \<Longrightarrow> gm_wf (bucket m owner)"
  by (auto simp: wf2_def bucket_def split: option.splits)

lemma bucket_put [simp]: "bucket (gm_put owner b m) o' = (if o' = owner then b else bucket m o')"
  by (simp add: bucket_def)

lemma bucket_del [simp]: "bucket (gm_del owner m) o' = (if o' = owner then [] else bucket m o')"
  by (simp add: bucket_def)

lemma put2_get:
  "get2 (gm_put owner (gm_put name v (bucket m owner)) m) o' n = (if o' = owner \<and> n = name then Some v else get2 m o' n)"
  by (simp add: get2_def)

lemma update_not_Nil [simp]: "gm_put k v m \<noteq> []"
  by (cases m) auto

lemma put2_wf: "wf2 m \<Longrightarrow> wf2 (gm_put owner (gm_put name v (bucket m owner)) m)"
  using bucket_wf [of m owner] by (auto simp: wf2_def split: if_splits)

lemma del2_get: "get2 (del2 owner name m) o' n = (if o' = owner \<and> n = name then None else get2 m o' n)"
proof (cases "gm_get m owner")
  case None
  then show ?thesis by (simp add: del2_def get2_def bucket_def)
next
  case (Some b)
  then have "gm_get (gm_del name b) n = (if n = name then None else get2 m owner n)"
    by (simp add: get2_def bucket_def)
  moreover have "gm_get b n = None" if "gm_del name b = []" "n \<noteq> name"
    using that by (metis gm_get_del map_of.simps(1))
  ultimately show ?thesis using Some by (auto simp: del2_def get2_def Let_def bucket_def)
qed

lemma del2_wf: "wf2 m \<Longrightarrow> wf2 (del2 owner name m)"
  by (auto simp: del2_def wf2_def Let_def split: option.splits if_splits)

section \<open>The registered agents\<close>

abbreviation agent_at :: "registry \<Rightarrow> string \<Rightarrow> string \<Rightarrow> agent_definition option" where
  "agent_at r \<equiv> get2 (rg_agents r)"

definition members :: "registry \<Rightarrow> string \<Rightarrow> string \<Rightarrow> agent_definition set" where
  "members r model owner = {d. agent_at r owner (agent_name d) = Some d \<and> agent_model d = model}"

definition smallest :: "agent_definition set \<Rightarrow> agent_definition \<Rightarrow> bool" where
  "smallest S d \<longleftrightarrow> d \<in> S \<and> (\<forall>e\<in>S. agent_name d \<le> agent_name e)"

definition model_index :: "registry \<Rightarrow> string \<Rightarrow> string \<Rightarrow> agent_definition option" where
  "model_index r model owner = (case rg_byModelTenant r model of None \<Rightarrow> None | Some ow \<Rightarrow> gm_get ow owner)"

definition agents_inv :: "registry \<Rightarrow> bool" where
  "agents_inv r \<longleftrightarrow> wf2 (rg_agents r)
     \<and> (\<forall>owner name d. agent_at r owner name = Some d \<longrightarrow> agent_tenant d = owner \<and> agent_name d = name)"

definition index_ok :: "registry \<Rightarrow> string \<Rightarrow> bool" where
  "index_ok r model \<longleftrightarrow> (\<forall>owner d. model_index r model owner = Some d
      \<longleftrightarrow> model \<noteq> [] \<and> smallest (members r model owner) d)"

definition by_model_ok :: "registry \<Rightarrow> bool" where
  "by_model_ok r \<longleftrightarrow> (\<forall>model d. rg_byModel r model = Some d
      \<longrightarrow> model \<noteq> [] \<and> agent_model d = model \<and> agent_at r (agent_tenant d) (agent_name d) = Some d)"

definition sources_ok :: "registry \<Rightarrow> bool" where
  "sources_ok r \<longleftrightarrow> wf2 (rg_sources r)
     \<and> (\<forall>owner name p. get2 (rg_sources r) owner name = Some p \<longrightarrow> p \<noteq> [] \<and> agent_at r owner name \<noteq> None)"

definition registry_inv :: "registry \<Rightarrow> bool" where
  "registry_inv r \<longleftrightarrow> agents_inv r \<and> (\<forall>model. index_ok r model) \<and> by_model_ok r \<and> sources_ok r"

lemma agents_invD:
  "agents_inv r \<Longrightarrow> agent_at r owner name = Some d \<Longrightarrow> agent_tenant d = owner \<and> agent_name d = name"
  "agents_inv r \<Longrightarrow> wf2 (rg_agents r)"
  by (simp_all add: agents_inv_def)

section \<open>Rebuilding an index bucket\<close>

definition pick :: "string \<Rightarrow> agent_definition \<Rightarrow> agent_definition option \<Rightarrow> agent_definition option" where
  "pick model def cur =
     (if agent_model def \<noteq> model then cur
      else case cur of None \<Rightarrow> Some def | Some c \<Rightarrow> if agent_name def < agent_name c then Some def else cur)"

lemma claim_model_get:
  "gm_get (claim_model model owner def ow) o' = (if o' = owner then pick model def (gm_get ow owner) else gm_get ow o')"
  by (auto simp: claim_model_def pick_def split: option.splits)

lemma claim_bucket_get:
  "gm_get (fold (\<lambda>(_, def). claim_model model owner def) b ow) o' =
     (if o' = owner then fold (pick model) (map snd b) (gm_get ow owner) else gm_get ow o')"
  by (induction b arbitrary: ow) (auto simp: claim_model_get)

lemma claim_all_get:
  "gm_wf m \<Longrightarrow>
   gm_get (fold (\<lambda>(owner, byName). fold (\<lambda>(_, def). claim_model model owner def) byName) m ow) o' =
     (case gm_get m o' of None \<Rightarrow> gm_get ow o' | Some b \<Rightarrow> fold (pick model) (map snd b) (gm_get ow o'))"
proof (induction m arbitrary: ow)
  case (Cons e m)
  obtain o1 b1 where e: "e = (o1, b1)" by fastforce
  with Cons.prems have "gm_wf m" "gm_get m o1 = None" by (auto simp: gm_wf_def map_of_eq_None_iff)
  with Cons.IH show ?case by (auto simp: e claim_bucket_get split: option.splits)
qed simp

lemma smallest_drop:
  "agent_name x < agent_name c \<Longrightarrow> smallest (insert x (insert c S)) d \<longleftrightarrow> smallest (insert x S) d"
  by (auto simp: smallest_def)

lemma pick_fold:
  "inj_on agent_name (set ds \<union> set_option cur) \<Longrightarrow>
   fold (pick model) ds cur = Some d \<longleftrightarrow> smallest ({e \<in> set ds. agent_model e = model} \<union> set_option cur) d"
proof (induction ds arbitrary: cur)
  case Nil
  then show ?case by (cases cur) (auto simp: smallest_def)
next
  case (Cons x ds)
  have inj: "inj_on agent_name (set ds \<union> set_option (pick model x cur))"
    by (rule inj_on_subset [OF Cons.prems]) (auto simp: pick_def split: option.splits if_splits)
  have "smallest ({e \<in> set (x # ds). agent_model e = model} \<union> set_option cur) d
      \<longleftrightarrow> smallest ({e \<in> set ds. agent_model e = model} \<union> set_option (pick model x cur)) d" (is "?l = ?r")
  proof (cases "agent_model x = model")
    case False
    then have "{e \<in> set (x # ds). agent_model e = model} = {e \<in> set ds. agent_model e = model}" by auto
    then show ?thesis using False by (simp only: pick_def) simp
  next
    case True
    define S where "S = {e \<in> set ds. agent_model e = model}"
    from True have eq: "{e \<in> set (x # ds). agent_model e = model} = insert x S" by (auto simp: S_def)
    show ?thesis
    proof (cases cur)
      case None
      then show ?thesis unfolding eq by (simp add: pick_def True S_def)
    next
      case (Some c)
      have "x = c \<or> agent_name x \<noteq> agent_name c" using Cons.prems Some by (auto simp: inj_on_def)
      then consider "agent_name x < agent_name c" | "agent_name c < agent_name x" | "x = c" by force
      then show ?thesis unfolding eq Some
        using smallest_drop [of x c S d] smallest_drop [of c x S d]
        by cases (auto simp: pick_def True S_def [symmetric] insert_commute)
    qed
  qed
  with Cons.IH [OF inj] show ?case by simp
qed

lemma rebuild_fields [simp]:
  "rg_agents (rebuildModelBucket model r) = rg_agents r"
  "rg_byModel (rebuildModelBucket model r) = rg_byModel r"
  "rg_sources (rebuildModelBucket model r) = rg_sources r"
  by (simp_all add: rebuildModelBucket_def Let_def)

lemma rebuild_members [simp]: "members (rebuildModelBucket model r) = members r"
  by (rule ext)+ (simp add: members_def)

lemma rebuild_other: "m \<noteq> model \<Longrightarrow> model_index (rebuildModelBucket model r) m owner = model_index r m owner"
  by (simp add: rebuildModelBucket_def Let_def model_index_def)

lemma members_bucket:
  assumes "agents_inv r"
  shows "members r model owner = {d \<in> snd ` set (bucket (rg_agents r) owner). agent_model d = model}"
proof -
  have wf: "gm_wf (bucket (rg_agents r) owner)" using assms by (simp add: agents_inv_def)
  have "agent_at r owner n = Some d \<longleftrightarrow> (n, d) \<in> set (bucket (rg_agents r) owner)" for n d
    using wf by (simp add: get2_def gm_in_set_iff)
  moreover from this have "(n, d) \<in> set (bucket (rg_agents r) owner) \<Longrightarrow> agent_name d = n" for n d
    using agents_invD(1) [OF assms] by blast
  ultimately show ?thesis by (force simp: members_def)
qed

lemma bucket_inj:
  assumes "agents_inv r"
  shows "inj_on agent_name (snd ` set (bucket (rg_agents r) owner))"
proof -
  have wf: "gm_wf (bucket (rg_agents r) owner)" using assms by (simp add: agents_inv_def)
  then have "(n, d) \<in> set (bucket (rg_agents r) owner) \<Longrightarrow> agent_at r owner n = Some d \<and> agent_name d = n" for n d
    using agents_invD(1) [OF assms] by (metis get2_def gm_in_set_iff)
  then show ?thesis by (auto simp: inj_on_def) (metis option.inject)
qed

lemma rebuild_ok:
  assumes "agents_inv r" "model \<noteq> []"
  shows "index_ok (rebuildModelBucket model r) model"
proof -
  let ?ow = "fold (\<lambda>(owner, byName). fold (\<lambda>(_, def). claim_model model owner def) byName) (rg_agents r) []"
  have "model_index (rebuildModelBucket model r) model owner = gm_get ?ow owner" for owner
    using assms(2) by (simp add: rebuildModelBucket_def Let_def model_index_def)
  moreover have "gm_get ?ow owner = fold (pick model) (map snd (bucket (rg_agents r) owner)) None" for owner
    using assms(1) by (simp add: agents_inv_def wf2_def claim_all_get bucket_def split: option.splits)
  ultimately show ?thesis
    using pick_fold [of "map snd (bucket (rg_agents r) owner)" None for owner] bucket_inj [OF assms(1)]
    by (simp add: index_ok_def assms(2) members_bucket [OF assms(1)])
qed

section \<open>Registration and removal\<close>

lemma unindex_fields [simp]:
  "rg_agents (unindex p r) = rg_agents r" "rg_byModelTenant (unindex p r) = rg_byModelTenant r"
  "rg_sources (unindex p r) = rg_sources r"
  by (simp_all add: unindex_def)

lemma register_agents:
  "rg_agents (registerLocked d src r) =
     gm_put (agent_tenant d) (gm_put (agent_name d) d (bucket (rg_agents r) (agent_tenant d))) (rg_agents r)"
  by (simp add: registerLocked_def Let_def split: option.splits)

lemma register_agent_at:
  "agent_at (registerLocked d src r) o' n
     = (if o' = agent_tenant d \<and> n = agent_name d then Some d else agent_at r o' n)"
  by (simp add: register_agents put2_get)

lemma register_agents_inv: "agents_inv r \<Longrightarrow> agents_inv (registerLocked d src r)"
  by (auto simp: agents_inv_def register_agents put2_wf register_agent_at [unfolded register_agents] split: if_splits)

lemma index_ok_cong:
  assumes "members r' m = members r m" "\<And>owner. model_index r' m owner = model_index r m owner" "index_ok r m"
  shows "index_ok r' m"
  using assms by (simp add: index_ok_def)

lemma rebuild_index_ok:
  assumes "agents_inv r" "m = model \<or> index_ok r m" "m \<noteq> [] \<or> index_ok r m"
  shows "index_ok (rebuildModelBucket model r) m"
proof -
  consider "model = []" | "model \<noteq> []" "m = model" | "m \<noteq> model" by blast
  then show ?thesis
  proof cases
    case 1
    then show ?thesis using assms by (auto simp: rebuildModelBucket_def)
  next
    case 2
    then show ?thesis using rebuild_ok [OF assms(1)] by simp
  next
    case 3
    then show ?thesis using assms(2)
      by (auto intro: index_ok_cong [of "rebuildModelBucket model r" m r] rebuild_other)
  qed
qed

lemma register_members:
  assumes "agents_inv r" "m \<noteq> agent_model d"
    "\<And>p. agent_at r (agent_tenant d) (agent_name d) = Some p \<Longrightarrow> agent_model p \<noteq> m"
  shows "members (registerLocked d src r) m = members r m"
proof (rule ext, rule set_eqI)
  fix own e
  show "e \<in> members (registerLocked d src r) m own \<longleftrightarrow> e \<in> members r m own"
  proof (cases "own = agent_tenant d \<and> agent_name e = agent_name d")
    case True
    then show ?thesis using assms(2) assms(3) [of e] by (auto simp: members_def register_agent_at)
  next
    case False
    then show ?thesis by (auto simp: members_def register_agent_at)
  qed
qed

definition register_core :: "agent_definition \<Rightarrow> registry \<Rightarrow> registry" where
  "register_core d r =
     (let r1 = (case agent_at r (agent_tenant d) (agent_name d) of None \<Rightarrow> r | Some p \<Rightarrow> unindex p r);
          r2 = r1\<lparr>rg_agents := gm_put (agent_tenant d) (gm_put (agent_name d) d (bucket (rg_agents r) (agent_tenant d))) (rg_agents r)\<rparr>
      in if agent_model d \<noteq> [] then r2\<lparr>rg_byModel := (rg_byModel r2)(agent_model d \<mapsto> d)\<rparr> else r2)"

lemma register_core_agents: "rg_agents (register_core d r) = rg_agents (registerLocked d src r)"
  by (simp add: register_core_def Let_def register_agents split: option.splits)

lemma register_core_fields [simp]:
  "rg_byModelTenant (register_core d r) = rg_byModelTenant r"
  "rg_sources (register_core d r) = rg_sources r"
  by (simp_all add: register_core_def Let_def split: option.splits)

definition old_model :: "agent_definition \<Rightarrow> registry \<Rightarrow> string" where
  "old_model d r = (case agent_at r (agent_tenant d) (agent_name d) of None \<Rightarrow> [] | Some p \<Rightarrow> agent_model p)"

lemma registerLocked_eq:
  "registerLocked d src r =
     (let r4 = rebuildModelBucket (agent_model d) (register_core d r);
          r5 = (if old_model d r \<noteq> [] \<and> old_model d r \<noteq> agent_model d then rebuildModelBucket (old_model d r) r4 else r4)
      in if src \<noteq> []
         then r5\<lparr>rg_sources := gm_put (agent_tenant d) (gm_put (agent_name d) src (bucket (rg_sources r) (agent_tenant d))) (rg_sources r)\<rparr>
         else r5)"
  by (auto simp: registerLocked_def register_core_def old_model_def get2_def Let_def split: option.splits)

lemma register_index_ok:
  assumes inv: "agents_inv r" and idx: "\<And>m. index_ok r m"
  shows "index_ok (registerLocked d src r) m"
proof -
  let ?c = "register_core d r"
  have invc: "agents_inv ?c" using register_agents_inv [OF inv, of d src] by (simp add: agents_inv_def register_core_agents [of d r src])
  have nil: "index_ok r' []" if "\<And>owner. model_index r' [] owner = model_index r [] owner" for r'
    using idx [of "[]"] that by (simp add: index_ok_def)
  have other: "index_ok ?c m" if "m \<noteq> agent_model d" "m \<noteq> old_model d r \<or> m = []" for m
  proof (cases "m = []")
    case True
    then show ?thesis using nil [of ?c] by (simp add: model_index_def)
  next
    case False
    then have "members (registerLocked d src r) m = members r m"
      using that by (intro register_members [OF inv]) (auto simp: old_model_def)
    then have "members ?c m = members r m" unfolding members_def by (simp add: register_core_agents [of d r src])
    then show ?thesis using idx [of m] by (simp add: index_ok_def model_index_def)
  qed
  define r4 where "r4 = rebuildModelBucket (agent_model d) ?c"
  have inv4: "agents_inv r4" using invc by (simp add: r4_def agents_inv_def)
  have ok4: "index_ok r4 m" if "m \<noteq> old_model d r \<or> m = agent_model d \<or> m = []" for m
    unfolding r4_def using that nil [of ?c] other [of m]
    by (intro rebuild_index_ok [OF invc]) (auto simp: model_index_def)
  define r5 where "r5 = (if old_model d r \<noteq> [] \<and> old_model d r \<noteq> agent_model d then rebuildModelBucket (old_model d r) r4 else r4)"
  have "index_ok r5 m"
    unfolding r5_def using ok4 rebuild_index_ok [OF inv4, of m "old_model d r"] by auto
  moreover have "members (registerLocked d src r) m owner = members r5 m owner" "model_index (registerLocked d src r) m owner = model_index r5 m owner" for owner
    by (simp_all add: registerLocked_eq Let_def r4_def [symmetric] r5_def [symmetric] members_def model_index_def)
  ultimately show ?thesis by (simp add: index_ok_def)
qed

lemma register_by_model:
  "rg_byModel (registerLocked d src r) = rg_byModel (register_core d r)"
  "rg_sources (registerLocked d src r) =
     (if src \<noteq> [] then gm_put (agent_tenant d) (gm_put (agent_name d) src (bucket (rg_sources r) (agent_tenant d))) (rg_sources r)
      else rg_sources r)"
  by (simp_all add: registerLocked_eq Let_def)

lemma register_core_by_model:
  "rg_byModel (register_core d r) m =
     (if agent_model d \<noteq> [] \<and> m = agent_model d then Some d
      else rg_byModel (case agent_at r (agent_tenant d) (agent_name d) of None \<Rightarrow> r | Some p \<Rightarrow> unindex p r) m)"
  by (simp add: register_core_def Let_def)

lemma unindex_by_model:
  "by_model_ok r \<Longrightarrow> rg_byModel (unindex p r) m = (if rg_byModel r m = Some p then None else rg_byModel r m)"
  by (auto simp: unindex_def by_model_ok_def)

lemma register_by_model_ok:
  assumes inv: "agents_inv r" "by_model_ok r"
  shows "by_model_ok (registerLocked d src r)"
  unfolding by_model_ok_def
proof (intro allI impI)
  fix m e
  let ?prev = "agent_at r (agent_tenant d) (agent_name d)"
  assume e: "rg_byModel (registerLocked d src r) m = Some e"
  show "m \<noteq> [] \<and> agent_model e = m \<and> agent_at (registerLocked d src r) (agent_tenant e) (agent_name e) = Some e"
  proof (cases "m = agent_model d \<and> m \<noteq> []")
    case True
    then have "e = d" using e by (auto simp: register_by_model register_core_by_model)
    with True show ?thesis by (auto simp: register_agent_at)
  next
    case False
    have "rg_byModel (case ?prev of None \<Rightarrow> r | Some p \<Rightarrow> unindex p r) m = Some e"
      using e False by (auto simp: register_by_model register_core_by_model split: if_splits)
    then have "rg_byModel r m = Some e" "?prev \<noteq> Some e"
      using inv(2) by (auto simp: unindex_by_model split: option.splits if_splits)
    moreover from this have "m \<noteq> []" "agent_model e = m" "agent_at r (agent_tenant e) (agent_name e) = Some e"
      using inv(2) by (simp_all add: by_model_ok_def)
    moreover from calculation have "\<not> (agent_tenant e = agent_tenant d \<and> agent_name e = agent_name d)" by auto
    ultimately show ?thesis by (auto simp: register_agent_at)
  qed
qed

lemma register_sources_ok: "sources_ok r \<Longrightarrow> sources_ok (registerLocked d src r)"
  by (auto simp: sources_ok_def register_by_model put2_wf put2_get register_agent_at split: if_splits)

lemma register_inv: "registry_inv r \<Longrightarrow> registry_inv (registerLocked d src r)"
  by (simp add: registry_inv_def register_agents_inv register_index_ok register_by_model_ok register_sources_ok)

lemma drop_fields [simp]:
  "rg_agents (dropAgent owner name d r) = del2 owner name (rg_agents r)"
  "rg_byModelTenant (dropAgent owner name d r) = rg_byModelTenant r"
  "rg_sources (dropAgent owner name d r) = del2 owner name (rg_sources r)"
  "rg_byModel (dropAgent owner name d r) = rg_byModel (unindex d r)"
  by (simp_all add: dropAgent_def Let_def)

definition base_inv :: "registry \<Rightarrow> bool" where
  "base_inv r \<longleftrightarrow> agents_inv r \<and> by_model_ok r \<and> sources_ok r"

lemma drop_base_inv:
  assumes "base_inv r" "agent_at r owner name = Some d"
  shows "base_inv (dropAgent owner name d r)"
proof -
  have inv: "agents_inv r" and bm: "by_model_ok r" and so: "sources_ok r" using assms(1) by (simp_all add: base_inv_def)
  have d: "agent_tenant d = owner" "agent_name d = name" using agents_invD(1) [OF inv assms(2)] by simp_all
  have "agents_inv (dropAgent owner name d r)"
    using inv by (auto simp: agents_inv_def del2_wf del2_get split: if_splits)
  moreover have "by_model_ok (dropAgent owner name d r)"
    unfolding by_model_ok_def
  proof (intro allI impI)
    fix m e assume "rg_byModel (dropAgent owner name d r) m = Some e"
    then have e: "rg_byModel r m = Some e" "e \<noteq> d" by (auto simp: unindex_by_model [OF bm] split: if_splits)
    then have m: "m \<noteq> []" "agent_model e = m" "agent_at r (agent_tenant e) (agent_name e) = Some e"
      using bm by (simp_all add: by_model_ok_def)
    then have "\<not> (agent_tenant e = owner \<and> agent_name e = name)" using e(2) assms(2) by auto
    with m show "m \<noteq> [] \<and> agent_model e = m \<and> agent_at (dropAgent owner name d r) (agent_tenant e) (agent_name e) = Some e"
      by (auto simp: del2_get)
  qed
  moreover have "sources_ok (dropAgent owner name d r)"
    using so by (auto simp: sources_ok_def del2_wf del2_get)
  ultimately show ?thesis by (simp add: base_inv_def)
qed

lemma drop_index_ok:
  assumes "agents_inv r" "agent_at r owner name = Some d" "index_ok r m" "m \<noteq> agent_model d \<or> m = []"
  shows "index_ok (dropAgent owner name d r) m"
proof (cases "m = []")
  case True
  then show ?thesis using assms(3) by (simp add: index_ok_def model_index_def)
next
  case False
  have "members (dropAgent owner name d r) m own = members r m own" for own
    using assms(2,4) False by (auto simp: members_def del2_get)
  then show ?thesis using assms(3) by (simp add: index_ok_def model_index_def)
qed

lemma RemoveForTenant_inv:
  assumes "registry_inv r"
  shows "registry_inv (fst (snd (RemoveForTenant name tenantID r)))"
proof (cases "agent_at r tenantID name")
  case None
  then show ?thesis using assms by (simp add: RemoveForTenant_def get2_def)
next
  case (Some d)
  let ?r = "dropAgent tenantID name d r"
  have b: "base_inv ?r" using drop_base_inv [OF _ Some] assms by (simp add: base_inv_def registry_inv_def)
  have "index_ok (rebuildModelBucket (agent_model d) ?r) m" for m
    using b assms drop_index_ok [OF _ Some, of m]
    by (intro rebuild_index_ok) (auto simp: base_inv_def registry_inv_def)
  then show ?thesis using Some b
    by (simp add: RemoveForTenant_def get2_def registry_inv_def base_inv_def agents_inv_def by_model_ok_def sources_ok_def)
qed

text \<open>
  The sweep of \<open>Remove\<close>: after the buckets in \<open>done\<close> the agents named \<open>name\<close> are gone there, the buckets still
  to come are untouched, and only the index buckets of the collected models are stale.
\<close>

definition sweep ::
  "string \<Rightarrow> string \<times> (string, agent_definition) gomap \<Rightarrow> registry \<times> string list \<times> changes
     \<Rightarrow> registry \<times> string list \<times> changes" where
  "sweep name = (\<lambda>(owner, byName) (r, models, removed).
     case gm_get byName name of
       None \<Rightarrow> (r, models, removed)
     | Some def \<Rightarrow>
         (dropAgent owner name def r,
          if agent_model def \<noteq> [] then List.insert (agent_model def) models else models,
          removed @ [(owner, name)]))"

lemma Remove_eq:
  "Remove name r =
     (let (r', models, removed) = fold (sweep name) (rg_agents r) (r, [], [])
      in if removed = [] then (Inl (AgentNotFound name), r', []) else (Inr (), fold rebuildModelBucket models r', removed))"
  by (simp add: Remove_def sweep_def)

definition sweep_inv :: "string \<Rightarrow> (string, (string, agent_definition) gomap) gomap \<Rightarrow> registry \<times> string list \<times> changes \<Rightarrow> bool" where
  "sweep_inv name rest = (\<lambda>(r, models, removed). base_inv r \<and> (\<forall>m. m \<in> set models \<or> index_ok r m)
     \<and> (\<forall>owner b n. gm_get rest owner = Some b \<longrightarrow> agent_at r owner n = gm_get b n))"

lemma sweep_step:
  assumes "sweep_inv name ((owner, b) # rest) st" "gm_get rest owner = None"
  shows "sweep_inv name rest (sweep name (owner, b) st)"
proof -
  obtain r models removed where st: "st = (r, models, removed)" by (metis prod_cases3)
  have I: "base_inv r" "\<And>m. m \<in> set models \<or> index_ok r m"
    "\<And>o' b' n. gm_get ((owner, b) # rest) o' = Some b' \<Longrightarrow> agent_at r o' n = gm_get b' n"
    using assms(1) by (simp_all only: sweep_inv_def st prod.case)
  have I3: "agent_at r owner n = gm_get b n" for n using I(3) [of owner b] by simp
  have I4: "agent_at r o' n = gm_get b' n" if "gm_get rest o' = Some b'" for o' b' n
    using I(3) [of o' b'] that assms(2) by (cases "o' = owner") simp_all
  show ?thesis
  proof (cases "gm_get b name")
    case None
    then show ?thesis using I(1,2) I4 by (simp add: sweep_def st sweep_inv_def)
  next
    case (Some d)
    then have at: "agent_at r owner name = Some d" using I3 by simp
    have "base_inv (dropAgent owner name d r)" by (rule drop_base_inv [OF I(1) at])
    moreover have "m = agent_model d \<and> m \<noteq> [] \<or> m \<in> set models \<or> index_ok (dropAgent owner name d r) m" for m
      using I(1) I(2) [of m] drop_index_ok [OF _ at, of m] by (auto simp: base_inv_def)
    moreover have "agent_at (dropAgent owner name d r) o' n = gm_get b' n" if "gm_get rest o' = Some b'" for o' b' n
      using I4 [OF that] that assms(2) by (auto simp: del2_get)
    ultimately show ?thesis using Some by (auto simp: sweep_def st sweep_inv_def) blast+
  qed
qed

lemma sweep_fold:
  "gm_wf rest \<Longrightarrow> sweep_inv name rest st \<Longrightarrow> sweep_inv name [] (fold (sweep name) rest st)"
proof (induction rest arbitrary: st)
  case (Cons e rest)
  obtain owner b where e: "e = (owner, b)" by fastforce
  with Cons.prems(1) have "gm_wf rest" "gm_get rest owner = None" by (auto simp: gm_wf_def map_of_eq_None_iff)
  with Cons.IH Cons.prems(2) sweep_step show ?case by (simp add: e)
qed simp

lemma base_inv_rebuild [simp]: "base_inv (rebuildModelBucket m r) = base_inv r"
  by (simp add: base_inv_def agents_inv_def by_model_ok_def sources_ok_def)

lemma rebuild_all:
  "base_inv r \<Longrightarrow> (\<forall>m. m \<in> set models \<and> m \<noteq> [] \<or> index_ok r m) \<Longrightarrow> registry_inv (fold rebuildModelBucket models r)"
proof (induction models arbitrary: r)
  case Nil
  then show ?case by (simp add: registry_inv_def base_inv_def)
next
  case (Cons x models)
  have "m \<in> set models \<and> m \<noteq> [] \<or> index_ok (rebuildModelBucket x r) m" for m
    using Cons.prems rebuild_index_ok [of r m x] by (auto simp: base_inv_def)
  then show ?case using Cons by simp
qed

lemma sweep_models_nonempty:
  "[] \<notin> set (fst (snd st)) \<Longrightarrow> [] \<notin> set (fst (snd (fold (sweep name) rest st)))"
  by (induction rest arbitrary: st) (auto simp: sweep_def split: option.splits)

lemma sweep_removed:
  "snd (snd (fold (sweep name) rest st)) =
     snd (snd st) @ map (\<lambda>(owner, b). (owner, name)) (filter (\<lambda>(owner, b). gm_get b name \<noteq> None) rest)"
  by (induction rest arbitrary: st) (auto simp: sweep_def split: option.splits)

lemma sweep_none: "filter (\<lambda>(owner, b). gm_get b name \<noteq> None) rest = [] \<Longrightarrow> fold (sweep name) rest st = st"
  by (induction rest arbitrary: st) (auto simp: sweep_def split: option.splits if_splits)

lemma Remove_cases:
  obtains (absent) "Remove name r = (Inl (AgentNotFound name), r, [])" "\<And>owner. agent_at r owner name = None"
  | (gone) r' models removed where "fold (sweep name) (rg_agents r) (r, [], []) = (r', models, removed)"
      "Remove name r = (Inr (), fold rebuildModelBucket models r', removed)"
      "removed = map (\<lambda>(owner, b). (owner, name)) (filter (\<lambda>(owner, b). gm_get b name \<noteq> None) (rg_agents r))"
      "removed \<noteq> []"
proof (cases "filter (\<lambda>(owner, b). gm_get b name \<noteq> None) (rg_agents r) = []")
  case True
  then have "Remove name r = (Inl (AgentNotFound name), r, [])" by (simp add: Remove_eq sweep_none)
  moreover have "agent_at r owner name = None" for owner
    using True by (auto simp: get2_def bucket_def filter_empty_conv split: option.splits dest!: map_of_SomeD)
  ultimately show ?thesis by (rule absent)
next
  case False
  obtain r' models removed where f: "fold (sweep name) (rg_agents r) (r, [], []) = (r', models, removed)"
    by (metis prod_cases3)
  moreover have "removed = map (\<lambda>(owner, b). (owner, name)) (filter (\<lambda>(owner, b). gm_get b name \<noteq> None) (rg_agents r))"
    using sweep_removed [of name "rg_agents r" "(r, [], [])"] f by simp
  moreover from this False have "removed \<noteq> []" by simp
  ultimately show ?thesis by (intro gone) (auto simp: Remove_eq)
qed

lemma Remove_inv: assumes inv: "registry_inv r" shows "registry_inv (fst (snd (Remove name r)))"
proof -
  have wf: "wf2 (rg_agents r)" using inv by (simp add: registry_inv_def agents_inv_def)
  have "sweep_inv name (rg_agents r) (r, [], [])"
    using inv by (auto simp: sweep_inv_def registry_inv_def base_inv_def get2_def bucket_def)
  then have S: "sweep_inv name [] (fold (sweep name) (rg_agents r) (r, [], []))"
    using wf by (simp add: sweep_fold wf2_def)
  show ?thesis
  proof (cases rule: Remove_cases [where r = r and name = name])
    case absent
    then show ?thesis using inv by simp
  next
    case (gone r' models removed)
    have "[] \<notin> set models" using sweep_models_nonempty [of "(r, [], [])" name "rg_agents r"] gone(1) by simp
    then show ?thesis using S gone(1,2) by (auto simp: sweep_inv_def intro!: rebuild_all)
  qed
qed

lemma sweep_agent_at:
  assumes "gm_wf rest"
  shows "agent_at (fst (fold (sweep name) rest st)) o' n =
     (if n = name \<and> (\<exists>b. gm_get rest o' = Some b \<and> gm_get b name \<noteq> None) then None else agent_at (fst st) o' n)"
  using assms
proof (induction rest arbitrary: st)
  case (Cons e rest)
  obtain owner b where e: "e = (owner, b)" by fastforce
  with Cons.prems have "gm_wf rest" "gm_get rest owner = None" by (auto simp: gm_wf_def map_of_eq_None_iff)
  moreover have "agent_at (fst (sweep name (owner, b) st)) o' n =
      (if o' = owner \<and> n = name \<and> gm_get b name \<noteq> None then None else agent_at (fst st) o' n)" for o' n
    by (auto simp: sweep_def del2_get split: option.splits prod.splits)
  ultimately show ?case using Cons.IH [of "sweep name (owner, b) st"] by (auto simp: e)
qed simp

lemma rebuild_fold_agents [simp]: "rg_agents (fold rebuildModelBucket ms r) = rg_agents r"
  by (induction ms arbitrary: r) auto

lemma Remove_agent_at:
  assumes "wf2 (rg_agents r)"
  shows "agent_at (fst (snd (Remove name r))) o' n = (if n = name then None else agent_at r o' n)"
proof (cases rule: Remove_cases [where r = r and name = name])
  case (gone r' models removed)
  then have "agent_at (fst (snd (Remove name r))) o' n = agent_at (fst (fold (sweep name) (rg_agents r) (r, [], []))) o' n"
    by simp
  also have "\<dots> = (if n = name then None else agent_at r o' n)"
    using assms by (subst sweep_agent_at) (auto simp: wf2_def get2_def bucket_def split: option.splits)
  finally show ?thesis .
qed simp

lemma RemoveForTenant_agent_at:
  "agent_at (fst (snd (RemoveForTenant name t r))) o' n = (if o' = t \<and> n = name then None else agent_at r o' n)"
  by (auto simp: RemoveForTenant_def del2_get split: option.splits) (simp add: get2_def)

inductive registry_reachable :: "registry \<Rightarrow> bool" where
  new: "registry_reachable NewAgentRegistry"
| register: "registry_reachable r \<Longrightarrow> registry_reachable (fst (Register d r))"
| register_src: "registry_reachable r \<Longrightarrow> registry_reachable (fst (RegisterWithSource d src r))"
| remove: "registry_reachable r \<Longrightarrow> registry_reachable (fst (snd (Remove name r)))"
| remove_for: "registry_reachable r \<Longrightarrow> registry_reachable (fst (snd (RemoveForTenant name t r)))"

lemma new_inv: "registry_inv NewAgentRegistry"
  by (simp add: registry_inv_def NewAgentRegistry_def agents_inv_def wf2_def get2_def bucket_def index_ok_def
        model_index_def members_def smallest_def by_model_ok_def sources_ok_def)

lemma registry_reachable_inv: "registry_reachable r \<Longrightarrow> registry_inv r"
  by (induction rule: registry_reachable.induct)
     (auto simp: new_inv Register_def RegisterWithSource_def register_inv Remove_inv RemoveForTenant_inv split: option.splits)

section \<open>Lookups\<close>

lemma smallest_exists:
  assumes "finite S" "S \<noteq> {}" shows "\<exists>d. smallest S d"
proof -
  have "Min (agent_name ` S) \<in> agent_name ` S" using assms by simp
  then obtain d where "d \<in> S" "agent_name d = Min (agent_name ` S)" by force
  then have "smallest S d" using assms(1) by (auto simp: smallest_def)
  then show ?thesis ..
qed

lemma members_finite: "agents_inv r \<Longrightarrow> finite (members r model owner)"
  by (simp add: members_bucket)

lemma model_index_None:
  assumes "registry_inv r" "model \<noteq> []"
  shows "model_index r model owner = None \<longleftrightarrow> members r model owner = {}"
  using assms smallest_exists [OF members_finite, of r model owner] unfolding registry_inv_def index_ok_def
  by (metis empty_iff not_Some_eq smallest_def)

lemma GetByModelForTenant_eq:
  "GetByModelForTenant model t r = (case model_index r model t of Some d \<Rightarrow> Some d | None \<Rightarrow> model_index r model [])"
  by (simp add: GetByModelForTenant_def model_index_def split: option.splits)

lemma GetForTenant_eq:
  "GetForTenant name t r = (case agent_at r t name of Some d \<Rightarrow> Some d | None \<Rightarrow> agent_at r [] name)"
  by (auto simp: GetForTenant_def get2_def split: option.splits)

lemma fold_put_get:
  "gm_wf b \<Longrightarrow> gm_get (fold (\<lambda>(k, v). gm_put k v) b m) k = (case gm_get b k of Some v \<Rightarrow> Some v | None \<Rightarrow> gm_get m k)"
proof (induction b arbitrary: m)
  case (Cons e b)
  obtain k1 v1 where e: "e = (k1, v1)" by fastforce
  with Cons.prems have "gm_wf b" "gm_get b k1 = None" by (auto simp: gm_wf_def map_of_eq_None_iff)
  with Cons.IH show ?case by (auto simp: e split: option.splits)
qed simp

lemma fold_put_wf: "gm_wf m \<Longrightarrow> gm_wf (fold (\<lambda>(k, v). gm_put k v) b m)"
  by (induction b arbitrary: m) auto

lemma merged_get:
  assumes "agents_inv r"
  shows "gm_get (mergedForTenantLocked t r) name = GetForTenant name t r" "gm_wf (mergedForTenantLocked t r)"
proof -
  have "gm_wf (bucket (rg_agents r) o')" for o' using agents_invD(2) [OF assms] by simp
  then show "gm_get (mergedForTenantLocked t r) name = GetForTenant name t r"
    by (auto simp: mergedForTenantLocked_def Let_def fold_put_get GetForTenant_def split: option.splits)
  show "gm_wf (mergedForTenantLocked t r)" by (simp add: mergedForTenantLocked_def Let_def fold_put_wf)
qed

lemma GetForTenant_sound:
  assumes "registry_inv r" "GetForTenant name t r = Some d"
  shows "agent_name d = name \<and> agent_tenant d \<in> {t, []} \<and> agent_at r (agent_tenant d) name = Some d"
  using assms agents_invD(1) [of r] by (auto simp: GetForTenant_eq registry_inv_def split: option.splits)

lemma index_sound:
  assumes "registry_inv r" "model_index r model owner = Some d"
  shows "model \<noteq> [] \<and> agent_model d = model \<and> agent_tenant d = owner \<and> agent_at r owner (agent_name d) = Some d"
  using assms agents_invD(1) [of r owner "agent_name d" d]
  by (auto simp: registry_inv_def index_ok_def smallest_def members_def)

lemma GetByModelForTenant_sound:
  assumes "registry_inv r" "GetByModelForTenant model t r = Some d"
  shows "agent_model d = model \<and> agent_tenant d \<in> {t, []} \<and> agent_at r (agent_tenant d) (agent_name d) = Some d"
  using assms index_sound [OF assms(1)] by (auto simp: GetByModelForTenant_eq split: option.splits)

lemma ListForTenant_set:
  assumes "registry_inv r"
  shows "d \<in> set (ListForTenant t r) \<longleftrightarrow> GetForTenant (agent_name d) t r = Some d"
proof -
  have inv: "agents_inv r" using assms by (simp add: registry_inv_def)
  have "(n, e) \<in> set (mergedForTenantLocked t r) \<longleftrightarrow> GetForTenant n t r = Some e" for n e
    using merged_get [OF inv, of t] by (metis gm_in_set_iff)
  moreover have "set (ListForTenant t r) = snd ` set (mergedForTenantLocked t r)" by (simp add: ListForTenant_def)
  ultimately have "d \<in> set (ListForTenant t r) \<longleftrightarrow> (\<exists>n. GetForTenant n t r = Some d)"
    by (metis (no_types, lifting) image_iff prod.collapse snd_conv)
  then show ?thesis using GetForTenant_sound [OF assms] by blast
qed

lemma merged_names:
  assumes "registry_inv r"
  shows "map agent_name (map snd (mergedForTenantLocked t r)) = map fst (mergedForTenantLocked t r)"
proof -
  have inv: "agents_inv r" using assms by (simp add: registry_inv_def)
  have "agent_name d = n" if "(n, d) \<in> set (mergedForTenantLocked t r)" for n d
    using that merged_get(1) [OF inv, of t n] GetForTenant_sound [OF assms] merged_get(2) [OF inv, of t]
    by (auto simp: gm_in_set_iff)
  then show ?thesis by auto
qed

lemma ListForTenant_names:
  assumes "registry_inv r"
  shows "sorted (map agent_name (ListForTenant t r)) \<and> distinct (map agent_name (ListForTenant t r))"
proof -
  let ?m = "mergedForTenantLocked t r"
  have inv: "agents_inv r" using assms by (simp add: registry_inv_def)
  have "map agent_name (map snd ?m) = map fst ?m" by (rule merged_names [OF assms])
  then have "distinct (map agent_name (map snd ?m))" using merged_get(2) [OF inv, of t] by (simp only: gm_wf_def)
  then have "distinct (map agent_name (ListForTenant t r))"
    unfolding ListForTenant_def by (metis mset_eq_imp_distinct_iff mset_map mset_sort)
  then show ?thesis by (simp add: ListForTenant_def)
qed

section \<open>The directory interface of the engine\<close>

text \<open>
  What a caller that resolves agents relies on: a lookup for a tenant returns one of its own agents
  or a global one, and its own before a global one.
\<close>

locale agent_directory =
  fixes ok :: "'r \<Rightarrow> bool"
    and owned :: "'r \<Rightarrow> string \<Rightarrow> string \<Rightarrow> agent_definition option"
    and by_name :: "string \<Rightarrow> string \<Rightarrow> 'r \<Rightarrow> agent_definition option"
    and by_model :: "string \<Rightarrow> string \<Rightarrow> 'r \<Rightarrow> agent_definition option"
    and listing :: "string \<Rightarrow> 'r \<Rightarrow> agent_definition list"
  assumes owned_tenant: "ok r \<Longrightarrow> owned r t n = Some d \<Longrightarrow> agent_tenant d = t \<and> agent_name d = n"
    and by_name_own: "ok r \<Longrightarrow> owned r t n = Some d \<Longrightarrow> by_name n t r = Some d"
    and by_name_global: "ok r \<Longrightarrow> owned r t n = None \<Longrightarrow> by_name n t r = owned r [] n"
    and by_model_owned: "ok r \<Longrightarrow> by_model m t r = Some d \<Longrightarrow>
          agent_model d = m \<and> (owned r t (agent_name d) = Some d \<or> owned r [] (agent_name d) = Some d)"
    and listing_by_name: "ok r \<Longrightarrow> d \<in> set (listing t r) \<longleftrightarrow> by_name (agent_name d) t r = Some d"
begin

lemma by_name_visible:
  assumes "ok r" "by_name n t r = Some d"
  shows "agent_name d = n \<and> agent_tenant d \<in> {t, []}"
proof (cases "owned r t n")
  case None
  then show ?thesis using by_name_global [OF assms(1) None] owned_tenant [OF assms(1), of "[]"] assms(2) by auto
next
  case (Some e)
  then show ?thesis using by_name_own [OF assms(1) Some] owned_tenant [OF assms(1) Some] assms(2) by auto
qed

lemma by_model_visible: "ok r \<Longrightarrow> by_model m t r = Some d \<Longrightarrow> agent_model d = m \<and> agent_tenant d \<in> {t, []}"
  using by_model_owned owned_tenant by blast

lemma listing_visible: "ok r \<Longrightarrow> d \<in> set (listing t r) \<Longrightarrow> agent_tenant d \<in> {t, []}"
  using listing_by_name by_name_visible by blast

text \<open>The chain of a resolver: by name, then by model, then the only agent an anonymous caller sees.\<close>

lemma chain_visible:
  assumes "ok r"
    and "(case if n \<noteq> [] then by_name n t r else None of Some a \<Rightarrow> Some a
          | None \<Rightarrow> (case if m \<noteq> [] then by_model m t r else None of Some a \<Rightarrow> Some a
             | None \<Rightarrow> if t = [] \<and> length (listing [] r) = 1 then Some (hd (listing [] r)) else None)) = Some d"
  shows "agent_tenant d \<in> {t, []}"
proof -
  consider "by_name n t r = Some d" | "by_model m t r = Some d" | "t = []" "d \<in> set (listing [] r)"
    using assms(2) by (force simp: length_Suc_conv split: option.splits if_splits)
  then show ?thesis
    using by_name_visible [OF assms(1)] by_model_visible [OF assms(1)] listing_visible [OF assms(1)] by cases blast+
qed

end

interpretation dir: agent_directory registry_inv "\<lambda>r t n. agent_at r t n" GetForTenant GetByModelForTenant ListForTenant
proof unfold_locales
  fix r t n d m
  assume inv: "registry_inv r"
  show "agent_at r t n = Some d \<Longrightarrow> agent_tenant d = t \<and> agent_name d = n"
    using inv agents_invD(1) [of r t n d] by (simp add: registry_inv_def)
  show "agent_at r t n = Some d \<Longrightarrow> GetForTenant n t r = Some d" by (simp add: GetForTenant_eq)
  show "agent_at r t n = None \<Longrightarrow> GetForTenant n t r = agent_at r [] n" by (simp add: GetForTenant_eq)
  show "GetByModelForTenant m t r = Some d \<Longrightarrow>
      agent_model d = m \<and> (agent_at r t (agent_name d) = Some d \<or> agent_at r [] (agent_name d) = Some d)"
    using GetByModelForTenant_sound [OF inv] by fastforce
  show "d \<in> set (ListForTenant t r) \<longleftrightarrow> GetForTenant (agent_name d) t r = Some d" by (rule ListForTenant_set [OF inv])
qed

section \<open>Properties\<close>

definition sample_registry :: registry where
  "sample_registry = fst (Register (Some (sample_agent [] ''b'' ''m'' [] None))
     (fst (Register (Some (sample_agent ''t'' ''z'' ''m'' [] None))
       (fst (Register (Some (sample_agent [] ''a'' ''m'' [] None)) NewAgentRegistry)))))"

lemma sample_registry_reachable: "registry_reachable sample_registry"
  unfolding sample_registry_def by (intro registry_reachable.intros)

lemmas sample_registry_simps = sample_registry_def Register_def registerLocked_def NewAgentRegistry_def bucket_def
  rebuildModelBucket_def claim_model_def unindex_def get2_def del2_def dropAgent_def Let_def

text \<open>
  C32. The model index of the request path equals a scan of all agents. On every reachable registry,
  \<open>GetByModelForTenant\<close> returns the agent with the smallest name among the tenant's own agents of that
  model, or, if it owns none, the smallest among the global ones; it finds nothing exactly when
  neither exists.
\<close>
theorem GetByModelForTenant_is_scan:
  assumes "registry_reachable r"
  shows "GetByModelForTenant model t r = Some d \<longleftrightarrow>
     model \<noteq> [] \<and> (smallest (members r model t) d \<or> members r model t = {} \<and> smallest (members r model []) d)"
proof -
  have inv: "registry_inv r" by (rule registry_reachable_inv [OF assms])
  then have idx: "model_index r model o' = Some d \<longleftrightarrow> model \<noteq> [] \<and> smallest (members r model o') d" for o' d
    by (simp add: registry_inv_def index_ok_def)
  show ?thesis
  proof (cases "model = []")
    case True
    then have "model_index r model o' = None" for o' using idx [of o'] by (meson not_Some_eq)
    then show ?thesis using True by (simp add: GetByModelForTenant_eq)
  next
    case False
    show ?thesis
    proof (cases "members r model t = {}")
      case True
      then have "model_index r model t = None" using model_index_None [OF inv False] by simp
      then have "GetByModelForTenant model t r = model_index r model []" by (simp add: GetByModelForTenant_eq)
      with True False idx show ?thesis by (simp add: smallest_def)
    next
      case nonempty: False
      then have "GetByModelForTenant model t r = model_index r model t"
        using model_index_None [OF inv False, of t] by (auto simp: GetByModelForTenant_eq)
      with nonempty False idx show ?thesis by simp
    qed
  qed
qed

theorem GetByModelForTenant_is_scan_witness:
  "smallest (members sample_registry ''m'' []) (sample_agent [] ''a'' ''m'' [] None)"
proof -
  have "GetByModelForTenant ''m'' [] sample_registry = Some (sample_agent [] ''a'' ''m'' [] None)"
    unfolding sample_registry_def by code_simp
  then show ?thesis using GetByModelForTenant_is_scan [OF sample_registry_reachable] by blast
qed

text \<open>
  Tenant isolation: whatever a tenant asks for, by name, by model or as a list, it gets only its own
  agents and global ones, and its own agent hides a global one of the same name.
\<close>
theorem registry_tenant_isolation:
  assumes "registry_reachable r"
  shows "(GetForTenant n t r = Some d \<longrightarrow> agent_name d = n \<and> agent_tenant d \<in> {t, []})
    \<and> (GetByModelForTenant m t r = Some e \<longrightarrow> agent_model e = m \<and> agent_tenant e \<in> {t, []})
    \<and> (f \<in> set (ListForTenant t r) \<longrightarrow> agent_tenant f \<in> {t, []})
    \<and> (GetOwnedForTenant n t r = Some g \<longrightarrow> GetForTenant n t r = Some g)"
  using dir.by_name_visible [of r n t d] dir.by_model_visible [of r m t e] dir.listing_visible [of r f t]
    dir.by_name_own [of r t n g] registry_reachable_inv [OF assms]
  by (auto simp: GetOwnedForTenant_def get2_def)

theorem registry_tenant_isolation_witness:
  "GetForTenant ''z'' ''t'' sample_registry = Some (sample_agent ''t'' ''z'' ''m'' [] None)
   \<and> agent_tenant (sample_agent ''t'' ''z'' ''m'' [] None) \<in> {''t'', []}"
proof -
  have "GetForTenant ''z'' ''t'' sample_registry = Some (sample_agent ''t'' ''z'' ''m'' [] None)"
    unfolding sample_registry_def by code_simp
  then show ?thesis using registry_tenant_isolation [OF sample_registry_reachable] by blast
qed

text \<open>
  The list a tenant sees is sorted by name without duplicates and holds exactly the agents that a
  lookup by name returns; the list of names is the same agents' names in the same order.
\<close>
theorem ListForTenant_complete:
  assumes "registry_reachable r"
  shows "sorted_wrt (<) (map agent_name (ListForTenant t r))
    \<and> (d \<in> set (ListForTenant t r) \<longleftrightarrow> GetForTenant (agent_name d) t r = Some d)
    \<and> ListNamesForTenant t r = map agent_name (ListForTenant t r)"
proof -
  have inv: "registry_inv r" by (rule registry_reachable_inv [OF assms])
  have "mset (map agent_name (ListForTenant t r)) = mset (map agent_name (map snd (mergedForTenantLocked t r)))"
    by (simp only: ListForTenant_def mset_map mset_sort)
  also have "\<dots> = mset (map fst (mergedForTenantLocked t r))" by (simp only: merged_names [OF inv])
  finally have "sort (map fst (mergedForTenantLocked t r)) = map agent_name (ListForTenant t r)"
    using ListForTenant_names [OF inv, of t] by (intro properties_for_sort) auto
  then have "ListNamesForTenant t r = map agent_name (ListForTenant t r)" by (simp add: ListNamesForTenant_def)
  then show ?thesis using ListForTenant_names [OF inv, of t] ListForTenant_set [OF inv]
    by (simp add: strict_sorted_iff)
qed

theorem ListForTenant_complete_witness:
  "sorted_wrt (<) (map agent_name (ListForTenant ''t'' sample_registry))
   \<and> ListNamesForTenant ''t'' sample_registry = [''a'', ''b'', ''z'']"
proof -
  have "ListNamesForTenant ''t'' sample_registry = [''a'', ''b'', ''z'']" unfolding sample_registry_def by code_simp
  then show ?thesis using ListForTenant_complete [OF sample_registry_reachable] by blast
qed

text \<open>
  Removal is precise. \<open>RemoveForTenant\<close> fails exactly when that tenant does not own that name, and
  then changes and announces nothing; otherwise that one agent goes, every other agent of every
  tenant stays, the pair is announced, its source is forgotten, and the tenant's lookup of the name
  falls back to the global agent.
\<close>
theorem RemoveForTenant_exact:
  assumes "registry_reachable r"
  shows "case RemoveForTenant n t r of
      (Inl err, r', chg) \<Rightarrow> err = AgentNotFoundForTenant n t \<and> r' = r \<and> chg = [] \<and> GetOwnedForTenant n t r = None
    | (Inr _, r', chg) \<Rightarrow> GetOwnedForTenant n t r \<noteq> None \<and> chg = [(t, n)] \<and> Source n t r' = []
        \<and> GetForTenant n t r' = (if t = [] then None else GetForTenant n [] r)
        \<and> (\<forall>n' t'. GetOwnedForTenant n' t' r' = (if n' = n \<and> t' = t then None else GetOwnedForTenant n' t' r))"
proof (cases "agent_at r t n")
  case None
  then show ?thesis by (simp add: RemoveForTenant_def GetOwnedForTenant_def get2_def)
next
  case (Some d)
  have "agent_at (fst (snd (RemoveForTenant n t r))) o' n' = (if o' = t \<and> n' = n then None else agent_at r o' n')" for o' n'
    by (rule RemoveForTenant_agent_at)
  moreover have "get2 (rg_sources (fst (snd (RemoveForTenant n t r)))) t n = None"
    using Some by (simp add: RemoveForTenant_def get2_def) (simp add: get2_def [symmetric] del2_get)
  ultimately show ?thesis using Some
    by (auto simp: RemoveForTenant_def GetOwnedForTenant_def GetForTenant_eq Source_def get2_def split: option.splits)
qed

theorem RemoveForTenant_exact_witness:
  "fst (RemoveForTenant ''z'' ''t'' sample_registry) = Inr ()
   \<and> GetOwnedForTenant ''a'' [] (fst (snd (RemoveForTenant ''z'' ''t'' sample_registry))) = GetOwnedForTenant ''a'' [] sample_registry"
proof -
  have f: "fst (RemoveForTenant ''z'' ''t'' sample_registry) = Inr ()" unfolding sample_registry_def by code_simp
  then obtain r' chg where e: "RemoveForTenant ''z'' ''t'' sample_registry = (Inr (), r', chg)"
    by (metis prod.collapse)
  show ?thesis using RemoveForTenant_exact [OF sample_registry_reachable, of "''z''" "''t''"] f by (simp add: e)
qed

text \<open>
  The tenant-agnostic model index never serves a stale agent: what it returns is registered now and
  declares that model; and right after a registration the newest agent answers for its model.
\<close>
theorem GetByModel_current:
  assumes "registry_reachable r"
  shows "(GetByModel m r = Some d \<longrightarrow> agent_model d = m \<and> GetOwnedForTenant (agent_name d) (agent_tenant d) r = Some d)
    \<and> (agent_model e \<noteq> [] \<longrightarrow> GetByModel (agent_model e) (fst (Register (Some e) r)) = Some e)"
  using registry_reachable_inv [OF assms]
  by (auto simp: registry_inv_def by_model_ok_def GetByModel_def GetOwnedForTenant_def get2_def Register_def
        register_by_model register_core_by_model)

theorem GetByModel_current_witness:
  "GetByModel ''m'' (fst (Register (Some (sample_agent [] ''c'' ''m'' [] None)) sample_registry))
     = Some (sample_agent [] ''c'' ''m'' [] None)"
  using GetByModel_current [OF sample_registry_reachable, of _ _ "sample_agent [] ''c'' ''m'' [] None"] by simp

text \<open>
  The most-recent-registrant index is not restored on removal: with two agents on one model, removing
  the later one leaves the index empty although the earlier one still declares the model.
\<close>

theorem GetByModel_forgets_earlier_agent:
  "GetByModel ''m'' (fst (snd (RemoveForTenant ''b'' [] sample_registry))) = None
   \<and> GetOwnedForTenant ''a'' [] (fst (snd (RemoveForTenant ''b'' [] sample_registry))) = Some (sample_agent [] ''a'' ''m'' [] None)"
  unfolding sample_registry_def by code_simp
end
