(* ===== verification/Tool_Processor.thy ===== *)
theory Tool_Processor
  imports Tool_Schema
begin

text \<open>
  \<^verbatim>\<open>internal/engine/tool_processor.go\<close>: resolving the tool calls of a response. What
  \<^verbatim>\<open>crypto/rand\<close> yields for the \<open>i\<close>-th call is a parameter: the generated id, and the draw below 10000 of
  the error injection (None when the source fails). More than two calls run in goroutines that each
  write their own slot; the order in which they finish is the parameter \<open>sched\<close>.
\<close>

section \<open>Definitions\<close>

datatype tool_failure =
    ToolNotFound string
  | InvalidParameters "param_error list"
  | InjectedError rat
  | DeclaredError tool_error

fun failure_code :: "tool_failure \<Rightarrow> string" where
  "failure_code (ToolNotFound _) = ''TOOL_NOT_FOUND''"
| "failure_code (InvalidParameters _) = ''INVALID_PARAMETERS''"
| "failure_code (InjectedError _) = ''INJECTED_ERROR''"
| "failure_code (DeclaredError e) = te_Code e"

datatype process_error = ErrToolNotFound string | ErrParameterValidation

record tool_call_result =
  tcr_ID :: string
  tcr_ToolName :: string
  tcr_Response :: json
  tcr_Error :: "tool_failure option"
  tcr_IsError :: bool

type_synonym tool_random = "nat \<Rightarrow> string \<times> nat option"

definition shouldInjectError :: "rat \<Rightarrow> nat option \<Rightarrow> bool" where
  "shouldInjectError rate draw =
     (if rate \<le> 0 then False else if 1 \<le> rate then True
      else case draw of None \<Rightarrow> False | Some n \<Rightarrow> of_nat n / 10000 < rate)"

definition valuesEqual :: "json \<Rightarrow> json \<Rightarrow> bool" where
  "valuesEqual expected actual = EqualScalar expected actual"

definition matchArgs :: "jobject \<Rightarrow> jobject \<Rightarrow> bool" where
  "matchArgs mtch args =
     (if mtch = [] then False
      else list_all (\<lambda>(key, expected).
             case map_of args key of None \<Rightarrow> False | Some actual \<Rightarrow> valuesEqual expected actual) mtch)"

definition rule_result :: "tool_response_rule \<Rightarrow> json \<times> tool_error option" where
  "rule_result rule =
     (case trr_Error rule of Some e \<Rightarrow> (JNull, Some e) | None \<Rightarrow> (trr_Response rule, None))"

text \<open>The loop over the rules, with the last default rule seen so far.\<close>

fun resolve_loop ::
  "tool_response_rule list \<Rightarrow> jobject \<Rightarrow> tool_response_rule option \<Rightarrow> json \<times> tool_error option" where
  "resolve_loop [] args defaultRule =
     (case defaultRule of Some rule \<Rightarrow> rule_result rule | None \<Rightarrow> (JNull, None))"
| "resolve_loop (rule # rules) args defaultRule =
     (if trr_IsDefault rule then resolve_loop rules args (Some rule)
      else if trr_Match rule = [] then resolve_loop rules args defaultRule
      else if matchArgs (trr_Match rule) args then rule_result rule
      else resolve_loop rules args defaultRule)"

definition resolveToolResponse :: "tool_response_rule list \<Rightarrow> jobject \<Rightarrow> json \<times> tool_error option" where
  "resolveToolResponse rules args = resolve_loop rules args None"

definition indexTools :: "tool_definition list \<Rightarrow> (string \<rightharpoonup> tool_definition)" where
  "indexTools tools = fold (\<lambda>t m. m(td_Name t \<mapsto> t)) tools Map.empty"

definition processOne ::
  "string \<times> nat option \<Rightarrow> tool_call_spec \<Rightarrow> (string \<rightharpoonup> tool_definition) \<Rightarrow> tool_call_result \<times> process_error option" where
  "processOne rnd call toolIndex =
     (let result = \<lparr>tcr_ID = fst rnd, tcr_ToolName = tc_Name call, tcr_Response = JNull, tcr_Error = None, tcr_IsError = False\<rparr>;
          failed = (\<lambda>f. result\<lparr>tcr_IsError := True, tcr_Error := Some f\<rparr>)
      in case toolIndex (tc_Name call) of
           None \<Rightarrow> (failed (ToolNotFound (tc_Name call)), Some (ErrToolNotFound (tc_Name call)))
         | Some tool \<Rightarrow>
             let valErrs = (if td_Validate tool \<and> td_Parameters tool \<noteq> []
                            then ValidateParameters (td_Parameters tool) (tc_Arguments call) else [])
             in if valErrs \<noteq> [] then (failed (InvalidParameters valErrs), Some ErrParameterValidation)
                else if 0 < td_ErrorRate tool \<and> shouldInjectError (td_ErrorRate tool) (snd rnd)
                then (failed (InjectedError (td_ErrorRate tool)), None)
                else (case resolveToolResponse (td_Responses tool) (tc_Arguments call) of
                        (_, Some toolErr) \<Rightarrow> (failed (DeclaredError toolErr), None)
                      | (resp, None) \<Rightarrow>
                          if resp = JNull then (result\<lparr>tcr_Response := JObj [(''status'', JStr ''ok'')]\<rparr>, None)
                          else (result\<lparr>tcr_Response := resp\<rparr>, None)))"

fun fatal :: "process_error option \<Rightarrow> bool" where
  "fatal None = False"
| "fatal (Some ErrParameterValidation) = False"
| "fatal (Some (ErrToolNotFound _)) = True"

text \<open>The zero value of a result slot.\<close>

definition empty_result :: tool_call_result where
  "empty_result = \<lparr>tcr_ID = [], tcr_ToolName = [], tcr_Response = JNull, tcr_Error = None, tcr_IsError = False\<rparr>"

definition process_inline ::
  "tool_random \<Rightarrow> tool_call_spec list \<Rightarrow> (string \<rightharpoonup> tool_definition) \<Rightarrow> tool_call_result list \<times> process_error option" where
  "process_inline rnd calls idx =
     fold (\<lambda>i (results, firstErr).
             let (result, err) = processOne (rnd i) (calls ! i) idx
             in (results[i := result], if firstErr = None \<and> fatal err then err else firstErr))
          [0..<length calls] (replicate (length calls) empty_result, None)"

definition process_concurrent ::
  "nat list \<Rightarrow> tool_random \<Rightarrow> tool_call_spec list \<Rightarrow> (string \<rightharpoonup> tool_definition)
     \<Rightarrow> tool_call_result list \<times> process_error option" where
  "process_concurrent sched rnd calls idx =
     (let (results, errs) =
        fold (\<lambda>i (results, errs).
                let (result, err) = processOne (rnd i) (calls ! i) idx
                in (results[i := result], errs[i := err]))
             sched (replicate (length calls) empty_result, replicate (length calls) None)
      in (results, case find fatal errs of None \<Rightarrow> None | Some err \<Rightarrow> err))"

definition ProcessToolCalls ::
  "nat list \<Rightarrow> tool_random \<Rightarrow> tool_call_spec list \<Rightarrow> tool_definition list
     \<Rightarrow> tool_call_result list \<times> process_error option" where
  "ProcessToolCalls sched rnd calls tools =
     (if calls = [] then ([], None)
      else if length calls \<le> 2 then process_inline rnd calls (indexTools tools)
      else process_concurrent sched rnd calls (indexTools tools))"

section \<open>Every schedule gives the sequential result\<close>

lemma fold_slots:
  assumes "distinct is" "set is \<subseteq> {..<length xs}"
  shows "fold (\<lambda>i xs. xs[i := f i]) is xs = map (\<lambda>i. if i \<in> set is then f i else xs ! i) [0..<length xs]"
  using assms
proof (induction "is" arbitrary: xs)
  case Nil
  then show ?case by (simp add: map_nth)
next
  case (Cons i "is")
  then show ?case by (auto simp: nth_list_update)
qed

lemma fold_slots_all:
  assumes "distinct is" "set is = {..<length xs}"
  shows "fold (\<lambda>i xs. xs[i := f i]) is xs = map f [0..<length xs]"
  using fold_slots [of "is" xs f] assms by simp

lemma fold_pair_slots:
  "fold (\<lambda>i (xs, ys). (xs[i := f i], ys[i := g i])) is (xs, ys)
     = (fold (\<lambda>i xs. xs[i := f i]) is xs, fold (\<lambda>i ys. ys[i := g i]) is ys)"
  by (induction "is" arbitrary: xs ys) auto

definition results_of where
  "results_of rnd calls idx = map (\<lambda>i. fst (processOne (rnd i) (calls ! i) idx)) [0..<length calls]"

definition errors_of where
  "errors_of rnd calls idx = map (\<lambda>i. snd (processOne (rnd i) (calls ! i) idx)) [0..<length calls]"

definition first_fatal :: "process_error option list \<Rightarrow> process_error option" where
  "first_fatal errs = (case find fatal errs of None \<Rightarrow> None | Some err \<Rightarrow> err)"

lemma process_concurrent_eq:
  assumes "distinct sched" "set sched = {..<length calls}"
  shows "process_concurrent sched rnd calls idx = (results_of rnd calls idx, first_fatal (errors_of rnd calls idx))"
proof -
  have "process_concurrent sched rnd calls idx =
      (let (results, errs) = fold (\<lambda>i (results, errs).
            (results[i := fst (processOne (rnd i) (calls ! i) idx)], errs[i := snd (processOne (rnd i) (calls ! i) idx)]))
          sched (replicate (length calls) empty_result, replicate (length calls) None)
       in (results, first_fatal errs))"
    by (simp add: process_concurrent_def first_fatal_def case_prod_beta Let_def)
  then show ?thesis
    using assms by (simp add: fold_pair_slots fold_slots_all results_of_def errors_of_def)
qed

lemma fold_inline:
  "fold (\<lambda>i (xs, e). (xs[i := f i], if e = None \<and> fatal (g i) then g i else e)) is (xs, e)
     = (fold (\<lambda>i xs. xs[i := f i]) is xs, if e = None then first_fatal (map g is) else e)"
proof (induction "is" arbitrary: xs e)
  case (Cons i "is")
  have "g i \<noteq> None" if "fatal (g i)" using that by (cases "g i") auto
  then show ?case using Cons by (auto simp: first_fatal_def)
qed (simp add: first_fatal_def)

lemma process_inline_eq:
  "process_inline rnd calls idx = (results_of rnd calls idx, first_fatal (errors_of rnd calls idx))"
proof -
  have "process_inline rnd calls idx =
      fold (\<lambda>i (xs, e). (xs[i := fst (processOne (rnd i) (calls ! i) idx)],
              if e = None \<and> fatal (snd (processOne (rnd i) (calls ! i) idx)) then snd (processOne (rnd i) (calls ! i) idx) else e))
           [0..<length calls] (replicate (length calls) empty_result, None)"
    by (simp add: process_inline_def case_prod_beta Let_def)
  also have "\<dots> = (fold (\<lambda>i xs. xs[i := fst (processOne (rnd i) (calls ! i) idx)]) [0..<length calls]
        (replicate (length calls) empty_result), first_fatal (errors_of rnd calls idx))"
    by (simp only: fold_inline errors_of_def) simp
  also have "fold (\<lambda>i xs. xs[i := fst (processOne (rnd i) (calls ! i) idx)]) [0..<length calls]
        (replicate (length calls) empty_result) = results_of rnd calls idx"
    by (subst fold_slots_all) (auto simp: results_of_def)
  finally show ?thesis .
qed

section \<open>Rules and tools\<close>

lemma matchArgs_iff:
  "matchArgs mtch args \<longleftrightarrow> mtch \<noteq> [] \<and>
     (\<forall>(key, expected) \<in> set mtch. \<exists>actual. map_of args key = Some actual \<and> EqualScalar expected actual)"
  by (auto simp: matchArgs_def valuesEqual_def list_all_iff split: option.splits)

lemma resolve_loop_eq:
  "resolve_loop rules args dflt =
     (case find (\<lambda>r. \<not> trr_IsDefault r \<and> matchArgs (trr_Match r) args) rules of
        Some r \<Rightarrow> rule_result r
      | None \<Rightarrow> (case find trr_IsDefault (rev rules) of
                   Some r \<Rightarrow> rule_result r
                 | None \<Rightarrow> (case dflt of Some r \<Rightarrow> rule_result r | None \<Rightarrow> (JNull, None))))"
proof (induction rules arbitrary: dflt)
  case (Cons r rules)
  then show ?case by (auto simp: find_snoc matchArgs_def split: option.splits)
qed simp

lemma indexTools_eq: "indexTools tools n = find (\<lambda>t. td_Name t = n) (rev tools)"
proof -
  have "fold (\<lambda>t m. m(td_Name t \<mapsto> t)) tools m n
      = (case find (\<lambda>t. td_Name t = n) (rev tools) of Some t \<Rightarrow> Some t | None \<Rightarrow> m n)" for m
  proof (induction tools arbitrary: m)
    case (Cons t tools)
    then show ?case by (auto simp: find_snoc split: option.splits)
  qed simp
  then show ?thesis by (simp add: indexTools_def split: option.splits)
qed

lemma processOne_ok:
  assumes "\<not> tcr_IsError (fst (processOne rnd call idx))"
  shows "\<exists>tool. idx (tc_Name call) = Some tool
    \<and> (td_Validate tool \<longrightarrow> str_field (td_Parameters tool) ''type'' = ''object''
         \<longrightarrow> conforms_object (td_Parameters tool) (tc_Arguments call))
    \<and> snd (resolveToolResponse (td_Responses tool) (tc_Arguments call)) = None"
proof (cases "idx (tc_Name call)")
  case None
  with assms show ?thesis by (simp add: processOne_def)
next
  case (Some tool)
  have "conforms_object (td_Parameters tool) (tc_Arguments call)"
    if "td_Validate tool" and obj: "str_field (td_Parameters tool) ''type'' = ''object''"
  proof -
    have ne: "td_Parameters tool \<noteq> []" using obj by (auto simp: str_field_def)
    then have "ValidateParameters (td_Parameters tool) (tc_Arguments call) = []"
      using assms Some that by (auto simp: processOne_def Let_def split: if_splits)
    then show ?thesis using obj ne by (simp add: ValidateParameters_def validate_conforms)
  qed
  moreover have "snd (resolveToolResponse (td_Responses tool) (tc_Arguments call)) = None"
    using assms Some by (auto simp: processOne_def Let_def split: if_splits prod.splits option.splits)
  ultimately show ?thesis using Some by blast
qed

lemma ProcessToolCalls_eq:
  assumes "distinct sched" "set sched = {..<length calls}"
  shows "ProcessToolCalls sched rnd calls tools =
    (results_of rnd calls (indexTools tools), first_fatal (errors_of rnd calls (indexTools tools)))"
proof (cases "calls = []")
  case True
  then show ?thesis by (simp add: ProcessToolCalls_def first_fatal_def results_of_def errors_of_def)
next
  case False
  then show ?thesis using assms by (simp add: ProcessToolCalls_def process_inline_eq process_concurrent_eq)
qed

section \<open>Properties\<close>

text \<open>
  C36. The result of a batch of tool calls does not depend on how the goroutines are scheduled: with any
  order of completion, and on the inline path for one or two calls, the \<open>i\<close>-th result is that of the
  \<open>i\<close>-th call, no call is lost, and the error returned is the first unknown tool in call order.
\<close>
theorem ProcessToolCalls_schedule_free:
  assumes "distinct sched" "set sched = {..<length calls}"
  shows "ProcessToolCalls sched rnd calls tools =
    (map (\<lambda>i. fst (processOne (rnd i) (calls ! i) (indexTools tools))) [0..<length calls],
     first_fatal (map (\<lambda>i. snd (processOne (rnd i) (calls ! i) (indexTools tools))) [0..<length calls]))"
  using ProcessToolCalls_eq [OF assms] by (simp add: results_of_def errors_of_def)

definition sample_tool :: "string \<Rightarrow> jobject \<Rightarrow> tool_response_rule list \<Rightarrow> tool_definition" where
  "sample_tool name params rules =
     \<lparr>td_Name = name, td_Description = [], td_Parameters = params, td_Responses = rules, td_Validate = True, td_ErrorRate = 0\<rparr>"

definition sample_call :: "string \<Rightarrow> jobject \<Rightarrow> tool_call_spec" where
  "sample_call name args = \<lparr>tc_Name = name, tc_Arguments = args, tc_RawArguments = []\<rparr>"

definition sample_calls :: "tool_call_spec list" where
  "sample_calls = [sample_call ''a'' [], sample_call ''nope'' [], sample_call ''a'' []]"

theorem ProcessToolCalls_schedule_free_witness:
  "ProcessToolCalls [2, 0, 1] (\<lambda>i. (''id'', None)) sample_calls [sample_tool ''a'' [] []]
     = ProcessToolCalls [0, 1, 2] (\<lambda>i. (''id'', None)) sample_calls [sample_tool ''a'' [] []]
   \<and> snd (ProcessToolCalls [2, 0, 1] (\<lambda>i. (''id'', None)) sample_calls [sample_tool ''a'' [] []])
       = Some (ErrToolNotFound ''nope'')"
proof -
  have "{..<length sample_calls} = {0, 1, 2}" by (auto simp: sample_calls_def)
  moreover have "snd (ProcessToolCalls [2, 0, 1] (\<lambda>i. (''id'', None)) sample_calls [sample_tool ''a'' [] []])
       = Some (ErrToolNotFound ''nope'')" by code_simp
  ultimately show ?thesis
    using ProcessToolCalls_schedule_free [of "[2, 0, 1]" sample_calls] ProcessToolCalls_schedule_free [of "[0, 1, 2]" sample_calls]
    by (simp add: insert_commute)
qed

text \<open>
  The response rule chosen for a call is the first non-default rule whose criteria are non-empty and
  all hold of the arguments, compared as decoded JSON values; failing that the last default rule;
  failing that nothing.
\<close>
theorem resolveToolResponse_first_match:
  "resolveToolResponse rules args =
     (case find (\<lambda>r. \<not> trr_IsDefault r \<and> trr_Match r \<noteq> [] \<and>
                     (\<forall>(key, expected) \<in> set (trr_Match r). \<exists>actual. map_of args key = Some actual \<and> EqualScalar expected actual)) rules of
        Some r \<Rightarrow> rule_result r
      | None \<Rightarrow> (case find trr_IsDefault (rev rules) of Some r \<Rightarrow> rule_result r | None \<Rightarrow> (JNull, None)))"
  unfolding resolveToolResponse_def resolve_loop_eq matchArgs_iff option.case by (rule refl)

definition sample_rule_for :: "jobject \<Rightarrow> json \<Rightarrow> bool \<Rightarrow> tool_response_rule" where
  "sample_rule_for m resp dflt = \<lparr>trr_Match = m, trr_Response = resp, trr_Error = None, trr_IsDefault = dflt\<rparr>"

theorem resolveToolResponse_first_match_witness:
  "resolveToolResponse
     [sample_rule_for [] (JStr ''default'') True, sample_rule_for [(''n'', JInt 1)] (JStr ''one'') False]
     [(''n'', JFloat64 (Fin 1))] = (JStr ''one'', None)"
  unfolding resolveToolResponse_first_match
  by (simp add: sample_rule_for_def rule_result_def EqualScalar.simps f64_of_int_exact)

text \<open>
  C37. Only a proper call succeeds: if the \<open>i\<close>-th result of a batch is not an error, the \<open>i\<close>-th call named
  a declared tool (the last one of that name counts), the response rules chose no declared error for
  its arguments, and, when the tool validates its parameters and its schema is an object schema, the
  arguments conform to the schema.
\<close>
theorem ProcessToolCalls_success_conforms:
  assumes "distinct sched" "set sched = {..<length calls}" "i < length calls"
    and "\<not> tcr_IsError (fst (ProcessToolCalls sched rnd calls tools) ! i)"
  shows "\<exists>tool. find (\<lambda>t. td_Name t = tc_Name (calls ! i)) (rev tools) = Some tool
    \<and> (td_Validate tool \<longrightarrow> str_field (td_Parameters tool) ''type'' = ''object''
         \<longrightarrow> conforms_object (td_Parameters tool) (tc_Arguments (calls ! i)))
    \<and> snd (resolveToolResponse (td_Responses tool) (tc_Arguments (calls ! i))) = None"
proof -
  have "fst (ProcessToolCalls sched rnd calls tools) ! i = fst (processOne (rnd i) (calls ! i) (indexTools tools))"
    using ProcessToolCalls_eq [OF assms(1,2)] assms(3) by (simp add: results_of_def)
  with assms(4) have "\<not> tcr_IsError (fst (processOne (rnd i) (calls ! i) (indexTools tools)))" by simp
  from processOne_ok [OF this] show ?thesis by (simp only: indexTools_eq)
qed

theorem ProcessToolCalls_success_conforms_witness:
  "conforms_object sample_schema [(''city'', JStr ''Oslo'')]"
proof -
  let ?calls = "[sample_call ''w'' [(''city'', JStr ''Oslo'')]]"
  have "\<not> tcr_IsError (fst (ProcessToolCalls [0] (\<lambda>i. (''id'', None)) ?calls [sample_tool ''w'' sample_schema []]) ! 0)"
    by code_simp
  moreover have "str_field sample_schema ''type'' = ''object''" by code_simp
  ultimately show ?thesis
    using ProcessToolCalls_success_conforms
      [of "[0]" ?calls 0 "\<lambda>i. (''id'', None)" "[sample_tool ''w'' sample_schema []]"]
    by (auto simp: sample_tool_def sample_call_def)
qed

end
