(* ===== verification/Request_Types.thy ===== *)
theory Request_Types
  imports Tool_Schema
begin

text \<open>
  The protocol-neutral request of \<^verbatim>\<open>internal/engine/engine.go\<close> and the violations of
  \<^verbatim>\<open>internal/engine/strict.go\<close>. A violation or warning is a constructor carrying what the code
  puts into its fields and its message text.
\<close>

record echoed_tool_call =
  et_ID :: string
  et_Name :: string
  et_Arguments :: jobject
  et_RawArguments :: string

record request_message =
  rm_Role :: string
  rm_Content :: string
  rm_ImageCount :: int
  rm_IsToolResult :: bool
  rm_ToolCalls :: "echoed_tool_call list"
  rm_ToolResultIDs :: "string list"

record tool_choice =
  tch_None :: bool
  tch_Required :: bool
  tch_Name :: string
  tch_AllowedNames :: "string list"
  tch_ParallelDisabled :: bool

record strict_function =
  sf_Index :: int
  sf_Name :: string
  sf_Parameters :: jobject

record inbound_request =
  ir_AgentName :: string
  ir_Model :: string
  ir_SessionID :: string
  ir_Messages :: "request_message list"
  ir_Stream :: bool
  ir_ToolChoice :: tool_choice
  ir_RequestToolNames :: "string list"
  ir_StrictFunctions :: "strict_function list"
  ir_WireProtocol :: string
  ir_PriorTurns :: int

text \<open>
  \<open>OrphanResult i id\<close> and \<open>UnknownResult i id unanswered\<close> name the offending message; the id of an
  orphan is empty when the result carried none.
\<close>

datatype strict_violation =
    OrphanResult nat string
  | UnknownResult nat string "string list"
  | UnansweredCalls "string list"
  | UnknownToolChoice string
  | InvalidSchema int string strict_error

datatype strict_warning =
    Violated strict_violation
  | ForcedNotEmitted string
  | RequiredButNoTools
  | RequiredButNoCall string
  | OutsideAllowedNames string string
  | ParallelCallsEmitted nat

definition user_message :: "string \<Rightarrow> request_message" where
  "user_message content = \<lparr>rm_Role = ''user'', rm_Content = content, rm_ImageCount = 0, rm_IsToolResult = False,
     rm_ToolCalls = [], rm_ToolResultIDs = []\<rparr>"

definition free_choice :: tool_choice where
  "free_choice = \<lparr>tch_None = False, tch_Required = False, tch_Name = [], tch_AllowedNames = [], tch_ParallelDisabled = False\<rparr>"

definition simple_request :: "string \<Rightarrow> string \<Rightarrow> request_message list \<Rightarrow> inbound_request" where
  "simple_request agent sid msgs = \<lparr>ir_AgentName = agent, ir_Model = [], ir_SessionID = sid, ir_Messages = msgs,
     ir_Stream = False, ir_ToolChoice = free_choice, ir_RequestToolNames = [], ir_StrictFunctions = [],
     ir_WireProtocol = [], ir_PriorTurns = 0\<rparr>"

end
