(* ===== verification/Response_Generator.thy ===== *)
theory Response_Generator
  imports Tool_Processor Request_Types "HOL-Library.Word"
begin

unbundle bit_operations_syntax

text \<open>
  \<^verbatim>\<open>internal/engine/response_generator.go\<close>: turning a scenario into a response, with the cache of
  parsed templates, and the template functions that draw random data. Go's \<^verbatim>\<open>text/template\<close> is a
  parameter (\<open>parse\<close>, \<open>execute\<close>); so is what \<^verbatim>\<open>crypto/rand\<close> yields, None when the source fails.
\<close>

section \<open>Responses\<close>

record response =
  rs_AgentName :: string
  rs_Model :: string
  rs_Content :: string
  rs_ToolCalls :: "tool_call_spec list"
  rs_ToolResults :: "tool_call_result list"
  rs_ScenarioName :: string
  rs_SystemPrompt :: string
  rs_Metadata :: jobject
  rs_FinishReason :: string
  rs_Refusal :: string
  rs_Hallucination :: "hallucination_spec option"
  rs_StrictWarnings :: "strict_warning list"

record template_context =
  tx_Agent :: agent_definition
  tx_Message :: string
  tx_TurnNumber :: int
  tx_SessionID :: string
  tx_Now :: instant
  tx_Vars :: jobject
  tx_Match :: "(string \<times> string) list"

datatype render_error = ParsingTemplate string | ExecutingTemplate string | RenderingScenario string render_error

type_synonym 't template_cache = "string \<rightharpoonup> 't"

definition renderContent ::
  "(string \<Rightarrow> string + 't) \<Rightarrow> ('t \<Rightarrow> template_context \<Rightarrow> string + string) \<Rightarrow> string \<Rightarrow> template_context
     \<Rightarrow> 't template_cache \<Rightarrow> (render_error + string) \<times> 't template_cache" where
  "renderContent parse execute content ctx cache =
     (if \<not> strings_Contains content ''{{'' then (Inr content, cache)
      else
        let looked = (case cache content of Some tmpl \<Rightarrow> Inr (tmpl, cache)
                      | None \<Rightarrow> (case parse content of
                                   Inl e \<Rightarrow> Inl (ParsingTemplate e)
                                 | Inr tmpl \<Rightarrow> Inr (tmpl, cache(content \<mapsto> tmpl))))
        in case looked of
             Inl e \<Rightarrow> (Inl e, cache)
           | Inr (tmpl, cache') \<Rightarrow>
               (case execute tmpl ctx of Inl e \<Rightarrow> (Inl (ExecutingTemplate e), cache') | Inr s \<Rightarrow> (Inr s, cache')))"

definition Generate ::
  "(string \<Rightarrow> string + 't) \<Rightarrow> ('t \<Rightarrow> template_context \<Rightarrow> string + string) \<Rightarrow> agent_definition \<Rightarrow> scenario
     \<Rightarrow> template_context \<Rightarrow> 't template_cache \<Rightarrow> (render_error + response) \<times> 't template_cache" where
  "Generate parse execute agent sc ctx cache =
     (let resp = sc_Response sc; (r, cache') = renderContent parse execute (sr_Content resp) ctx cache
      in case r of
           Inl e \<Rightarrow> (Inl (RenderingScenario (sc_Name sc) e), cache')
         | Inr content \<Rightarrow>
             (Inr \<lparr>rs_AgentName = agent_name agent, rs_Model = agent_model agent, rs_Content = content,
                   rs_ToolCalls = sr_ToolCalls resp, rs_ToolResults = [], rs_ScenarioName = sc_Name sc,
                   rs_SystemPrompt = as_SystemPrompt (ad_Spec agent), rs_Metadata = sr_Metadata resp,
                   rs_FinishReason = sr_FinishReason resp, rs_Refusal = sr_Refusal resp,
                   rs_Hallucination = sr_Hallucination resp, rs_StrictWarnings = []\<rparr>, cache'))"

section \<open>Random template functions\<close>

text \<open>
  \<^verbatim>\<open>rand.Int\<close> panics on a bound that is not positive; the template engine turns a panic of a called
  function into an execution error. \<open>draw\<close> gives the value below the bound, None when the source fails.
\<close>

datatype 'a go_call = Returns 'a | Panics

definition rand_Int :: "(int \<Rightarrow> int option) \<Rightarrow> int \<Rightarrow> int option go_call" where
  "rand_Int draw n = (if n \<le> 0 then Panics else Returns (draw n))"

definition randomInt :: "(int \<Rightarrow> int option) \<Rightarrow> int \<Rightarrow> int \<Rightarrow> int go_call" where
  "randomInt draw mn mx =
     (if mx \<le> mn then Returns mn
      else case rand_Int draw (int64 (mx - mn + 1)) of
             Panics \<Rightarrow> Panics
           | Returns None \<Rightarrow> Returns mn
           | Returns (Some n) \<Rightarrow> Returns (int64 (mn + n)))"

definition maxRandomStringLen :: int where "maxRandomStringLen = 4096"

definition charset :: string where
  "charset = ''abcdefghijklmnopqrstuvwxyzABCDEFGHIJKLMNOPQRSTUVWXYZ0123456789''"

definition randomString :: "(nat \<Rightarrow> nat option) \<Rightarrow> int \<Rightarrow> string" where
  "randomString draw len =
     (if len \<le> 0 then []
      else let n = (if maxRandomStringLen < len then maxRandomStringLen else len)
           in map (\<lambda>i. case draw i of None \<Rightarrow> CHR ''x'' | Some k \<Rightarrow> charset ! k) [0..<nat n])"

definition randomFloat :: "nat option \<Rightarrow> rat \<Rightarrow> rat \<Rightarrow> rat" where
  "randomFloat draw mn mx =
     (if mx \<le> mn then mn
      else case draw of None \<Rightarrow> mn | Some k \<Rightarrow> mn + (mx - mn) * of_nat k / 1000000)"

definition randomChoice :: "nat option \<Rightarrow> json list \<Rightarrow> json" where
  "randomChoice draw args =
     (if args = [] then JStr [] else case draw of None \<Rightarrow> args ! 0 | Some n \<Rightarrow> args ! n)"

definition hex_digit :: "nat \<Rightarrow> char" where
  "hex_digit n = ''0123456789abcdef'' ! n"

definition hex_Encode :: "8 word list \<Rightarrow> string" where
  "hex_Encode bs = concat (map (\<lambda>b. [hex_digit (unat b div 16), hex_digit (unat b mod 16)]) bs)"

definition generateUUID :: "8 word list option \<Rightarrow> string" where
  "generateUUID rnd =
     (case rnd of
        None \<Rightarrow> ''00000000-0000-0000-0000-000000000000''
      | Some b0 \<Rightarrow>
          let b1 = b0[6 := (b0 ! 6 AND 0x0f) OR 0x40];
              b = b1[8 := (b1 ! 8 AND 0x3f) OR 0x80]
          in hex_Encode (take 4 b) @ ''-'' @ hex_Encode (take 2 (drop 4 b)) @ ''-'' @ hex_Encode (take 2 (drop 6 b))
             @ ''-'' @ hex_Encode (take 2 (drop 8 b)) @ ''-'' @ hex_Encode (take 6 (drop 10 b)))"

section \<open>Lemmas\<close>

definition template_cache_ok :: "(string \<Rightarrow> string + 't) \<Rightarrow> 't template_cache \<Rightarrow> bool" where
  "template_cache_ok parse cache \<longleftrightarrow> (\<forall>content tmpl. cache content = Some tmpl \<longrightarrow> parse content = Inr tmpl)"

definition render_spec :: "(string \<Rightarrow> string + 't) \<Rightarrow> ('t \<Rightarrow> template_context \<Rightarrow> string + string) \<Rightarrow> string
    \<Rightarrow> template_context \<Rightarrow> render_error + string" where
  "render_spec parse execute content ctx =
     (if \<not> strings_Contains content ''{{'' then Inr content
      else case parse content of
             Inl e \<Rightarrow> Inl (ParsingTemplate e)
           | Inr tmpl \<Rightarrow> (case execute tmpl ctx of Inl e \<Rightarrow> Inl (ExecutingTemplate e) | Inr s \<Rightarrow> Inr s))"

lemma renderContent_spec:
  assumes "template_cache_ok parse cache"
  shows "fst (renderContent parse execute content ctx cache) = render_spec parse execute content ctx"
    and "template_cache_ok parse (snd (renderContent parse execute content ctx cache))"
  using assms
  by (auto simp: renderContent_def render_spec_def template_cache_ok_def Let_def split: option.splits sum.splits)

definition uuid_char :: "nat \<Rightarrow> char \<Rightarrow> bool" where
  "uuid_char i c \<longleftrightarrow>
     (if i \<in> {8, 13, 18, 23} then c = CHR ''-''
      else if i = 14 then c = CHR ''4''
      else if i = 19 then c \<in> set ''89ab''
      else c \<in> set ''0123456789abcdef'')"

lemma hex_digit_in: "n < 16 \<Longrightarrow> hex_digit n \<in> set ''0123456789abcdef''"
  unfolding hex_digit_def by (rule nth_mem) simp

definition uuid_v4 :: "string \<Rightarrow> bool" where
  "uuid_v4 s \<longleftrightarrow> list_all2 uuid_char [0..<36] s"

lemma version_nibble: "unat ((x AND 0x0f) OR 0x40 :: 8 word) div 16 = 4"
proof -
  have "unat ((x AND 0x0f) OR 0x40 :: 8 word) div 16 = unat (drop_bit 4 ((x AND 0x0f) OR 0x40 :: 8 word))"
    by (simp add: unat_div drop_bit_eq_div)
  also have "drop_bit 4 ((x AND 0x0f) OR 0x40 :: 8 word) = 4"
    by (rule bit_word_eqI) (auto simp: bit_simps)
  finally show ?thesis by simp
qed

lemma variant_nibble: "unat ((x AND 0x3f) OR 0x80 :: 8 word) div 16 \<in> {8, 9, 10, 11}"
proof -
  let ?y = "(x AND 0x3f) OR 0x80 :: 8 word"
  have "drop_bit 6 ?y = 2" by (rule bit_word_eqI) (auto simp: bit_simps)
  then have "unat ?y div 64 = 2" by (simp add: drop_bit_eq_div flip: unat_div [where 'a = 8, of _ 64, simplified])
  then show ?thesis by auto
qed

lemma hex_pair: "hex_Encode (b # bs) = hex_digit (unat b div 16) # hex_digit (unat b mod 16) # hex_Encode bs"
  by (simp add: hex_Encode_def)

lemma hex_Nil [simp]: "hex_Encode [] = []"
  by (simp add: hex_Encode_def)

lemma hex_hi: "hex_digit (unat (b :: 8 word) div 16) \<in> set ''0123456789abcdef''"
proof -
  have "unat b < 2 ^ LENGTH(8)" by (rule unsigned_less)
  then have "unat b div 16 < 16" by (simp add: less_mult_imp_div_less)
  then show ?thesis by (rule hex_digit_in)
qed

lemma hex_lo: "hex_digit (unat (b :: 8 word) mod 16) \<in> set ''0123456789abcdef''"
  by (rule hex_digit_in) simp

lemma version_digit: "hex_digit (unat ((x AND 0x0f) OR 0x40 :: 8 word) div 16) = CHR ''4''"
  by (simp only: version_nibble) code_simp

lemma variant_digit: "hex_digit (unat ((x AND 0x3f) OR 0x80 :: 8 word) div 16) \<in> set ''89ab''"
proof -
  have "hex_digit 8 \<in> set ''89ab''" "hex_digit 9 \<in> set ''89ab''" "hex_digit 10 \<in> set ''89ab''" "hex_digit 11 \<in> set ''89ab''"
    by code_simp+
  then show ?thesis using variant_nibble [of x] by (metis empty_iff insert_iff)
qed

lemma list16:
  assumes "length xs = 16"
  obtains x0 x1 x2 x3 x4 x5 x6 x7 x8 x9 x10 x11 x12 x13 x14 x15
  where "xs = [x0, x1, x2, x3, x4, x5, x6, x7, x8, x9, x10, x11, x12, x13, x14, x15]"
  using assms by (auto simp: numeral_eq_Suc length_Suc_conv)

lemma uuid_of_bytes:
  "uuid_v4 (generateUUID (Some [x0, x1, x2, x3, x4, x5, x6, x7, x8, x9, x10, x11, x12, x13, x14, x15]))"
proof -
  let ?v = "(x6 AND 0x0f) OR 0x40" and ?w = "(x8 AND 0x3f) OR 0x80"
  have "generateUUID (Some [x0, x1, x2, x3, x4, x5, x6, x7, x8, x9, x10, x11, x12, x13, x14, x15]) =
      hex_Encode [x0, x1, x2, x3] @ ''-'' @ hex_Encode [x4, x5] @ ''-'' @ hex_Encode [?v, x7] @ ''-''
      @ hex_Encode [?w, x9] @ ''-'' @ hex_Encode [x10, x11, x12, x13, x14, x15]"
    by (simp add: generateUUID_def Let_def)
  moreover have "[0..<36] = [0, 1, 2, 3, 4, 5, 6, 7, 8, 9, 10, 11, 12, 13, 14, 15, 16, 17, 18, 19, 20, 21, 22,
      23, 24, 25, 26, 27, 28, 29, 30, 31, 32, 33, 34, 35]" by (simp add: upt_conv_Cons)
  ultimately show ?thesis
    unfolding uuid_v4_def hex_pair hex_Nil
    by (simp only: list_all2_Cons list_all2_Nil append.simps uuid_char_def version_digit)
       (use hex_hi hex_lo variant_digit in simp)
qed

lemma randomInt_range:
  assumes "in_int64 mn" "in_int64 mx" "in_int64 (mx - mn + 1)"
    and "\<And>n v. draw n = Some v \<Longrightarrow> 0 \<le> v \<and> v < n"
  shows "\<exists>v. randomInt draw mn mx = Returns v \<and> mn \<le> v \<and> v \<le> max mn mx"
proof (cases "mx \<le> mn")
  case False
  have b: "int64 (mx - mn + 1) = mx - mn + 1" by (rule int64_id [OF assms(3)])
  show ?thesis
  proof (cases "draw (mx - mn + 1)")
    case (Some v)
    have v: "0 \<le> v" "v \<le> mx - mn" using assms(4) [OF Some] by simp_all
    have "in_int64 (mn + v)" using v assms(1,2) False by (simp add: in_int64_def)
    then show ?thesis using Some v False b by (simp add: randomInt_def rand_Int_def int64_id)
  qed (use False b in \<open>simp add: randomInt_def rand_Int_def\<close>)
qed (simp add: randomInt_def)

section \<open>Properties\<close>

text \<open>
  C39. The template cache never changes what is rendered: with any correct cache the content is what
  parsing and executing the template afresh gives, text without \<open>{{\<close> is passed through, errors name
  the scenario, and the cache stays correct. On success the response carries the scenario's tool
  calls and overrides and the agent's name and model.
\<close>
theorem Generate_cache_transparent:
  assumes "template_cache_ok parse cache"
  shows "template_cache_ok parse (snd (Generate parse execute agent sc ctx cache))
    \<and> (case fst (Generate parse execute agent sc ctx cache) of
         Inl err \<Rightarrow> \<exists>e. render_spec parse execute (sr_Content (sc_Response sc)) ctx = Inl e
                      \<and> err = RenderingScenario (sc_Name sc) e
       | Inr resp \<Rightarrow> render_spec parse execute (sr_Content (sc_Response sc)) ctx = Inr (rs_Content resp)
                      \<and> rs_ToolCalls resp = sr_ToolCalls (sc_Response sc) \<and> rs_ScenarioName resp = sc_Name sc
                      \<and> rs_AgentName resp = agent_name agent \<and> rs_Model resp = agent_model agent
                      \<and> rs_FinishReason resp = sr_FinishReason (sc_Response sc))"
  using renderContent_spec [OF assms, of execute "sr_Content (sc_Response sc)" ctx]
  by (auto simp: Generate_def Let_def split: prod.splits sum.splits)

definition sample_ctx :: template_context where
  "sample_ctx = \<lparr>tx_Agent = sample_agent [] ''a'' ''m'' [] None, tx_Message = ''hi'', tx_TurnNumber = 1,
     tx_SessionID = [], tx_Now = 0, tx_Vars = [], tx_Match = []\<rparr>"

definition sample_template :: scenario where
  "sample_template = \<lparr>sc_Name = ''s'', sc_Match = None, sc_Response = \<lparr>sr_Content = ''{{x'', sr_ToolCalls = [],
     sr_Metadata = [], sr_FinishReason = [], sr_Refusal = [], sr_Hallucination = None\<rparr>\<rparr>"

theorem Generate_cache_transparent_witness:
  "\<exists>resp. fst (Generate (\<lambda>c. Inr c) (\<lambda>t ctx. Inr (tl (tl t))) (tx_Agent sample_ctx) sample_template sample_ctx
       (Map.empty(''{{x'' \<mapsto> ''{{x''))) = Inr resp \<and> rs_Content resp = ''x''"
proof -
  let ?g = "fst (Generate (\<lambda>c. Inr c) (\<lambda>t ctx. Inr (tl (tl t))) (tx_Agent sample_ctx) sample_template sample_ctx
       (Map.empty(''{{x'' \<mapsto> ''{{x'')))"
  have ok: "template_cache_ok (\<lambda>c. Inr c) (Map.empty(''{{x'' \<mapsto> ''{{x''))" by (simp add: template_cache_ok_def)
  have c: "strings_Contains ''{{x'' ''{{''" by code_simp
  show ?thesis
    using Generate_cache_transparent [OF ok, of "\<lambda>t ctx. Inr (tl (tl t))" "tx_Agent sample_ctx" sample_template sample_ctx] c
    by (cases ?g) (auto simp: render_spec_def sample_template_def)
qed

text \<open>
  C40. Every identifier drawn by the template function \<open>uuid\<close> is a well-formed version-4 UUID: 36
  characters, dashes at the canonical places, version digit 4, variant digit 8, 9, a or b, and
  lower-case hexadecimal digits elsewhere, whatever sixteen bytes the random source gives.
\<close>
theorem generateUUID_v4:
  assumes "length b = 16"
  shows "uuid_v4 (generateUUID (Some b))"
proof -
  obtain x0 x1 x2 x3 x4 x5 x6 x7 x8 x9 x10 x11 x12 x13 x14 x15
    where "b = [x0, x1, x2, x3, x4, x5, x6, x7, x8, x9, x10, x11, x12, x13, x14, x15]"
    using assms by (rule list16)
  then show ?thesis by (simp only: uuid_of_bytes)
qed

theorem generateUUID_v4_witness: "uuid_v4 (generateUUID (Some (replicate 16 0xff)))"
  by (rule generateUUID_v4) simp

text \<open>
  \<open>random_int\<close> stays in its inclusive range and does not panic as long as the width of the range
  fits the machine integer, and \<open>random_string\<close> never exceeds 4096 characters.
\<close>
theorem random_functions_bounded:
  assumes "in_int64 mn" "in_int64 mx" "in_int64 (mx - mn + 1)"
    and "\<And>n v. draw n = Some v \<Longrightarrow> 0 \<le> v \<and> v < n"
  shows "(\<exists>v. randomInt draw mn mx = Returns v \<and> mn \<le> v \<and> v \<le> max mn mx) \<and> length (randomString sdraw len) \<le> 4096"
proof
  show "\<exists>v. randomInt draw mn mx = Returns v \<and> mn \<le> v \<and> v \<le> max mn mx" by (rule randomInt_range [OF assms])
  show "length (randomString sdraw len) \<le> 4096" by (auto simp: randomString_def maxRandomStringLen_def Let_def)
qed

theorem random_functions_bounded_witness:
  "\<exists>v. randomInt (\<lambda>n. if 3 < n then Some 3 else None) 10 20 = Returns v \<and> 10 \<le> v \<and> v \<le> 20"
proof -
  have r: "in_int64 10" "in_int64 20" "in_int64 (20 - 10 + 1)" by (simp_all add: in_int64_def)
  have d: "0 \<le> v \<and> v < n" if "(if 3 < n then Some 3 else None) = Some v" for n v :: int
    using that by (simp split: if_splits)
  show ?thesis using conjunct1 [OF random_functions_bounded [OF r d]] by simp
qed

text \<open>A range wider than the machine integer wraps the bound below zero, and the draw panics.\<close>

theorem randomInt_wide_range_panics: "randomInt draw (- (2 ^ 63)) (2 ^ 63 - 1) = Panics"
  by (simp add: randomInt_def rand_Int_def int64_def)
end
