(* ===== verification/Strict_Tools.thy ===== *)
theory Strict_Tools
  imports Response_Generator
begin

text \<open>
  \<^verbatim>\<open>internal/engine/strict.go\<close>: the strict-tools knob. Round-trip ids of tool calls and results, a
  named tool choice, schemas of strict functions, and the forcing of tool calls after generation.
\<close>

section \<open>Modes\<close>

datatype StrictMode = StrictOff | StrictWarn | StrictEnforce

record strict_tool_modes =
  sm_IDs :: StrictMode
  sm_ToolChoice :: StrictMode
  sm_Schemas :: StrictMode

definition Any :: "strict_tool_modes \<Rightarrow> bool" where
  "Any m = (sm_IDs m \<noteq> StrictOff \<or> sm_ToolChoice m \<noteq> StrictOff \<or> sm_Schemas m \<noteq> StrictOff)"

definition ParseStrictLevel :: "string \<Rightarrow> StrictMode" where
  "ParseStrictLevel s =
     (let l = strings_ToLower (strings_TrimSpace s)
      in if l = ''warn'' then StrictWarn
         else if l = ''strict'' \<or> l = ''1'' \<or> l = ''true'' then StrictEnforce
         else StrictOff)"

definition resolveStrictTools :: "strict_tools_config option \<Rightarrow> StrictMode \<Rightarrow> strict_tool_modes" where
  "resolveStrictTools cfg envLevel =
     (case cfg of
        None \<Rightarrow> \<lparr>sm_IDs = envLevel, sm_ToolChoice = envLevel, sm_Schemas = envLevel\<rparr>
      | Some c \<Rightarrow>
          let level = (if stc_Level c \<noteq> [] then ParseStrictLevel (stc_Level c) else StrictEnforce);
              dim = (\<lambda>enabled. if enabled = Some False then StrictOff else level)
          in \<lparr>sm_IDs = dim (stc_IDs c), sm_ToolChoice = dim (stc_ToolChoice c), sm_Schemas = dim (stc_Schemas c)\<rparr>)"

definition StrictToolsFor :: "StrictMode \<Rightarrow> agent_definition option \<Rightarrow> strict_tool_modes" where
  "StrictToolsFor envStrictLevel agent =
     resolveStrictTools (case agent of None \<Rightarrow> None | Some a \<Rightarrow> bc_StrictTools (agent_behavior a)) envStrictLevel"

section \<open>Round-trip ids\<close>

text \<open>The state of the loop over the messages; maps from ids to true are sets of ids.\<close>

record roundtrip =
  rt_echoed :: "string list"
  rt_answered :: "string list"
  rt_echoedOrder :: "string list"
  rt_anyCalls :: bool
  rt_firstUnknown :: "(nat \<times> string) option"

definition rt_init :: roundtrip where
  "rt_init = \<lparr>rt_echoed = [], rt_answered = [], rt_echoedOrder = [], rt_anyCalls = False, rt_firstUnknown = None\<rparr>"

definition answer_id :: "nat \<Rightarrow> string \<Rightarrow> roundtrip \<Rightarrow> roundtrip" where
  "answer_id i sid st =
     (let st1 = st\<lparr>rt_answered := sid # rt_answered st\<rparr>
      in if sid \<notin> set (rt_echoed st1) \<and> rt_firstUnknown st1 = None
         then st1\<lparr>rt_firstUnknown := Some (i, sid)\<rparr> else st1)"

definition echo_call :: "bool \<Rightarrow> echoed_tool_call \<Rightarrow> roundtrip \<Rightarrow> roundtrip" where
  "echo_call trailing tc st =
     (let st1 = st\<lparr>rt_anyCalls := True\<rparr>
      in if et_ID tc \<noteq> [] \<and> et_ID tc \<notin> set (rt_echoed st1)
         then st1\<lparr>rt_echoed := et_ID tc # rt_echoed st1,
                  rt_echoedOrder := (if trailing then rt_echoedOrder st1 else rt_echoedOrder st1 @ [et_ID tc])\<rparr>
         else st1)"

definition orphan_id :: "request_message \<Rightarrow> string" where
  "orphan_id m = (if rm_ToolResultIDs m \<noteq> [] then hd (rm_ToolResultIDs m) else [])"

fun roundtrip_loop :: "nat \<Rightarrow> nat \<Rightarrow> request_message list \<Rightarrow> roundtrip \<Rightarrow> strict_violation + roundtrip" where
  "roundtrip_loop n i [] st = Inr st"
| "roundtrip_loop n i (m # msgs) st =
     (if rm_IsToolResult m \<and> \<not> rt_anyCalls st
      then Inl (OrphanResult i (orphan_id m))
      else
        let st1 = (if rm_IsToolResult m then fold (answer_id i) (rm_ToolResultIDs m) st else st);
            st2 = fold (echo_call (\<not> (i < n - 1))) (rm_ToolCalls m) st1
        in roundtrip_loop n (Suc i) msgs st2)"

definition validateRoundTripIDs :: "request_message list \<Rightarrow> strict_violation option" where
  "validateRoundTripIDs msgs =
     (case roundtrip_loop (length msgs) 0 msgs rt_init of
        Inl v \<Rightarrow> Some v
      | Inr st \<Rightarrow>
          let unanswered = filter (\<lambda>sid. sid \<notin> set (rt_answered st)) (rt_echoedOrder st)
          in (case rt_firstUnknown st of
                Some (i, sid) \<Rightarrow> Some (UnknownResult i sid unanswered)
              | None \<Rightarrow> if unanswered \<noteq> [] then Some (UnansweredCalls unanswered) else None))"

section \<open>Tool choice and schemas\<close>

definition validateToolChoiceName :: "tool_choice \<Rightarrow> string list \<Rightarrow> strict_violation option" where
  "validateToolChoiceName tc requestToolNames =
     (if tch_Name tc = [] \<or> requestToolNames = [] \<or> tch_Name tc \<in> set requestToolNames then None
      else Some (UnknownToolChoice (tch_Name tc)))"

definition validateStrictFunctionSchema :: "strict_function \<Rightarrow> strict_violation option" where
  "validateStrictFunctionSchema sf =
     (case ValidateStrictSubset (sf_Parameters sf) of
        [] \<Rightarrow> None
      | err # _ \<Rightarrow> Some (InvalidSchema (sf_Index sf) (sf_Name sf) err))"

definition firstToolName :: "string list \<Rightarrow> string list \<Rightarrow> agent_definition option \<Rightarrow> string" where
  "firstToolName allowedNames requestToolNames agent =
     (if allowedNames \<noteq> [] then hd allowedNames
      else if requestToolNames \<noteq> [] then hd requestToolNames
      else case agent of
             Some a \<Rightarrow> if as_Tools (ad_Spec a) \<noteq> [] then td_Name (hd (as_Tools (ad_Spec a))) else []
           | None \<Rightarrow> [])"

definition synthesize :: "string \<Rightarrow> response \<Rightarrow> response" where
  "synthesize name resp =
     resp\<lparr>rs_ToolCalls := [\<lparr>tc_Name = name, tc_Arguments = [], tc_RawArguments = []\<rparr>], rs_Content := []\<rparr>"

definition allowed_name :: "tool_choice \<Rightarrow> string \<Rightarrow> bool" where
  "allowed_name tc name = (tch_AllowedNames tc = [] \<or> name \<in> set (tch_AllowedNames tc))"

text \<open>The forcing switch: the response, whether the call counts as forced, and the warnings.\<close>

definition force_call ::
  "tool_choice \<Rightarrow> StrictMode \<Rightarrow> response \<Rightarrow> agent_definition \<Rightarrow> string list \<Rightarrow> response \<times> bool \<times> strict_warning list" where
  "force_call tc mode resp agent requestToolNames =
     (let calls = rs_ToolCalls resp in
      if tch_Name tc \<noteq> [] \<and> (calls = [] \<or> tc_Name (hd calls) \<noteq> tch_Name tc) then
        (if mode = StrictEnforce then (synthesize (tch_Name tc) resp, True, [])
         else (resp, False, [ForcedNotEmitted (tch_Name tc)]))
      else if tch_Name tc = [] \<and> calls = [] then
        (let name = firstToolName (tch_AllowedNames tc) requestToolNames (Some agent) in
         if name = [] then (resp, False, [RequiredButNoTools])
         else if mode = StrictEnforce then (synthesize name resp, True, [])
         else (resp, False, [RequiredButNoCall name]))
      else if calls \<noteq> [] \<and> \<not> allowed_name tc (tc_Name (hd calls)) then
        (if mode = StrictEnforce then (synthesize (hd (tch_AllowedNames tc)) resp, True, [])
         else (resp, False, [OutsideAllowedNames (tc_Name (hd calls)) (hd (tch_AllowedNames tc))]))
      else (resp, mode = StrictEnforce \<and> calls \<noteq> [], []))"

definition applyStrictToolChoice ::
  "tool_choice \<Rightarrow> StrictMode \<Rightarrow> response \<Rightarrow> agent_definition \<Rightarrow> string list \<Rightarrow> string \<Rightarrow> response \<times> strict_warning list" where
  "applyStrictToolChoice tc mode resp agent requestToolNames wireProtocol =
     (if tch_None tc \<or> mode = StrictOff then (resp, [])
      else
        let (resp1, warn1) =
              (if tch_Required tc
               then let (r, forced, w) = force_call tc mode resp agent requestToolNames;
                        protocol = (if wireProtocol = [] then as_Protocol (ad_Spec agent) else wireProtocol)
                    in (if forced \<and> rs_FinishReason r = [] \<and> strings_HasPrefix protocol ''openai''
                        then r\<lparr>rs_FinishReason := ''stop''\<rparr> else r, w)
               else (resp, []))
        in if tch_ParallelDisabled tc \<and> 1 < length (rs_ToolCalls resp1) then
             (if mode = StrictEnforce then (resp1\<lparr>rs_ToolCalls := take 1 (rs_ToolCalls resp1)\<rparr>, warn1)
              else (resp1, warn1 @ [ParallelCallsEmitted (length (rs_ToolCalls resp1))]))
           else (resp1, warn1))"

section \<open>Coherent histories\<close>

definition echoed_ids :: "request_message list \<Rightarrow> string set" where
  "echoed_ids ms = {et_ID tc | m tc. m \<in> set ms \<and> tc \<in> set (rm_ToolCalls m) \<and> et_ID tc \<noteq> []}"

definition answered_ids :: "request_message list \<Rightarrow> string set" where
  "answered_ids ms = {sid | m sid. m \<in> set ms \<and> rm_IsToolResult m \<and> sid \<in> set (rm_ToolResultIDs m)}"

definition has_calls :: "request_message list \<Rightarrow> bool" where
  "has_calls ms \<longleftrightarrow> (\<exists>m \<in> set ms. rm_ToolCalls m \<noteq> [])"

definition result_ok :: "request_message list \<Rightarrow> request_message \<Rightarrow> bool" where
  "result_ok before m \<longleftrightarrow> (rm_IsToolResult m \<longrightarrow> has_calls before \<and> set (rm_ToolResultIDs m) - {[]} \<subseteq> echoed_ids before)"

definition coherent :: "request_message list \<Rightarrow> bool" where
  "coherent msgs \<longleftrightarrow> (\<forall>i < length msgs. result_ok (take i msgs) (msgs ! i)) \<and> echoed_ids (butlast msgs) \<subseteq> answered_ids msgs"

text \<open>The id that \<open>coherent\<close> skips but the code does not: a result that answers the empty id.\<close>

definition blank_result :: "request_message list \<Rightarrow> bool" where
  "blank_result msgs \<longleftrightarrow> (\<exists>m \<in> set msgs. rm_IsToolResult m \<and> [] \<in> set (rm_ToolResultIDs m))"

lemma echoed_ids_simps [simp]:
  "echoed_ids [] = {}"
  "echoed_ids (xs @ [m]) = echoed_ids xs \<union> {et_ID tc | tc. tc \<in> set (rm_ToolCalls m) \<and> et_ID tc \<noteq> []}"
  by (auto simp: echoed_ids_def)

lemma answered_ids_simps [simp]:
  "answered_ids [] = {}"
  "answered_ids (xs @ [m]) = answered_ids xs \<union> (if rm_IsToolResult m then set (rm_ToolResultIDs m) else {})"
  by (auto simp: answered_ids_def)

lemma has_calls_simps [simp]:
  "\<not> has_calls []" "has_calls (xs @ [m]) \<longleftrightarrow> has_calls xs \<or> rm_ToolCalls m \<noteq> []"
  by (auto simp: has_calls_def)

text \<open>What the loop's state holds after the messages \<open>before\<close> of a history of \<open>n\<close>.\<close>

definition rt_ok :: "nat \<Rightarrow> request_message list \<Rightarrow> roundtrip \<Rightarrow> bool" where
  "rt_ok n before st \<longleftrightarrow>
     set (rt_echoed st) = echoed_ids before \<and> set (rt_answered st) = answered_ids before
     \<and> set (rt_echoedOrder st) = echoed_ids (take (n - 1) before) \<and> (rt_anyCalls st \<longleftrightarrow> has_calls before)
     \<and> (rt_firstUnknown st = None \<longleftrightarrow>
          (\<forall>i < length before. rm_IsToolResult (before ! i) \<longrightarrow> set (rm_ToolResultIDs (before ! i)) \<subseteq> echoed_ids (take i before)))"

lemma fold_answer:
  "rt_echoed (fold (answer_id i) ids st) = rt_echoed st"
  "rt_echoedOrder (fold (answer_id i) ids st) = rt_echoedOrder st"
  "rt_anyCalls (fold (answer_id i) ids st) = rt_anyCalls st"
  "set (rt_answered (fold (answer_id i) ids st)) = set (rt_answered st) \<union> set ids"
  "rt_firstUnknown (fold (answer_id i) ids st) = None \<longleftrightarrow> rt_firstUnknown st = None \<and> set ids \<subseteq> set (rt_echoed st)"
proof (induction ids arbitrary: st)
  case (Cons a ids)
  {
    case 1 then show ?case using Cons.IH(1) [of "answer_id i a st"] by (simp add: answer_id_def Let_def)
  next
    case 2 then show ?case using Cons.IH(2) [of "answer_id i a st"] by (simp add: answer_id_def Let_def)
  next
    case 3 then show ?case using Cons.IH(3) [of "answer_id i a st"] by (simp add: answer_id_def Let_def)
  next
    case 4 then show ?case using Cons.IH(4) [of "answer_id i a st"] by (auto simp: answer_id_def Let_def)
  next
    case 5 then show ?case using Cons.IH(5) [of "answer_id i a st"] by (auto simp: answer_id_def Let_def)
  }
qed simp_all

lemma fold_echo:
  "set (rt_echoed (fold (echo_call tr) tcs st)) = set (rt_echoed st) \<union> {et_ID tc | tc. tc \<in> set tcs \<and> et_ID tc \<noteq> []}"
  "rt_answered (fold (echo_call tr) tcs st) = rt_answered st"
  "rt_firstUnknown (fold (echo_call tr) tcs st) = rt_firstUnknown st"
  "rt_anyCalls (fold (echo_call tr) tcs st) \<longleftrightarrow> rt_anyCalls st \<or> tcs \<noteq> []"
  "tr \<Longrightarrow> rt_echoedOrder (fold (echo_call tr) tcs st) = rt_echoedOrder st"
  "\<not> tr \<Longrightarrow> set (rt_echoedOrder st) = set (rt_echoed st) \<Longrightarrow>
     set (rt_echoedOrder (fold (echo_call tr) tcs st)) = set (rt_echoed st) \<union> {et_ID tc | tc. tc \<in> set tcs \<and> et_ID tc \<noteq> []}"
proof (induction tcs arbitrary: st)
  case (Cons a tcs)
  {
    case 1 then show ?case using Cons.IH(1) [of "echo_call tr a st"] by (auto simp: echo_call_def Let_def)
  next
    case 2 then show ?case using Cons.IH(2) [of "echo_call tr a st"] by (simp add: echo_call_def Let_def)
  next
    case 3 then show ?case using Cons.IH(3) [of "echo_call tr a st"] by (simp add: echo_call_def Let_def)
  next
    case 4 then show ?case using Cons.IH(4) [of "echo_call tr a st"] by (simp add: echo_call_def Let_def)
  next
    case 5 then show ?case using Cons.IH(5) [of "echo_call tr a st"] by (simp add: echo_call_def Let_def)
  next
    case 6
    then have "set (rt_echoedOrder (echo_call tr a st)) = set (rt_echoed (echo_call tr a st))"
      by (auto simp: echo_call_def Let_def)
    with 6 show ?case using Cons.IH(6) [of "echo_call tr a st"] by (auto simp: echo_call_def Let_def)
  }
qed simp_all

definition rt_next :: "nat \<Rightarrow> nat \<Rightarrow> request_message \<Rightarrow> roundtrip \<Rightarrow> roundtrip" where
  "rt_next n i m st = fold (echo_call (\<not> (i < n - 1))) (rm_ToolCalls m)
     (if rm_IsToolResult m then fold (answer_id i) (rm_ToolResultIDs m) st else st)"

lemma rt_next_ok:
  assumes ok: "rt_ok n before st" and len: "length before < n"
  shows "rt_ok n (before @ [m]) (rt_next n (length before) m st)"
proof -
  define st1 where "st1 = (if rm_IsToolResult m then fold (answer_id (length before)) (rm_ToolResultIDs m) st else st)"
  have st1: "rt_echoed st1 = rt_echoed st" "rt_echoedOrder st1 = rt_echoedOrder st" "rt_anyCalls st1 = rt_anyCalls st"
    "set (rt_answered st1) = answered_ids (before @ [m])"
    "rt_firstUnknown st1 = None \<longleftrightarrow> rt_firstUnknown st = None \<and> (rm_IsToolResult m \<longrightarrow> set (rm_ToolResultIDs m) \<subseteq> echoed_ids before)"
    using ok by (auto simp: st1_def fold_answer rt_ok_def)
  have order: "set (rt_echoedOrder (rt_next n (length before) m st)) = echoed_ids (take (n - 1) (before @ [m]))"
  proof (cases "length before < n - 1")
    case True
    then have "set (rt_echoedOrder st1) = set (rt_echoed st1)" using ok by (simp add: st1 rt_ok_def)
    then show ?thesis using True ok fold_echo(6) [of False st1 "rm_ToolCalls m"]
      by (simp add: rt_next_def st1_def [symmetric]) (simp add: st1 rt_ok_def)
  next
    case False
    then have "n - 1 = length before" using len by simp
    then show ?thesis using False ok
      by (simp add: rt_next_def st1_def [symmetric] fold_echo(5)) (simp add: st1 rt_ok_def)
  qed
  have known: "(\<forall>i < length (before @ [m]). rm_IsToolResult ((before @ [m]) ! i) \<longrightarrow>
        set (rm_ToolResultIDs ((before @ [m]) ! i)) \<subseteq> echoed_ids (take i (before @ [m])))
     \<longleftrightarrow> (\<forall>i < length before. rm_IsToolResult (before ! i) \<longrightarrow> set (rm_ToolResultIDs (before ! i)) \<subseteq> echoed_ids (take i before))
        \<and> (rm_IsToolResult m \<longrightarrow> set (rm_ToolResultIDs m) \<subseteq> echoed_ids before)"
    by (auto simp: nth_append less_Suc_eq)
  show ?thesis unfolding rt_ok_def known order
    using ok by (simp add: rt_next_def st1_def [symmetric] fold_echo) (simp add: st1 rt_ok_def)
qed

lemma roundtrip_loop_ok:
  assumes "rt_ok (length (before @ rest)) before st"
  shows "case roundtrip_loop (length (before @ rest)) (length before) rest st of
      Inl v \<Rightarrow> \<exists>i < length (before @ rest). rm_IsToolResult ((before @ rest) ! i) \<and> \<not> has_calls (take i (before @ rest))
        \<and> v = OrphanResult i (orphan_id ((before @ rest) ! i))
    | Inr st' \<Rightarrow> rt_ok (length (before @ rest)) (before @ rest) st'
        \<and> (\<forall>i. length before \<le> i \<longrightarrow> i < length (before @ rest) \<longrightarrow> rm_IsToolResult ((before @ rest) ! i) \<longrightarrow> has_calls (take i (before @ rest)))"
  using assms
proof (induction rest arbitrary: before st)
  case (Cons m rest)
  let ?n = "length (before @ m # rest)" and ?i = "length before"
  show ?case
  proof (cases "rm_IsToolResult m \<and> \<not> rt_anyCalls st")
    case True
    then show ?thesis using Cons.prems by (auto intro!: exI [of _ ?i] simp: rt_ok_def)
  next
    case False
    have eq: "roundtrip_loop ?n ?i (m # rest) st = roundtrip_loop ?n (Suc ?i) rest (rt_next ?n ?i m st)"
      using False by (auto simp: rt_next_def Let_def)
    have m: "rm_IsToolResult m \<longrightarrow> has_calls before" using False Cons.prems by (auto simp: rt_ok_def)
    have "rt_ok ?n (before @ [m]) (rt_next ?n ?i m st)" by (rule rt_next_ok [OF Cons.prems]) simp
    then have IH: "case roundtrip_loop ?n (Suc ?i) rest (rt_next ?n ?i m st) of
      Inl v \<Rightarrow> \<exists>i < ?n. rm_IsToolResult ((before @ m # rest) ! i) \<and> \<not> has_calls (take i (before @ m # rest))
        \<and> v = OrphanResult i (orphan_id ((before @ m # rest) ! i))
    | Inr st' \<Rightarrow> rt_ok ?n (before @ m # rest) st'
        \<and> (\<forall>i. Suc ?i \<le> i \<longrightarrow> i < ?n \<longrightarrow> rm_IsToolResult ((before @ m # rest) ! i) \<longrightarrow> has_calls (take i (before @ m # rest)))"
      using Cons.IH [of "before @ [m]" "rt_next ?n ?i m st"] by (simp only: append.assoc append.simps length_append_singleton)
    define Q where "Q i \<longleftrightarrow> (i < ?n \<longrightarrow> rm_IsToolResult ((before @ m # rest) ! i) \<longrightarrow> has_calls (take i (before @ m # rest)))" for i
    show ?thesis
    proof (cases "roundtrip_loop ?n (Suc ?i) rest (rt_next ?n ?i m st)")
      case (Inl v)
      then show ?thesis using IH by (simp only: eq sum.case)
    next
      case (Inr st')
      from IH have ok': "rt_ok ?n (before @ m # rest) st'" and later: "\<forall>i. Suc ?i \<le> i \<longrightarrow> Q i"
        unfolding Inr sum.case Q_def by (rule conjunct1, rule conjunct2)
      have "Q ?i" using m by (simp add: Q_def)
      then have "\<forall>i. ?i \<le> i \<longrightarrow> Q i" using later by (metis le_antisym not_less_eq_eq)
      then show ?thesis using ok' Inr by (simp only: eq sum.case Q_def simp_thms)
    qed
  qed
qed simp

lemma roundtrip_init: "rt_ok n [] rt_init"
  by (simp add: rt_ok_def rt_init_def)

lemma coherent_not_blank:
  "coherent msgs \<and> \<not> blank_result msgs \<longleftrightarrow>
     (\<forall>i < length msgs. rm_IsToolResult (msgs ! i) \<longrightarrow>
        has_calls (take i msgs) \<and> set (rm_ToolResultIDs (msgs ! i)) \<subseteq> echoed_ids (take i msgs))
     \<and> echoed_ids (butlast msgs) \<subseteq> answered_ids msgs"
proof -
  have "blank_result msgs \<longleftrightarrow> (\<exists>i < length msgs. rm_IsToolResult (msgs ! i) \<and> [] \<in> set (rm_ToolResultIDs (msgs ! i)))"
    unfolding blank_result_def by (metis in_set_conv_nth)
  moreover have "[] \<notin> echoed_ids (take i msgs)" for i by (simp add: echoed_ids_def)
  ultimately show ?thesis unfolding coherent_def result_ok_def by blast
qed

lemma validateRoundTripIDs_None: "validateRoundTripIDs msgs = None \<longleftrightarrow> coherent msgs \<and> \<not> blank_result msgs"
proof -
  let ?n = "length msgs"
  have loop: "case roundtrip_loop ?n 0 msgs rt_init of
      Inl v \<Rightarrow> \<exists>i < ?n. rm_IsToolResult (msgs ! i) \<and> \<not> has_calls (take i msgs)
        \<and> v = OrphanResult i (orphan_id (msgs ! i))
    | Inr st \<Rightarrow> rt_ok ?n msgs st \<and> (\<forall>i < ?n. rm_IsToolResult (msgs ! i) \<longrightarrow> has_calls (take i msgs))"
    using roundtrip_loop_ok [of "[]" msgs rt_init] roundtrip_init by (simp cong: sum.case_cong)
  show ?thesis
  proof (cases "roundtrip_loop ?n 0 msgs rt_init")
    case (Inl v)
    then have "\<not> coherent msgs" using loop by (auto simp: coherent_def result_ok_def)
    with Inl show ?thesis by (simp add: validateRoundTripIDs_def)
  next
    case (Inr st)
    then have ok: "rt_ok ?n msgs st" and calls: "\<forall>i < ?n. rm_IsToolResult (msgs ! i) \<longrightarrow> has_calls (take i msgs)"
      using loop by simp_all
    have "validateRoundTripIDs msgs = None \<longleftrightarrow>
        rt_firstUnknown st = None \<and> set (rt_echoedOrder st) \<subseteq> set (rt_answered st)"
      using Inr by (auto simp: validateRoundTripIDs_def Let_def filter_empty_conv split: option.splits)
    also have "\<dots> \<longleftrightarrow> coherent msgs \<and> \<not> blank_result msgs"
      unfolding coherent_not_blank using ok calls by (auto simp: rt_ok_def butlast_conv_take)
    finally show ?thesis .
  qed
qed

section \<open>Forcing\<close>

lemma synthesize_sel [simp]:
  "rs_ToolCalls (synthesize n r) = [\<lparr>tc_Name = n, tc_Arguments = [], tc_RawArguments = []\<rparr>]"
  "rs_FinishReason (synthesize n r) = rs_FinishReason r" "rs_Content (synthesize n r) = []"
  by (simp_all add: synthesize_def)

lemma force_call_enforced:
  assumes "force_call tc StrictEnforce resp agent names = (r, forced, w)"
  shows "tch_Name tc \<noteq> [] \<Longrightarrow> allowed_name tc (tch_Name tc) \<Longrightarrow> rs_ToolCalls r \<noteq> [] \<and> tc_Name (hd (rs_ToolCalls r)) = tch_Name tc"
    and "tch_Name tc = [] \<Longrightarrow> firstToolName (tch_AllowedNames tc) names (Some agent) \<noteq> [] \<Longrightarrow>
         rs_ToolCalls r \<noteq> [] \<and> allowed_name tc (tc_Name (hd (rs_ToolCalls r)))"
  using assms
  by (auto simp: force_call_def Let_def allowed_name_def firstToolName_def split: if_splits)

lemma force_call_warn: "mode = StrictWarn \<Longrightarrow> fst (force_call tc mode resp agent names) = resp \<and> \<not> fst (snd (force_call tc mode resp agent names))"
  by (simp add: force_call_def Let_def)

section \<open>Properties\<close>

text \<open>
  C33. The round-trip id check accepts exactly the coherent histories in which no result answers the
  empty id. Coherent means that every tool result comes after some tool call, every id it answers,
  other than the empty one, was echoed earlier, and every non-empty id echoed before the last message
  is answered by some result.
\<close>
theorem validateRoundTripIDs_iff_coherent:
  "validateRoundTripIDs msgs = None \<longleftrightarrow> coherent msgs \<and> \<not> blank_result msgs"
  by (rule validateRoundTripIDs_None)

text \<open>
  The empty id of a call is skipped, the empty id of a result is not: the answer to a call without an
  id is refused as an unknown id.
\<close>

definition idless_exchange :: "request_message list" where
  "idless_exchange =
     [(user_message [])\<lparr>rm_ToolCalls := [\<lparr>et_ID = [], et_Name = ''f'', et_Arguments = [], et_RawArguments = []\<rparr>]\<rparr>,
      (user_message [])\<lparr>rm_IsToolResult := True, rm_ToolResultIDs := [[]]\<rparr>]"

theorem idless_result_refused:
  "coherent idless_exchange \<and> validateRoundTripIDs idless_exchange \<noteq> None"
proof -
  have "coherent idless_exchange"
    by (auto simp: coherent_def result_ok_def idless_exchange_def user_message_def less_Suc_eq
        has_calls_def echoed_ids_def answered_ids_def)
  moreover have "blank_result idless_exchange" by (auto simp: blank_result_def idless_exchange_def)
  ultimately show ?thesis using validateRoundTripIDs_None by blast
qed

text \<open>
  Forcing of tool calls. Under enforcement a request that names a tool gets that tool's call first, a
  request that requires a call gets one that its allow-list admits whenever any tool is known, and
  with parallel calls disabled there is at most one call; in warn mode the response is never changed.
\<close>
theorem applyStrictToolChoice_contract:
  assumes "\<not> tch_None tc"
  shows "(mode = StrictEnforce \<longrightarrow> tch_Required tc \<longrightarrow> tch_Name tc \<noteq> [] \<longrightarrow> allowed_name tc (tch_Name tc) \<longrightarrow>
            (let calls = rs_ToolCalls (fst (applyStrictToolChoice tc mode resp agent names wire))
             in calls \<noteq> [] \<and> tc_Name (hd calls) = tch_Name tc))
    \<and> (mode = StrictEnforce \<longrightarrow> tch_Required tc \<longrightarrow> tch_Name tc = [] \<longrightarrow>
            firstToolName (tch_AllowedNames tc) names (Some agent) \<noteq> [] \<longrightarrow>
            (let calls = rs_ToolCalls (fst (applyStrictToolChoice tc mode resp agent names wire))
             in calls \<noteq> [] \<and> allowed_name tc (tc_Name (hd calls))))
    \<and> (mode = StrictEnforce \<longrightarrow> tch_ParallelDisabled tc \<longrightarrow>
            length (rs_ToolCalls (fst (applyStrictToolChoice tc mode resp agent names wire))) \<le> 1)
    \<and> (mode = StrictWarn \<longrightarrow> fst (applyStrictToolChoice tc mode resp agent names wire) = resp)"
proof -
  obtain r forced w where f: "force_call tc mode resp agent names = (r, forced, w)" by (metis prod_cases3)
  have hd1: "xs \<noteq> [] \<Longrightarrow> hd (take (Suc 0) xs) = hd xs" for xs :: "tool_call_spec list" by (cases xs) auto
  show ?thesis
    using assms force_call_enforced [of tc resp agent names r forced w] force_call_warn [of mode tc resp agent names] f
    by (cases mode) (auto simp: applyStrictToolChoice_def Let_def hd1)
qed

definition sample_response :: "tool_call_spec list \<Rightarrow> response" where
  "sample_response calls = \<lparr>rs_AgentName = ''a'', rs_Model = ''m'', rs_Content = ''hi'', rs_ToolCalls = calls, rs_ToolResults = [],
     rs_ScenarioName = ''s'', rs_SystemPrompt = [], rs_Metadata = [], rs_FinishReason = [], rs_Refusal = [],
     rs_Hallucination = None, rs_StrictWarnings = []\<rparr>"

theorem applyStrictToolChoice_contract_witness:
  "tc_Name (hd (rs_ToolCalls (fst (applyStrictToolChoice (free_choice\<lparr>tch_Required := True, tch_Name := ''f''\<rparr>) StrictEnforce
     (sample_response []) (sample_agent [] ''a'' ''m'' [] None) [''f''] [])))) = ''f''"
  using applyStrictToolChoice_contract [of "free_choice\<lparr>tch_Required := True, tch_Name := ''f''\<rparr>" StrictEnforce
      "sample_response []" "sample_agent [] ''a'' ''m'' [] None" "[''f'']" "[]"]
  by (simp add: free_choice_def allowed_name_def Let_def)

end
