(* ===== verification/Chaos_Decision.thy ===== *)
theory Chaos_Decision
  imports Go_Base "HOL-Library.Word"
begin

unbundle bit_operations_syntax

text \<open>
  \<^verbatim>\<open>internal/chaos/decision.go\<close>: seeded, reproducible fault decisions. The FNV-1a hash runs on 64-bit
  words; a rate and the sample are exact rationals, and the sample is exact in the code too, since it
  has at most 53 significant bits.
\<close>

section \<open>Definitions\<close>

record policy =
  pol_Seed :: "64 word"
  pol_Rate :: "rat option"
  pol_Source :: string

record decision =
  dec_Apply :: bool
  dec_Source :: string

definition InheritGlobal :: "policy \<Rightarrow> 64 word \<Rightarrow> rat option \<Rightarrow> policy" where
  "InheritGlobal service globalSeed globalRate =
     (if pol_Rate service \<noteq> None \<or> globalRate = None then service
      else service\<lparr>pol_Rate := globalRate, pol_Source := ''global-rate'',
                   pol_Seed := (if pol_Seed service = 0 then globalSeed else pol_Seed service)\<rparr>)"

definition fnv_offset :: "64 word" where "fnv_offset = 14695981039346656037"
definition fnv_prime :: "64 word" where "fnv_prime = 1099511628211"

definition fnv_Write :: "8 word list \<Rightarrow> 64 word \<Rightarrow> 64 word" where
  "fnv_Write bs h = fold (\<lambda>b h. (h XOR ucast b) * fnv_prime) bs h"

definition PutUint64_le :: "64 word \<Rightarrow> 8 word list" where
  "PutUint64_le v = map (\<lambda>i. ucast (drop_bit (8 * i) v)) [0..<8]"

definition bytes_of :: "string \<Rightarrow> 8 word list" where
  "bytes_of s = map (\<lambda>c. word_of_nat (of_char c)) s"

definition sample_of :: "64 word \<Rightarrow> string \<Rightarrow> string \<Rightarrow> rat" where
  "sample_of seed requestKey action =
     (let h = fnv_Write (bytes_of action) (fnv_Write [0] (fnv_Write (bytes_of requestKey)
                (fnv_Write [0] (fnv_Write (PutUint64_le seed) fnv_offset))))
      in of_nat (unat (drop_bit 11 h)) / 2 ^ 53)"

definition Decide :: "policy \<Rightarrow> string \<Rightarrow> string \<Rightarrow> string \<Rightarrow> decision" where
  "Decide p requestKey configuredAction forcedAction =
     (let force = strings_ToLower (strings_TrimSpace forcedAction);
          action = strings_ToLower (strings_TrimSpace configuredAction)
      in if force = ''off'' \<or> force = ''none'' then \<lparr>dec_Apply = False, dec_Source = ''request-off''\<rparr>
         else if force \<noteq> [] then \<lparr>dec_Apply = (force = action), dec_Source = ''request-force''\<rparr>
         else case pol_Rate p of
                None \<Rightarrow> \<lparr>dec_Apply = True, dec_Source = (if pol_Source p = [] then ''configured'' else pol_Source p)\<rparr>
              | Some rate \<Rightarrow>
                  let source = (if pol_Source p = [] then ''seeded-rate'' else pol_Source p)
                  in if rate \<le> 0 then \<lparr>dec_Apply = False, dec_Source = source\<rparr>
                     else if 1 \<le> rate then \<lparr>dec_Apply = True, dec_Source = source\<rparr>
                     else \<lparr>dec_Apply = (sample_of (pol_Seed p) requestKey action < rate), dec_Source = source\<rparr>)"

definition ForOperation :: "policy \<Rightarrow> string \<Rightarrow> (string \<rightharpoonup> rat) \<Rightarrow> policy \<times> string" where
  "ForOperation base operation rates =
     (case rates operation of
        Some rate \<Rightarrow> (base\<lparr>pol_Rate := Some rate, pol_Source := ''operation-rate''\<rparr>, operation)
      | None \<Rightarrow> (base, operation))"

definition ForFixture :: "policy \<Rightarrow> string \<Rightarrow> (string \<rightharpoonup> rat) \<Rightarrow> policy" where
  "ForFixture base fixture rates =
     (if fixture \<noteq> []
      then (case rates fixture of
              Some rate \<Rightarrow> base\<lparr>pol_Rate := Some rate, pol_Source := ''fixture-rate''\<rparr>
            | None \<Rightarrow> base)
      else base)"

definition ForSequence :: "policy \<Rightarrow> nat \<Rightarrow> (nat \<rightharpoonup> rat) \<Rightarrow> policy" where
  "ForSequence base sequence rates =
     (case rates sequence of
        Some rate \<Rightarrow> base\<lparr>pol_Rate := Some rate, pol_Source := ''sequence-rate''\<rparr>
      | None \<Rightarrow> base)"

section \<open>The sample\<close>

text \<open>A published test vector of the hash.\<close>

lemma fnv_test_vector: "fnv_Write (bytes_of ''a'') fnv_offset = 0xaf63dc4c8601ec8c"
  by code_simp

lemma frac53: "n < 2 ^ 53 \<Longrightarrow> 0 \<le> (of_nat n / 2 ^ 53 :: rat) \<and> (of_nat n / 2 ^ 53 :: rat) < 1"
  using of_nat_less_iff [of n "2 ^ 53", where 'a = rat] by simp

lemma top53: "unat (drop_bit 11 h :: 64 word) < 2 ^ 53"
proof -
  have "unat h < 2 ^ LENGTH(64)" by (rule unsigned_less)
  then have "unat h div 2 ^ 11 < 2 ^ 53" by (simp add: less_mult_imp_div_less)
  then show ?thesis by (simp add: unat_div drop_bit_eq_div)
qed

lemma sample_unit: "0 \<le> sample_of seed key action \<and> sample_of seed key action < 1"
  unfolding sample_of_def Let_def by (rule frac53 [OF top53])

lemma Decide_apply:
  assumes "strings_ToLower (strings_TrimSpace forcedAction) = []" "pol_Rate p = Some rate"
  shows "dec_Apply (Decide p key action forcedAction)
    \<longleftrightarrow> sample_of (pol_Seed p) key (strings_ToLower (strings_TrimSpace action)) < rate"
  using assms sample_unit [of "pol_Seed p" key "strings_ToLower (strings_TrimSpace action)"]
  by (auto simp: Decide_def Let_def)

section \<open>Properties\<close>

text \<open>
  Seeded chaos is monotone in its rate: with no forced action, a fault that fires at some rate fires,
  for the same seed, key and action, at every higher rate; at rate 0 or below it never fires and at
  rate 1 or above it always does.
\<close>
theorem Decide_monotone:
  assumes "strings_ToLower (strings_TrimSpace force) = []" "r \<le> r'"
  shows "(dec_Apply (Decide (p\<lparr>pol_Rate := Some r\<rparr>) key action force) \<longrightarrow>
          dec_Apply (Decide (p\<lparr>pol_Rate := Some r'\<rparr>) key action force))
    \<and> (r \<le> 0 \<longrightarrow> \<not> dec_Apply (Decide (p\<lparr>pol_Rate := Some r\<rparr>) key action force))
    \<and> (1 \<le> r' \<longrightarrow> dec_Apply (Decide (p\<lparr>pol_Rate := Some r'\<rparr>) key action force))"
  using assms sample_unit [of "pol_Seed p" key "strings_ToLower (strings_TrimSpace action)"]
  by (auto simp: Decide_apply)

definition sample_policy :: policy where
  "sample_policy = \<lparr>pol_Seed = 7, pol_Rate = None, pol_Source = []\<rparr>"

theorem Decide_monotone_witness:
  "dec_Apply (Decide (sample_policy\<lparr>pol_Rate := Some 1\<rparr>) ''k'' ''error'' [])
   \<and> \<not> dec_Apply (Decide (sample_policy\<lparr>pol_Rate := Some 0\<rparr>) ''k'' ''error'' [])"
proof -
  have "strings_ToLower (strings_TrimSpace []) = []" by code_simp
  then show ?thesis using Decide_monotone [of "[]" 0 1 sample_policy "''k''" "''error''"] by simp
qed

text \<open>
  Precedence of the scopes. The rate that decides is the sequence's, else the fixture's, else the
  operation's, else the service's, else the global one; and a request's own header wins over all of
  them: off never fires, and a forced action fires exactly when it is the configured one.
\<close>
theorem chaos_precedence:
  "pol_Rate (ForSequence (ForFixture (fst (ForOperation (InheritGlobal service gseed grate) op ops)) fx fxs) sq sqs) =
     (case sqs sq of Some r \<Rightarrow> Some r
      | None \<Rightarrow> (case if fx = [] then None else fxs fx of Some r \<Rightarrow> Some r
      | None \<Rightarrow> (case ops op of Some r \<Rightarrow> Some r
      | None \<Rightarrow> (case pol_Rate service of Some r \<Rightarrow> Some r | None \<Rightarrow> grate))))
   \<and> \<not> dec_Apply (Decide p key action ''off'')
   \<and> dec_Apply (Decide p key action '' Error '') = (strings_ToLower (strings_TrimSpace action) = ''error'')"
proof -
  have "strings_ToLower (strings_TrimSpace ''off'') = ''off''"
    "strings_ToLower (strings_TrimSpace '' Error '') = ''error''" by code_simp+
  then show ?thesis
    by (auto simp: ForSequence_def ForFixture_def ForOperation_def InheritGlobal_def Decide_def Let_def split: option.splits)
qed

end
