(* ===== verification/Chaos_Injector.thy ===== *)
theory Chaos_Injector
  imports Agent_Types Chaos_Decision
begin

text \<open>
  \<^verbatim>\<open>internal/engine/chaos.go\<close>: the fault injector of the request path. Its counters are keyed by
  tenant and agent name. The clock, the random draws and Go's table of status texts are parameters;
  a random draw record holds what the draws of one request give. A sleep is returned as a duration.
  The counters count requests and are natural numbers. Prometheus metrics are not modelled.
\<close>

section \<open>State\<close>

definition maxChaosLatencyMs :: int where "maxChaosLatencyMs = 60000"

record chaos_fault =
  cf_StatusCode :: int
  cf_Message :: string
  cf_RetryAfter :: duration
  cf_Timeout :: bool
  cf_Connection :: string

record rate_bucket =
  rb_windowStart :: instant
  rb_count :: int

record injector =
  ci_buckets :: "string \<rightharpoonup> rate_bucket"
  ci_errorCounts :: "string \<rightharpoonup> nat"
  ci_connCounts :: "string \<rightharpoonup> nat"
  ci_globalSeed :: "64 word"
  ci_globalRate :: "rat option"
  ci_globalCounts :: "(string, nat) gomap"

record chaos_draws =
  cd_error :: rat
  cd_status :: nat
  cd_conn :: rat
  cd_uniform :: "int \<Rightarrow> int"
  cd_norm :: rat

definition NewChaosInjector :: injector where
  "NewChaosInjector = \<lparr>ci_buckets = Map.empty, ci_errorCounts = Map.empty, ci_connCounts = Map.empty,
     ci_globalSeed = 0, ci_globalRate = None, ci_globalCounts = []\<rparr>"

definition SetGlobalPolicy :: "64 word \<Rightarrow> rat option \<Rightarrow> injector \<Rightarrow> injector" where
  "SetGlobalPolicy seed rate c = c\<lparr>ci_globalSeed := seed, ci_globalRate := rate, ci_globalCounts := []\<rparr>"

section \<open>Triggers\<close>

definition count_of :: "(string \<rightharpoonup> nat) \<Rightarrow> string \<Rightarrow> nat" where
  "count_of m k = (case m k of None \<Rightarrow> 0 | Some n \<Rightarrow> n)"

definition chaos_scope :: "string \<Rightarrow> string \<Rightarrow> string" where
  "chaos_scope tenantID name = tenantID @ nul @ name"

definition chaosKey :: "agent_definition \<Rightarrow> string" where
  "chaosKey agent = chaos_scope (agent_tenant agent) (agent_name agent)"

definition globalAllows :: "string \<Rightarrow> string \<Rightarrow> string \<Rightarrow> injector \<Rightarrow> bool \<times> injector" where
  "globalAllows scope agentName action c =
     (case ci_globalRate c of
        None \<Rightarrow> (True, c)
      | Some rate \<Rightarrow>
          let counterKey = scope @ nul @ action;
              sequence = Suc (count_of (gm_get (ci_globalCounts c)) counterKey);
              c' = c\<lparr>ci_globalCounts := gm_put counterKey sequence (ci_globalCounts c)\<rparr>;
              d = Decide \<lparr>pol_Seed = ci_globalSeed c, pol_Rate = Some rate, pol_Source = ''global-rate''\<rparr>
                    (agentName @ nul @ action @ nul @ itoa sequence) action []
          in (dec_Apply d, c'))"

definition ResetAgent :: "string \<Rightarrow> string \<Rightarrow> injector \<Rightarrow> injector" where
  "ResetAgent tenantID name c =
     (let scope = chaos_scope tenantID name
      in c\<lparr>ci_buckets := (ci_buckets c)(scope := None), ci_errorCounts := (ci_errorCounts c)(scope := None),
           ci_connCounts := (ci_connCounts c)(scope := None),
           ci_globalCounts := filter (\<lambda>(key, n). \<not> strings_HasPrefix key (scope @ nul)) (ci_globalCounts c)\<rparr>)"

definition clampUnitInterval :: "rat \<Rightarrow> rat" where
  "clampUnitInterval r = (if r < 0 then 0 else if 1 < r then 1 else r)"

text \<open>The counter map is passed and returned, since the code shares one routine between two of them.\<close>

definition shouldTrigger :: "rat \<Rightarrow> string \<Rightarrow> rat \<Rightarrow> int \<Rightarrow> (string \<rightharpoonup> nat) \<Rightarrow> bool \<times> (string \<rightharpoonup> nat)" where
  "shouldTrigger draw scope rate failFirst counter =
     (if 0 < failFirst
      then let n = Suc (count_of counter scope) in (int n \<le> failFirst, counter(scope \<mapsto> n))
      else (draw < clampUnitInterval rate, counter))"

section \<open>Latency\<close>

definition drawLatency :: "chaos_draws \<Rightarrow> chaos_latency_config \<Rightarrow> int" where
  "drawLatency rnd l =
     (let dist = (if cl_Distribution l = [] then (if cl_MinMs l < cl_MaxMs l then ''uniform'' else ''fixed'')
                  else cl_Distribution l)
      in if dist = ''uniform'' then
           (let lo = max (cl_MinMs l) 0; hi = min (cl_MaxMs l) maxChaosLatencyMs
            in if hi \<le> lo then cl_MinMs l else lo + cd_uniform rnd (hi - lo + 1))
         else if dist = ''normal'' then
           (let ms = cd_norm rnd * of_int (cl_StddevMs l) + of_int (cl_MeanMs l)
            in if ms < 0 then 0 else if of_int maxChaosLatencyMs < ms then maxChaosLatencyMs else \<lfloor>ms\<rfloor>)
         else cl_MinMs l)"

definition clampLatency :: "int \<Rightarrow> duration" where
  "clampLatency ms =
     (let ms1 = (if ms < 0 then 0 else ms); ms2 = (if maxChaosLatencyMs < ms1 then maxChaosLatencyMs else ms1)
      in int64 (ms2 * Millisecond))"

definition sampleLatency :: "chaos_draws \<Rightarrow> chaos_latency_config \<Rightarrow> duration" where
  "sampleLatency rnd l = clampLatency (drawLatency rnd l)"

text \<open>How long a sleep blocks when the client does not cancel it.\<close>

definition sleep_for :: "duration \<Rightarrow> duration" where
  "sleep_for d = (if d \<le> 0 then 0 else d)"

section \<open>Faults\<close>

definition StatusGatewayTimeout :: int where "StatusGatewayTimeout = 504"
definition StatusInternalServerError :: int where "StatusInternalServerError = 500"
definition StatusTooManyRequests :: int where "StatusTooManyRequests = 429"

definition pickStatusCode :: "nat \<Rightarrow> chaos_error_config \<Rightarrow> int" where
  "pickStatusCode i e = (if ce_StatusCodes e \<noteq> [] then ce_StatusCodes e ! (i mod length (ce_StatusCodes e)) else ce_StatusCode e)"

definition maybeInjectError ::
  "(int \<Rightarrow> string) \<Rightarrow> chaos_draws \<Rightarrow> string \<Rightarrow> chaos_error_config \<Rightarrow> injector \<Rightarrow> chaos_fault option \<times> duration \<times> injector" where
  "maybeInjectError statusText rnd scope e c =
     (let (trig, counts) = shouldTrigger (cd_error rnd) scope (ce_Rate e) (ce_FailFirst e) (ci_errorCounts c);
          c' = c\<lparr>ci_errorCounts := counts\<rparr>
      in if \<not> trig then (None, 0, c')
         else if ce_Timeout e then
           (let t0 = int64 (ce_TimeoutMs e * Millisecond);
                timeout = (if maxChaosLatencyMs * Millisecond < t0 then maxChaosLatencyMs * Millisecond else t0)
            in (Some \<lparr>cf_StatusCode = StatusGatewayTimeout, cf_Message = ''request timed out'',
                      cf_RetryAfter = timeout, cf_Timeout = True, cf_Connection = []\<rparr>, sleep_for timeout, c'))
         else
           (let s0 = pickStatusCode (cd_status rnd) e;
                status = (if s0 < 400 \<or> 599 < s0 then StatusInternalServerError else s0);
                msg = (if ce_Message e = [] then statusText status else ce_Message e)
            in (Some \<lparr>cf_StatusCode = status, cf_Message = msg, cf_RetryAfter = 0, cf_Timeout = False, cf_Connection = []\<rparr>, 0, c')))"

definition maybeInjectConnectionFault ::
  "chaos_draws \<Rightarrow> string \<Rightarrow> chaos_connection_config \<Rightarrow> injector \<Rightarrow> chaos_fault option \<times> injector" where
  "maybeInjectConnectionFault rnd scope cc c =
     (let (trig, counts) = shouldTrigger (cd_conn rnd) scope (cc_Rate cc) (cc_FailFirst cc) (ci_connCounts c);
          c' = c\<lparr>ci_connCounts := counts\<rparr>;
          mode = (if cc_Mode cc = [] then ''empty'' else cc_Mode cc)
      in if \<not> trig then (None, c')
         else (Some \<lparr>cf_StatusCode = 0, cf_Message = [], cf_RetryAfter = 0, cf_Timeout = False, cf_Connection = mode\<rparr>, c'))"

definition checkRateLimit :: "instant \<Rightarrow> string \<Rightarrow> chaos_rate_limit_config \<Rightarrow> injector \<Rightarrow> chaos_fault option \<times> injector" where
  "checkRateLimit now scope rl c =
     (if rl_WindowMs rl \<le> 0 then (None, c)
      else
        let window = int64 (rl_WindowMs rl * Millisecond);
            fresh = c\<lparr>ci_buckets := (ci_buckets c)(scope \<mapsto> \<lparr>rb_windowStart = now, rb_count = 1\<rparr>)\<rparr>
        in case ci_buckets c scope of
             None \<Rightarrow> (None, fresh)
           | Some b \<Rightarrow>
               if window \<le> time_Sub now (rb_windowStart b) then (None, fresh)
               else
                 let b' = b\<lparr>rb_count := rb_count b + 1\<rparr>; c' = c\<lparr>ci_buckets := (ci_buckets c)(scope \<mapsto> b')\<rparr>
                 in if rl_Requests rl < rb_count b'
                    then (Some \<lparr>cf_StatusCode = StatusTooManyRequests, cf_Message = ''rate limit exceeded'',
                                cf_RetryAfter = int64 (window - time_Sub now (rb_windowStart b)),
                                cf_Timeout = False, cf_Connection = []\<rparr>, c')
                    else (None, c'))"

section \<open>The two hooks of the engine\<close>

definition hasAnyChaosSection :: "chaos_config \<Rightarrow> bool" where
  "hasAnyChaosSection cfg \<longleftrightarrow>
     ch_Latency cfg \<noteq> None \<or> ch_Errors cfg \<noteq> None \<or> ch_RateLimit cfg \<noteq> None \<or> ch_Connection cfg \<noteq> None"

definition chaosFor :: "agent_definition option \<Rightarrow> chaos_config option" where
  "chaosFor agent =
     (case agent of
        None \<Rightarrow> None
      | Some a \<Rightarrow> (case bc_Chaos (agent_behavior a) of
                     None \<Rightarrow> None
                   | Some cfg \<Rightarrow> if \<not> ch_Enabled cfg \<and> \<not> hasAnyChaosSection cfg then None else Some cfg))"

definition hasConfiguredError :: "chaos_error_config \<Rightarrow> bool" where
  "hasConfiguredError cfg \<longleftrightarrow> ce_StatusCode cfg \<noteq> 0 \<or> ce_StatusCodes cfg \<noteq> [] \<or> ce_Timeout cfg \<or> ce_Message cfg \<noteq> []"

definition hasGlobalPolicy :: "injector \<Rightarrow> bool" where
  "hasGlobalPolicy c \<longleftrightarrow> ci_globalRate c \<noteq> None"

definition before_rate_limit :: "instant \<Rightarrow> string \<Rightarrow> chaos_config \<Rightarrow> injector \<Rightarrow> chaos_fault option \<times> injector" where
  "before_rate_limit now scope cfg c =
     (case ch_RateLimit cfg of
        Some rl \<Rightarrow> if 0 < rl_Requests rl then checkRateLimit now scope rl c else (None, c)
      | None \<Rightarrow> (None, c))"

definition before_errors ::
  "(int \<Rightarrow> string) \<Rightarrow> chaos_draws \<Rightarrow> string \<Rightarrow> string \<Rightarrow> chaos_config \<Rightarrow> injector \<Rightarrow> chaos_fault option \<times> duration \<times> injector" where
  "before_errors statusText rnd scope name cfg c =
     (case ch_Errors cfg of
        None \<Rightarrow> (None, 0, c)
      | Some e \<Rightarrow>
          if 0 < ce_Rate e \<or> 0 < ce_FailFirst e \<or> (hasGlobalPolicy c \<and> hasConfiguredError e) then
            (if ce_Rate e = 0 \<and> ce_FailFirst e = 0 then
               (let (allows, c1) = globalAllows scope name ''error'' c
                in if allows then maybeInjectError statusText rnd scope (e\<lparr>ce_Rate := 1\<rparr>) c1 else (None, 0, c1))
             else maybeInjectError statusText rnd scope e c)
          else (None, 0, c))"

definition before_connection ::
  "chaos_draws \<Rightarrow> string \<Rightarrow> string \<Rightarrow> chaos_config \<Rightarrow> injector \<Rightarrow> chaos_fault option \<times> injector" where
  "before_connection rnd scope name cfg c =
     (case ch_Connection cfg of
        None \<Rightarrow> (None, c)
      | Some cc \<Rightarrow>
          if 0 < cc_Rate cc \<or> 0 < cc_FailFirst cc \<or> (hasGlobalPolicy c \<and> cc_Mode cc \<noteq> []) then
            (if cc_Rate cc = 0 \<and> cc_FailFirst cc = 0 then
               (let (allows, c1) = globalAllows scope name ''connection'' c
                in if allows then maybeInjectConnectionFault rnd scope (cc\<lparr>cc_Rate := 1\<rparr>) c1 else (None, c1))
             else maybeInjectConnectionFault rnd scope cc c)
          else (None, c))"

definition Before ::
  "(int \<Rightarrow> string) \<Rightarrow> instant \<Rightarrow> chaos_draws \<Rightarrow> agent_definition \<Rightarrow> injector \<Rightarrow> chaos_fault option \<times> duration \<times> injector" where
  "Before statusText now rnd agent c =
     (case chaosFor (Some agent) of
        None \<Rightarrow> (None, 0, c)
      | Some cfg \<Rightarrow>
          let scope = chaosKey agent
          in case before_rate_limit now scope cfg c of
               (Some f, c1) \<Rightarrow> (Some f, 0, c1)
             | (None, c1) \<Rightarrow>
                 (case before_errors statusText rnd scope (agent_name agent) cfg c1 of
                    (Some f, slept, c2) \<Rightarrow> (Some f, slept, c2)
                  | (None, slept, c2) \<Rightarrow>
                      (case before_connection rnd scope (agent_name agent) cfg c2 of (f, c3) \<Rightarrow> (f, slept, c3))))"

definition After :: "chaos_draws \<Rightarrow> agent_definition \<Rightarrow> injector \<Rightarrow> duration \<times> injector" where
  "After rnd agent c =
     (case chaosFor (Some agent) of
        None \<Rightarrow> (0, c)
      | Some cfg \<Rightarrow>
          (case ch_Latency cfg of
             None \<Rightarrow> (0, c)
           | Some l \<Rightarrow>
               let (allows, c1) = globalAllows (chaosKey agent) (agent_name agent) ''latency'' c
               in if allows then (sleep_for (sampleLatency rnd l), c1) else (0, c1)))"

section \<open>Fail-first counters\<close>

text \<open>
  The counter sections of concurrent requests in the order the lock admits them: each entry is the
  scope, the draw and the configured rate of one request.
\<close>

fun trigger_run :: "(string \<Rightarrow> int) \<Rightarrow> (string \<times> rat \<times> rat) list \<Rightarrow> (string \<rightharpoonup> nat) \<Rightarrow> bool list" where
  "trigger_run ff [] counter = []"
| "trigger_run ff ((scope, draw, rate) # es) counter =
     (let (b, counter') = shouldTrigger draw scope rate (ff scope) counter in b # trigger_run ff es counter')"

lemma count_of_upd [simp]: "count_of (m(k \<mapsto> n)) k' = (if k' = k then n else count_of m k')"
  by (simp add: count_of_def)

lemma shouldTrigger_count:
  "0 < ff \<Longrightarrow> fst (shouldTrigger draw scope rate ff m) \<longleftrightarrow> int (Suc (count_of m scope)) \<le> ff"
  "count_of (snd (shouldTrigger draw scope rate ff m)) k = count_of m k + (if k = scope \<and> 0 < ff then 1 else 0)"
  by (simp_all add: shouldTrigger_def Let_def)

lemma trigger_run_nth:
  assumes "k < length es" "0 < ff (fst (es ! k))"
  shows "trigger_run ff es counter ! k \<longleftrightarrow>
     int (count_of counter (fst (es ! k)) + length (filter (\<lambda>e. fst e = fst (es ! k)) (take (Suc k) es))) \<le> ff (fst (es ! k))"
  using assms
proof (induction es arbitrary: k counter)
  case (Cons e es)
  obtain scope draw rate where e: "e = (scope, draw, rate)" by (metis prod_cases3)
  let ?t = "shouldTrigger draw scope rate (ff scope) counter"
  have run: "trigger_run ff (e # es) counter = fst ?t # trigger_run ff es (snd ?t)"
    by (simp add: e case_prod_beta Let_def)
  show ?case
  proof (cases k)
    case 0
    then show ?thesis using Cons.prems unfolding run by (simp add: e shouldTrigger_count del: of_nat_Suc)
  next
    case (Suc j)
    then have "trigger_run ff es (snd ?t) ! j \<longleftrightarrow> int (count_of (snd ?t) (fst (es ! j))
        + length (filter (\<lambda>e. fst e = fst (es ! j)) (take (Suc j) es))) \<le> ff (fst (es ! j))"
      using Cons.IH [of j "snd ?t"] Cons.prems by simp
    then show ?thesis using Cons.prems unfolding run Suc by (auto simp: e shouldTrigger_count(2))
  qed
qed simp

section \<open>Rate limits\<close>

lemma time_Sub_ge: "in_int64 w \<Longrightarrow> 0 < w \<Longrightarrow> w \<le> time_Sub t u \<longleftrightarrow> w \<le> t - u"
  by (auto simp: time_Sub_def in_int64_def)

fun rate_run :: "(string \<Rightarrow> chaos_rate_limit_config) \<Rightarrow> (string \<times> instant) list \<Rightarrow> injector \<Rightarrow> (string \<times> instant \<times> bool) list" where
  "rate_run rls [] c = []"
| "rate_run rls ((scope, t) # rs) c =
     (let (f, c') = checkRateLimit t scope (rls scope) c in (scope, t, f = None) # rate_run rls rs c')"

definition admitted :: "string \<Rightarrow> instant \<Rightarrow> duration \<Rightarrow> (string \<times> instant \<times> bool) list \<Rightarrow> nat" where
  "admitted scope x w tr = length (filter (\<lambda>(s, t, ok). s = scope \<and> ok \<and> x \<le> t \<and> t < x + w) tr)"

lemma checkRateLimit_other:
  "s \<noteq> scope \<Longrightarrow> ci_buckets (snd (checkRateLimit t s rl c)) scope = ci_buckets c scope"
  by (simp add: checkRateLimit_def Let_def split: option.splits)

lemma checkRateLimit_own:
  assumes "0 < rl_WindowMs rl" "in_int64 (rl_WindowMs rl * Millisecond)" "ci_buckets c scope = Some b"
  shows "fst (checkRateLimit t scope rl c) = None \<longleftrightarrow>
      rl_WindowMs rl * Millisecond \<le> t - rb_windowStart b \<or> rb_count b + 1 \<le> rl_Requests rl"
    and "ci_buckets (snd (checkRateLimit t scope rl c)) scope = Some
      (if rl_WindowMs rl * Millisecond \<le> t - rb_windowStart b then \<lparr>rb_windowStart = t, rb_count = 1\<rparr>
       else b\<lparr>rb_count := rb_count b + 1\<rparr>)"
  using assms by (auto simp: checkRateLimit_def Let_def int64_id time_Sub_ge)

lemma checkRateLimit_first:
  assumes "0 < rl_WindowMs rl" "ci_buckets c scope = None"
  shows "fst (checkRateLimit t scope rl c) = None"
    and "ci_buckets (snd (checkRateLimit t scope rl c)) scope = Some \<lparr>rb_windowStart = t, rb_count = 1\<rparr>"
  using assms by (auto simp: checkRateLimit_def Let_def)

lemma admitted_Cons:
  "admitted scope x w (rate_run rls ((s, t) # rs) c) =
     (if s = scope \<and> fst (checkRateLimit t s (rls s) c) = None \<and> x \<le> t \<and> t < x + w then 1 else 0)
       + admitted scope x w (rate_run rls rs (snd (checkRateLimit t s (rls s) c)))"
  by (auto simp: admitted_def case_prod_beta Let_def)

declare rate_run.simps(2) [simp del]

lemma admitted_late:
  "\<forall>e \<in> set rs. x + w \<le> snd e \<Longrightarrow> admitted scope x w (rate_run rls rs c) = 0"
proof (induction rs arbitrary: c)
  case (Cons e rs)
  obtain s t where e: "e = (s, t)" by fastforce
  then show ?case using Cons by (simp add: admitted_Cons)
qed (simp add: admitted_def)

definition window :: "chaos_rate_limit_config \<Rightarrow> duration" where
  "window rl = rl_WindowMs rl * Millisecond"

definition limit_ok :: "chaos_rate_limit_config \<Rightarrow> bool" where
  "limit_ok rl \<longleftrightarrow> 0 < rl_WindowMs rl \<and> in_int64 (window rl) \<and> 0 < rl_Requests rl"

lemma limit_step:
  assumes "limit_ok rl" "ci_buckets c scope = Some b"
  shows "fst (checkRateLimit t scope rl c) = None \<longleftrightarrow> window rl \<le> t - rb_windowStart b \<or> rb_count b + 1 \<le> rl_Requests rl"
    and "ci_buckets (snd (checkRateLimit t scope rl c)) scope = Some
      (if window rl \<le> t - rb_windowStart b then \<lparr>rb_windowStart = t, rb_count = 1\<rparr> else b\<lparr>rb_count := rb_count b + 1\<rparr>)"
  using checkRateLimit_own [of rl c scope b t] assms by (simp_all add: limit_ok_def window_def)

text \<open>In a window that starts inside the interval only what is left of the budget is admitted.\<close>

lemma admitted_inside:
  assumes "limit_ok (rls scope)" "ci_buckets c scope = Some b" "x \<le> rb_windowStart b"
    and "sorted (map snd rs)" "\<forall>e \<in> set rs. rb_windowStart b \<le> snd e"
  shows "int (admitted scope x (window (rls scope)) (rate_run rls rs c)) \<le> max 0 (rl_Requests (rls scope) - rb_count b)"
  using assms
proof (induction rs arbitrary: c b)
  case (Cons e rs)
  obtain s t where e: "e = (s, t)" by fastforce
  let ?w = "window (rls scope)" and ?c = "snd (checkRateLimit t s (rls s) c)"
  have later: "sorted (map snd rs)" "\<forall>e \<in> set rs. t \<le> snd e" "rb_windowStart b \<le> t" using Cons.prems(4,5) e by auto
  show ?case
  proof (cases "s = scope")
    case False
    then have "ci_buckets ?c scope = Some b" using Cons.prems(2) by (simp add: checkRateLimit_other)
    then show ?thesis using Cons.IH [OF Cons.prems(1)] Cons.prems e False by (simp add: admitted_Cons)
  next
    case own: True
    note step = limit_step [OF Cons.prems(1,2), of t]
    show ?thesis
    proof (cases "?w \<le> t - rb_windowStart b")
      case True
      then have "x + ?w \<le> t" using Cons.prems(3) by simp
      moreover from this have "\<forall>e \<in> set rs. x + ?w \<le> snd e" using later(2) by fastforce
      ultimately show ?thesis by (simp add: e admitted_Cons admitted_late)
    next
      case False
      have "int (admitted scope x ?w (rate_run rls rs ?c)) \<le> max 0 (rl_Requests (rls scope) - (rb_count b + 1))"
        using Cons.IH [OF Cons.prems(1), of ?c "b\<lparr>rb_count := rb_count b + 1\<rparr>"] step(2) own False Cons.prems later
        by (auto simp: e)
      then show ?thesis using step(1) False own by (auto simp: e admitted_Cons)
    qed
  qed
qed (simp add: admitted_def)

lemma fresh_bucket:
  assumes "limit_ok (rls scope)" "window (rls scope) \<le> t - rb_windowStart b" "ci_buckets c scope = Some b" "x \<le> t"
    and "sorted (map snd rs)" "\<forall>e \<in> set rs. t \<le> snd e"
  shows "int (admitted scope x (window (rls scope)) (rate_run rls rs (snd (checkRateLimit t scope (rls scope) c))))
           \<le> rl_Requests (rls scope) - 1"
  using admitted_inside [where rls = rls and scope = scope, OF assms(1), of "snd (checkRateLimit t scope (rls scope) c)" "\<lparr>rb_windowStart = t, rb_count = 1\<rparr>" x rs]
    limit_step(2) [OF assms(1,3), of t] assms by (auto simp: limit_ok_def)

text \<open>A window that started before the interval adds what is left of it to one full later window.\<close>

lemma admitted_straddling:
  assumes "limit_ok (rls scope)" "ci_buckets c scope = Some b" "rb_windowStart b < x"
    and "sorted (map snd rs)" "\<forall>e \<in> set rs. x \<le> snd e"
  shows "int (admitted scope x (window (rls scope)) (rate_run rls rs c))
           \<le> max 0 (rl_Requests (rls scope) - rb_count b) + rl_Requests (rls scope)"
  using assms
proof (induction rs arbitrary: c b)
  case (Cons e rs)
  obtain s t where e: "e = (s, t)" by fastforce
  let ?w = "window (rls scope)" and ?c = "snd (checkRateLimit t s (rls s) c)"
  have later: "sorted (map snd rs)" "\<forall>e \<in> set rs. t \<le> snd e" "x \<le> t" using Cons.prems(4,5) e by auto
  show ?case
  proof (cases "s = scope")
    case False
    then have "ci_buckets ?c scope = Some b" using Cons.prems(2) by (simp add: checkRateLimit_other)
    then show ?thesis using Cons.IH [OF Cons.prems(1)] Cons.prems e False by (simp add: admitted_Cons)
  next
    case own: True
    note step = limit_step [OF Cons.prems(1,2), of t]
    show ?thesis
    proof (cases "?w \<le> t - rb_windowStart b")
      case True
      show ?thesis using fresh_bucket [where rls = rls and scope = scope, OF Cons.prems(1) True Cons.prems(2) later(3,1,2)] own
        by (auto simp: e admitted_Cons)
    next
      case False
      have "int (admitted scope x ?w (rate_run rls rs ?c))
          \<le> max 0 (rl_Requests (rls scope) - (rb_count b + 1)) + rl_Requests (rls scope)"
        using Cons.IH [OF Cons.prems(1), of ?c "b\<lparr>rb_count := rb_count b + 1\<rparr>"] step(2) own False Cons.prems later
        by (auto simp: e)
      then show ?thesis using step(1) False own by (auto simp: e admitted_Cons)
    qed
  qed
qed (use assms in \<open>simp add: admitted_def limit_ok_def\<close>)

lemma next_bucket:
  assumes "limit_ok rl"
  shows "\<exists>b'. ci_buckets (snd (checkRateLimit t scope rl c)) scope = Some b' \<and>
     (rb_windowStart b' = t \<and> rb_count b' = 1 \<or>
      (\<exists>b. ci_buckets c scope = Some b \<and> rb_windowStart b' = rb_windowStart b \<and> rb_count b' = rb_count b + 1))"
proof (cases "ci_buckets c scope")
  case None
  then show ?thesis using checkRateLimit_first(2) [of rl c scope t] assms by (simp add: limit_ok_def)
next
  case (Some b)
  then show ?thesis using limit_step(2) [OF assms Some, of t] by auto
qed

text \<open>With no window yet, the first request in the interval opens one inside it.\<close>

lemma admitted_unopened:
  assumes "limit_ok (rls scope)" "ci_buckets c scope = None" "sorted (map snd rs)" "\<forall>e \<in> set rs. x \<le> snd e"
  shows "int (admitted scope x (window (rls scope)) (rate_run rls rs c)) \<le> rl_Requests (rls scope)"
  using assms
proof (induction rs arbitrary: c)
  case (Cons e rs)
  obtain s t where e: "e = (s, t)" by fastforce
  let ?c = "snd (checkRateLimit t s (rls s) c)"
  have later: "sorted (map snd rs)" "\<forall>e \<in> set rs. t \<le> snd e" "x \<le> t" using Cons.prems(3,4) e by auto
  show ?case
  proof (cases "s = scope")
    case False
    then have "ci_buckets ?c scope = None" using Cons.prems(2) by (simp add: checkRateLimit_other)
    then show ?thesis using Cons.IH [OF Cons.prems(1)] Cons.prems e False by (simp add: admitted_Cons)
  next
    case True
    then have "ci_buckets ?c scope = Some \<lparr>rb_windowStart = t, rb_count = 1\<rparr>"
      using checkRateLimit_first(2) [of "rls scope" c scope t] Cons.prems(1,2) by (simp add: limit_ok_def)
    from admitted_inside [where rls = rls and scope = scope, OF Cons.prems(1) this _ later(1), of x] later(2,3) Cons.prems(1)
    show ?thesis using True by (simp add: e admitted_Cons limit_ok_def)
  qed
qed (simp add: admitted_def limit_ok_def)

lemma admitted_from:
  assumes "limit_ok (rls scope)" "sorted (map snd rs)"
    and "\<And>b. ci_buckets c scope = Some b \<Longrightarrow> rb_windowStart b < x \<and> 1 \<le> rb_count b \<and> (\<forall>e \<in> set rs. rb_windowStart b \<le> snd e)"
  shows "int (admitted scope x (window (rls scope)) (rate_run rls rs c)) \<le> 2 * rl_Requests (rls scope) - 1"
  using assms(2,3)
proof (induction rs arbitrary: c)
  case (Cons e rs)
  obtain s t where e: "e = (s, t)" by fastforce
  let ?w = "window (rls scope)" and ?c = "snd (checkRateLimit t s (rls s) c)" and ?R = "rl_Requests (rls scope)"
  have R: "0 < ?R" using assms(1) by (simp add: limit_ok_def)
  have later: "sorted (map snd rs)" "\<forall>e \<in> set rs. t \<le> snd e" using Cons.prems(1) e by auto
  show ?case
  proof (cases "t < x")
    case True
    have "rb_windowStart b < x \<and> 1 \<le> rb_count b \<and> (\<forall>e \<in> set rs. rb_windowStart b \<le> snd e)"
      if b: "ci_buckets ?c scope = Some b" for b
    proof (cases "s = scope")
      case False
      then show ?thesis using b Cons.prems(2) by (simp add: checkRateLimit_other)
    next
      case own: True
      have "rb_windowStart b = t \<and> rb_count b = 1 \<or>
          (\<exists>b0. ci_buckets c scope = Some b0 \<and> rb_windowStart b = rb_windowStart b0 \<and> rb_count b = rb_count b0 + 1)"
        using next_bucket [OF assms(1), of t scope c] own b by auto
      then show ?thesis using Cons.prems(2) later(2) True by fastforce
    qed
    then have "int (admitted scope x ?w (rate_run rls rs ?c)) \<le> 2 * ?R - 1" by (rule Cons.IH [OF later(1)])
    then show ?thesis using True by (simp add: e admitted_Cons)
  next
    case False
    then have all: "\<forall>e' \<in> set (e # rs). x \<le> snd e'" using later(2) e by fastforce
    show ?thesis
    proof (cases "ci_buckets c scope")
      case None
      then show ?thesis using admitted_unopened [where rls = rls and scope = scope, OF assms(1) None Cons.prems(1) all] R by simp
    next
      case (Some b)
      then show ?thesis
        using admitted_straddling [where rls = rls and scope = scope, OF assms(1) Some _ Cons.prems(1) all] Cons.prems(2) R by fastforce
    qed
  qed
qed (use assms in \<open>simp add: admitted_def limit_ok_def\<close>)

section \<open>What a hook touches\<close>

lemma map_of_filter_key:
  "map_of (filter (\<lambda>(key, n). P key) m) k = (if P k then map_of m k else None)"
  by (induction m) auto

definition same_scope :: "string \<Rightarrow> injector \<Rightarrow> injector \<Rightarrow> bool" where
  "same_scope scope c c' \<longleftrightarrow> ci_buckets c' scope = ci_buckets c scope \<and> ci_errorCounts c' scope = ci_errorCounts c scope
     \<and> ci_connCounts c' scope = ci_connCounts c scope
     \<and> (\<forall>action. gm_get (ci_globalCounts c') (scope @ nul @ action) = gm_get (ci_globalCounts c) (scope @ nul @ action))"

lemma same_scope_refl [simp]: "same_scope k c c"
  by (simp add: same_scope_def)

lemma same_scope_trans: "same_scope k a b \<Longrightarrow> same_scope k b c \<Longrightarrow> same_scope k a c"
  by (simp add: same_scope_def)

lemma checkRateLimit_same: "k \<noteq> scope \<Longrightarrow> same_scope k c (snd (checkRateLimit now scope rl c))"
  by (simp add: same_scope_def checkRateLimit_def Let_def split: option.splits)

lemma shouldTrigger_same: "k \<noteq> scope \<Longrightarrow> snd (shouldTrigger d scope r f m) k = m k"
  by (simp add: shouldTrigger_def Let_def)

lemma maybeInjectError_same: "k \<noteq> scope \<Longrightarrow> same_scope k c (snd (snd (maybeInjectError st rnd scope e c)))"
  by (auto simp: same_scope_def maybeInjectError_def Let_def shouldTrigger_same case_prod_beta)

lemma maybeInjectConnectionFault_same: "k \<noteq> scope \<Longrightarrow> same_scope k c (snd (maybeInjectConnectionFault rnd scope cc c))"
  by (auto simp: same_scope_def maybeInjectConnectionFault_def Let_def shouldTrigger_same case_prod_beta)

text \<open>A scope whose NULs are in the same places as another's is that scope.\<close>

definition plain_scope :: "string \<Rightarrow> bool" where
  "plain_scope k \<longleftrightarrow> (\<exists>t n. k = chaos_scope t n \<and> CHR 0x00 \<notin> set t \<and> CHR 0x00 \<notin> set n)"

lemma scope_action_inj:
  assumes "plain_scope k" "plain_scope scope" "k @ nul @ a = scope @ nul @ b"
  shows "k = scope \<and> a = b"
proof -
  obtain t n where k: "k = t @ nul @ n" "CHR 0x00 \<notin> set t" "CHR 0x00 \<notin> set n"
    using assms(1) by (auto simp: plain_scope_def chaos_scope_def)
  obtain t' n' where s: "scope = t' @ nul @ n'" "CHR 0x00 \<notin> set t'" "CHR 0x00 \<notin> set n'"
    using assms(2) by (auto simp: plain_scope_def chaos_scope_def)
  have "t = t' \<and> n @ nul @ a = n' @ nul @ b"
    using nul_separated_eq [OF k(2) s(2), of "n @ nul @ a" "n' @ nul @ b"] assms(3) k(1) s(1) by simp
  then show ?thesis using nul_separated_eq [OF k(3) s(3), of a b] k(1) s(1) by auto
qed

lemma globalAllows_same:
  assumes "plain_scope k" "plain_scope scope" "k \<noteq> scope"
  shows "same_scope k c (snd (globalAllows scope name action c))"
proof -
  have "k @ nul @ a \<noteq> scope @ nul @ action" for a using scope_action_inj [OF assms(1,2)] assms(3) by blast
  then show ?thesis by (auto simp: same_scope_def globalAllows_def Let_def split: option.splits)
qed

lemma before_errors_same:
  assumes "plain_scope k" "plain_scope scope" "k \<noteq> scope"
  shows "same_scope k c (snd (snd (before_errors st rnd scope name cfg c)))"
  using globalAllows_same [OF assms, of c name "''error''"] maybeInjectError_same [OF assms(3)]
  by (auto simp: before_errors_def case_prod_beta Let_def split: option.splits intro: same_scope_trans)

lemma before_connection_same:
  assumes "plain_scope k" "plain_scope scope" "k \<noteq> scope"
  shows "same_scope k c (snd (before_connection rnd scope name cfg c))"
  using globalAllows_same [OF assms, of c name "''connection''"] maybeInjectConnectionFault_same [OF assms(3)]
  by (auto simp: before_connection_def case_prod_beta Let_def split: option.splits intro: same_scope_trans)

lemma before_rate_limit_same: "k \<noteq> scope \<Longrightarrow> same_scope k c (snd (before_rate_limit now scope cfg c))"
  by (simp add: before_rate_limit_def checkRateLimit_same split: option.splits)

lemma Before_same:
  assumes "plain_scope k" "plain_scope (chaosKey agent)" "k \<noteq> chaosKey agent"
  shows "same_scope k c (snd (snd (Before st now rnd agent c)))"
proof (cases "chaosFor (Some agent)")
  case None
  then show ?thesis by (simp add: Before_def)
next
  case (Some cfg)
  obtain f1 c1 where 1: "before_rate_limit now (chaosKey agent) cfg c = (f1, c1)" by fastforce
  obtain f2 sl c2 where 2: "before_errors st rnd (chaosKey agent) (agent_name agent) cfg c1 = (f2, sl, c2)" by (metis prod_cases3)
  obtain f3 c3 where 3: "before_connection rnd (chaosKey agent) (agent_name agent) cfg c2 = (f3, c3)" by fastforce
  have s: "same_scope k c c1" "same_scope k c1 c2" "same_scope k c2 c3"
    using before_rate_limit_same [OF assms(3), of c now cfg] before_errors_same [OF assms, of c1 st rnd "agent_name agent" cfg]
      before_connection_same [OF assms, of c2 rnd "agent_name agent" cfg] 1 2 3 by simp_all
  then have "same_scope k c c2" "same_scope k c c3" by (blast intro: same_scope_trans)+
  with s(1) show ?thesis by (cases f1; cases f2) (simp_all add: Before_def Some 1 2 3)
qed

lemma After_same:
  assumes "plain_scope k" "plain_scope (chaosKey agent)" "k \<noteq> chaosKey agent"
  shows "same_scope k c (snd (After rnd agent c))"
  using globalAllows_same [OF assms, of c "agent_name agent" "''latency''"]
  by (auto simp: After_def case_prod_beta Let_def split: option.splits)

section \<open>Bounds\<close>

definition max_sleep :: duration where
  "max_sleep = maxChaosLatencyMs * Millisecond"

lemma clampLatency_bounds: "0 \<le> clampLatency ms \<and> clampLatency ms \<le> max_sleep"
proof -
  have "in_int64 (m * Millisecond)" if "0 \<le> m" "m \<le> maxChaosLatencyMs" for m
    using that by (simp add: in_int64_def maxChaosLatencyMs_def)
  then show ?thesis by (auto simp: clampLatency_def Let_def int64_id max_sleep_def maxChaosLatencyMs_def)
qed

definition fault_ok :: "chaos_fault \<Rightarrow> bool" where
  "fault_ok f \<longleftrightarrow> cf_Connection f \<noteq> [] \<or> (400 \<le> cf_StatusCode f \<and> cf_StatusCode f \<le> 599)"

lemma maybeInjectError_ok:
  "maybeInjectError st rnd scope e c = (r, slept, c') \<Longrightarrow> (\<forall>f. r = Some f \<longrightarrow> fault_ok f) \<and> 0 \<le> slept \<and> slept \<le> max_sleep"
  by (auto simp: maybeInjectError_def Let_def case_prod_beta fault_ok_def sleep_for_def max_sleep_def
        StatusGatewayTimeout_def StatusInternalServerError_def maxChaosLatencyMs_def split: if_splits)

lemma before_errors_ok:
  "before_errors st rnd scope name cfg c = (r, slept, c') \<Longrightarrow> (\<forall>f. r = Some f \<longrightarrow> fault_ok f) \<and> 0 \<le> slept \<and> slept \<le> max_sleep"
  using maybeInjectError_ok
  by (auto simp: before_errors_def Let_def case_prod_beta max_sleep_def maxChaosLatencyMs_def split: option.splits if_splits)

lemma connection_ok: "maybeInjectConnectionFault rnd scope cc c = (Some f, c') \<Longrightarrow> fault_ok f"
  by (auto simp: maybeInjectConnectionFault_def Let_def case_prod_beta fault_ok_def split: if_splits)

lemma before_connection_ok: "before_connection rnd scope name cfg c = (Some f, c') \<Longrightarrow> fault_ok f"
  using connection_ok by (auto simp: before_connection_def Let_def case_prod_beta split: option.splits if_splits)

lemma before_rate_limit_ok: "before_rate_limit now scope cfg c = (Some f, c') \<Longrightarrow> fault_ok f"
  by (auto simp: before_rate_limit_def checkRateLimit_def Let_def fault_ok_def StatusTooManyRequests_def
        split: option.splits if_splits)

section \<open>Properties\<close>

text \<open>
  "Fail the first N" is exact. In any interleaving of concurrent requests, of one agent or of many,
  the request whose counter section is the \<open>k\<close>-th in the order of the lock is faulted exactly when it is
  among the first N of its own scope.
\<close>
theorem FailFirst_exact:
  assumes "k < length es" "0 < ff (fst (es ! k))"
  shows "trigger_run ff es Map.empty ! k \<longleftrightarrow>
     int (length (filter (\<lambda>e. fst e = fst (es ! k)) (take (Suc k) es))) \<le> ff (fst (es ! k))"
  using trigger_run_nth [of k es ff Map.empty] assms by (simp add: count_of_def)

theorem FailFirst_exact_witness:
  "trigger_run (\<lambda>_. 1) [(''a'', 0, 0), (''b'', 0, 0), (''a'', 0, 0)] Map.empty ! 1
   \<and> \<not> trigger_run (\<lambda>_. 1) [(''a'', 0, 0), (''b'', 0, 0), (''a'', 0, 0)] Map.empty ! 2"
  using FailFirst_exact [of 1 "[(''a'', 0, 0), (''b'', 0, 0), (''a'', 0, 0)]" "\<lambda>_. 1"]
    FailFirst_exact [of 2 "[(''a'', 0, 0), (''b'', 0, 0), (''a'', 0, 0)]" "\<lambda>_. 1"]
  by (simp add: numeral_2_eq_2)

text \<open>
  C38. The rate limit holds whatever other agents do: in any sequence of requests in time order, over any
  scopes, the requests of one scope admitted inside any interval as long as its window are at most
  twice its budget less one. The budget itself is not a bound for every such interval, since a window
  starts with the first request after the last one has ended.
\<close>
theorem rate_limit_bound:
  assumes "limit_ok (rls scope)" "sorted (map snd rs)" "ci_buckets c scope = None"
  shows "int (admitted scope x (window (rls scope)) (rate_run rls rs c)) \<le> 2 * rl_Requests (rls scope) - 1"
  by (rule admitted_from) (use assms in simp_all)

definition sample_limit :: chaos_rate_limit_config where
  "sample_limit = \<lparr>rl_Requests = 2, rl_WindowMs = 1\<rparr>"

definition sample_traffic :: "(string \<times> instant) list" where
  "sample_traffic = [(''a'', 0), (''a'', 999999), (''b'', 999999), (''a'', 1000000), (''a'', 1000001), (''a'', 1000002)]"

theorem rate_limit_bound_witness:
  "int (admitted ''a'' 999999 (window sample_limit) (rate_run (\<lambda>_. sample_limit) sample_traffic NewChaosInjector)) \<le> 3"
proof -
  have "limit_ok sample_limit" by (simp add: limit_ok_def window_def in_int64_def sample_limit_def)
  moreover have "sorted (map snd sample_traffic)" by (simp add: sample_traffic_def)
  ultimately show ?thesis
    using rate_limit_bound [of "\<lambda>_. sample_limit" "''a''" sample_traffic NewChaosInjector 999999]
    by (simp add: NewChaosInjector_def sample_limit_def)
qed

text \<open>
  The window is fixed, not rolling, and the bound is attained: with a budget of two per millisecond,
  three requests that fall within two nanoseconds are all admitted.
\<close>

theorem rate_limit_not_rolling:
  "admitted ''a'' 999999 3 (rate_run (\<lambda>_. sample_limit) sample_traffic NewChaosInjector) = 3"
  unfolding sample_limit_def sample_traffic_def NewChaosInjector_def by code_simp

text \<open>
  No configuration makes the injector hang a request or write an invalid status: for every agent,
  state and draw, a fault that \<open>Before\<close> returns is a connection fault or has a status from 400 to 599,
  and neither hook sleeps longer than sixty seconds, even where the configured milliseconds overflow.
\<close>
theorem chaos_hooks_bounded:
  "(case Before statusText now rnd agent c of
      (f, slept, c') \<Rightarrow> (case f of None \<Rightarrow> True | Some fault \<Rightarrow> fault_ok fault) \<and> 0 \<le> slept \<and> slept \<le> 60000 * Millisecond)
   \<and> 0 \<le> fst (After rnd agent c) \<and> fst (After rnd agent c) \<le> 60000 * Millisecond"
proof
  have m: "max_sleep = 60000 * Millisecond" by (simp add: max_sleep_def maxChaosLatencyMs_def)
  have "0 \<le> sleep_for (sampleLatency rnd l) \<and> sleep_for (sampleLatency rnd l) \<le> max_sleep" for l
    using clampLatency_bounds [of "drawLatency rnd l"] by (simp add: sleep_for_def sampleLatency_def)
  then show "0 \<le> fst (After rnd agent c) \<and> fst (After rnd agent c) \<le> 60000 * Millisecond"
    by (simp add: After_def case_prod_beta Let_def m split: option.splits)
  show "case Before statusText now rnd agent c of
      (f, slept, c') \<Rightarrow> (case f of None \<Rightarrow> True | Some fault \<Rightarrow> fault_ok fault) \<and> 0 \<le> slept \<and> slept \<le> 60000 * Millisecond"
    unfolding m [symmetric]
    using before_rate_limit_ok before_connection_ok before_errors_ok
    by (auto simp: Before_def Let_def max_sleep_def maxChaosLatencyMs_def split: option.splits prod.splits)
qed

text \<open>
  Tenants and agents do not share fault state. Neither hook, run for one agent, changes the window
  or any counter of another (tenant, name) pair, and resetting an agent clears its own state and
  leaves every other pair's alone.
\<close>
theorem chaos_state_isolated:
  assumes "plain_scope (chaos_scope t n)" "plain_scope (chaosKey agent)" "chaos_scope t n \<noteq> chaosKey agent"
  shows "same_scope (chaos_scope t n) c (snd (snd (Before statusText now rnd agent c)))
    \<and> same_scope (chaos_scope t n) c (snd (After rnd agent c))
    \<and> same_scope (chaos_scope t n) c (ResetAgent (agent_tenant agent) (agent_name agent) c)
    \<and> same_scope (chaosKey agent) NewChaosInjector (ResetAgent (agent_tenant agent) (agent_name agent) c)"
proof -
  let ?k = "chaos_scope t n" and ?s = "chaosKey agent"
  let ?r = "ResetAgent (agent_tenant agent) (agent_name agent) c"
  have g: "gm_get (ci_globalCounts ?r) key = (if strings_HasPrefix key (?s @ nul) then None else gm_get (ci_globalCounts c) key)" for key
    by (auto simp: ResetAgent_def Let_def chaosKey_def map_of_filter_key)
  have "\<not> strings_HasPrefix (?k @ nul @ a) (?s @ nul)" for a
    using scope_action_inj [OF assms(1,2)] assms(3) by (auto simp: strings_HasPrefix_iff)
  moreover have "strings_HasPrefix (?s @ nul @ a) (?s @ nul)" for a by (auto simp: strings_HasPrefix_iff)
  ultimately show ?thesis
    using Before_same [OF assms] After_same [OF assms] assms(3)
    by (auto simp: same_scope_def g) (auto simp: ResetAgent_def Let_def chaosKey_def NewChaosInjector_def)
qed

definition sample_draws :: chaos_draws where
  "sample_draws = \<lparr>cd_error = 0, cd_status = 0, cd_conn = 0, cd_uniform = (\<lambda>_. 0), cd_norm = 0\<rparr>"

theorem chaos_state_isolated_witness:
  "same_scope (chaos_scope ''t1'' ''bot'') NewChaosInjector
     (snd (After sample_draws (sample_agent ''t2'' ''bot'' ''m'' [] None) NewChaosInjector))"
proof -
  have p: "plain_scope (chaos_scope t n)" if "CHR 0x00 \<notin> set t" "CHR 0x00 \<notin> set n" for t n
    using that by (auto simp: plain_scope_def)
  have k: "chaosKey (sample_agent ''t2'' ''bot'' ''m'' [] None) = chaos_scope ''t2'' ''bot''" by (simp add: chaosKey_def)
  have "chaos_scope ''t1'' ''bot'' \<noteq> chaos_scope ''t2'' ''bot''" by (simp add: chaos_scope_def)
  then show ?thesis
    using chaos_state_isolated [of "''t1''" "''bot''" "sample_agent ''t2'' ''bot'' ''m'' [] None" NewChaosInjector] p k by simp
qed

text \<open>
  An explicit \<open>enabled: false\<close> does not switch chaos off when a section is present: the configuration
  stays in force.
\<close>

theorem chaosFor_ignores_enabled_false:
  "chaosFor (Some (sample_agent [] ''a'' ''m'' []
     (Some \<lparr>ch_Enabled = False, ch_Preset = [], ch_Latency = None, ch_Errors = None,
            ch_RateLimit = Some sample_limit, ch_Connection = None\<rparr>))) \<noteq> None"
  by (simp add: chaosFor_def hasAnyChaosSection_def)
end
