(* ===== verification/Engine.thy ===== *)
theory Engine
  imports Session_State Agent_Registry Scenario_Matcher Strict_Tools Chaos_Injector
begin

text \<open>
  \<^verbatim>\<open>internal/engine/engine.go\<close>: one request through the engine: resolve the agent, inject faults,
  validate, find the session, match a scenario, generate the response, process its tool calls and
  commit the turn. What is outside the program for one request (clock, random draws, goroutine order,
  cancellation of the client, regular expressions, templates, JSON decoding of argument strings, the
  environment's strict level) is the record \<open>env\<close>. Logging, tracing and metrics are not modelled.
\<close>

section \<open>State and environment\<close>

record 't engine =
  en_Registry :: registry
  en_Store :: memory_store
  en_Matcher :: matcher
  en_Cache :: "'t template_cache"
  en_Chaos :: injector

record 't env =
  ev_compile :: "string \<Rightarrow> regexp option"
  ev_parse :: "string \<Rightarrow> string + 't"
  ev_execute :: "'t \<Rightarrow> template_context \<Rightarrow> string + string"
  ev_decode :: "string \<Rightarrow> jobject option"
  ev_statusText :: "int \<Rightarrow> string"
  ev_strictLevel :: StrictMode
  ev_now :: instant
  ev_user_time :: instant
  ev_assistant_time :: instant
  ev_draws :: chaos_draws
  ev_tool_random :: tool_random
  ev_tool_sched :: "nat list"
  ev_cancelled_early :: bool
  ev_cancelled_late :: bool

datatype engine_error =
    ErrAgentNotFound string "string list"
  | ErrEmptyMessage
  | ErrContext
  | ErrChaos chaos_fault
  | ErrStrict strict_violation
  | ErrGenerating string render_error

definition NewEngine :: "registry \<Rightarrow> memory_store \<Rightarrow> 't engine" where
  "NewEngine reg store = \<lparr>en_Registry = reg, en_Store = store, en_Matcher = NewScenarioMatcher,
     en_Cache = Map.empty, en_Chaos = NewChaosInjector\<rparr>"

section \<open>Reading the request\<close>

definition latest_user :: "request_message list \<Rightarrow> request_message option" where
  "latest_user messages = find (\<lambda>m. rm_Role m = ''user'') (rev messages)"

definition latestUserMessage :: "request_message list \<Rightarrow> string" where
  "latestUserMessage messages = (case latest_user messages of None \<Rightarrow> [] | Some m \<Rightarrow> rm_Content m)"

definition latestUserImageCount :: "request_message list \<Rightarrow> int" where
  "latestUserImageCount messages = (case latest_user messages of None \<Rightarrow> 0 | Some m \<Rightarrow> rm_ImageCount m)"

definition latestUserIsToolResult :: "request_message list \<Rightarrow> bool" where
  "latestUserIsToolResult messages = (case latest_user messages of None \<Rightarrow> False | Some m \<Rightarrow> rm_IsToolResult m)"

definition tailIsToolResult :: "request_message list \<Rightarrow> bool" where
  "tailIsToolResult messages =
     (case find (\<lambda>m. rm_Role m \<noteq> ''system'') (rev messages) of None \<Rightarrow> False | Some m \<Rightarrow> rm_IsToolResult m)"

definition lastEchoedToolCalls :: "request_message list \<Rightarrow> echoed_tool_call list" where
  "lastEchoedToolCalls messages =
     (case find (\<lambda>m. rm_ToolCalls m \<noteq> []) (rev messages) of None \<Rightarrow> [] | Some m \<Rightarrow> rm_ToolCalls m)"

definition EchoToolCall :: "(string \<Rightarrow> jobject option) \<Rightarrow> string \<Rightarrow> string \<Rightarrow> echoed_tool_call" where
  "EchoToolCall decode name rawArgs =
     \<lparr>et_ID = [], et_Name = name,
      et_Arguments = (if rawArgs \<noteq> [] then (case decode rawArgs of Some m \<Rightarrow> m | None \<Rightarrow> []) else []),
      et_RawArguments = rawArgs\<rparr>"

section \<open>Comparing tool calls\<close>

text \<open>
  \<^verbatim>\<open>reflect.DeepEqual\<close> on decoded values: same dynamic type, floats by \<^verbatim>\<open>==\<close>, maps by key.
\<close>

fun DeepEqual :: "json \<Rightarrow> json \<Rightarrow> bool"
  and DeepEqual_elems :: "json list \<Rightarrow> json list \<Rightarrow> bool"
  and DeepEqual_entries :: "(string \<times> json) list \<Rightarrow> (string \<times> json) list \<Rightarrow> bool" where
  "DeepEqual a b =
     (case a of
        JFloat64 x \<Rightarrow> (case b of JFloat64 y \<Rightarrow> f64_eq x y | _ \<Rightarrow> False)
      | JFloat32 x \<Rightarrow> (case b of JFloat32 y \<Rightarrow> f64_eq x y | _ \<Rightarrow> False)
      | JArr xs \<Rightarrow> (case b of JArr ys \<Rightarrow> length xs = length ys \<and> DeepEqual_elems xs ys | _ \<Rightarrow> False)
      | JObj xs \<Rightarrow> (case b of JObj ys \<Rightarrow> length xs = length ys \<and> DeepEqual_entries xs ys | _ \<Rightarrow> False)
      | _ \<Rightarrow> a = b)"
| "DeepEqual_elems (x # xs) (y # ys) = (DeepEqual x y \<and> DeepEqual_elems xs ys)"
| "DeepEqual_elems _ _ = True"
| "DeepEqual_entries ((k, x) # xs) ys =
     ((case map_of ys k of None \<Rightarrow> False | Some y \<Rightarrow> DeepEqual x y) \<and> DeepEqual_entries xs ys)"
| "DeepEqual_entries [] ys = True"

declare DeepEqual.simps [simp del]

text \<open>
  A JSON round trip turns every number into a \<^verbatim>\<open>float64\<close> and fails on NaN and infinities. Strings
  are taken to be valid UTF-8.
\<close>

fun marshal_ok :: "json \<Rightarrow> bool" where
  "marshal_ok (JFloat32 x) = (case x of Fin _ \<Rightarrow> True | _ \<Rightarrow> False)"
| "marshal_ok (JFloat64 x) = (case x of Fin _ \<Rightarrow> True | _ \<Rightarrow> False)"
| "marshal_ok (JArr xs) = list_all marshal_ok xs"
| "marshal_ok (JObj kvs) = list_all (\<lambda>kv. marshal_ok (snd kv)) kvs"
| "marshal_ok _ = True"

fun json_round_trip :: "json \<Rightarrow> json" where
  "json_round_trip (JInt n) = JFloat64 (f64_of_int n)"
| "json_round_trip (JInt32 n) = JFloat64 (f64_of_int n)"
| "json_round_trip (JInt64 n) = JFloat64 (f64_of_int n)"
| "json_round_trip (JFloat32 x) = JFloat64 x"
| "json_round_trip (JArr xs) = JArr (map json_round_trip xs)"
| "json_round_trip (JObj kvs) = JObj (map (\<lambda>(k, v). (k, json_round_trip v)) kvs)"
| "json_round_trip v = v"

definition normalizeArgs :: "jobject \<Rightarrow> jobject" where
  "normalizeArgs m = (if marshal_ok (JObj m) then map (\<lambda>(k, v). (k, json_round_trip v)) m else m)"

definition equalArgs :: "jobject \<Rightarrow> jobject \<Rightarrow> bool" where
  "equalArgs a b = (if a = [] \<and> b = [] then True else DeepEqual (JObj (normalizeArgs a)) (JObj (normalizeArgs b)))"

definition same_call :: "(string \<Rightarrow> jobject option) \<Rightarrow> tool_call_spec \<Rightarrow> echoed_tool_call \<Rightarrow> bool" where
  "same_call decode g e =
     (if tc_Name g \<noteq> et_Name e then False
      else if tc_RawArguments g \<noteq> [] then
        (case decode (tc_RawArguments g) of
           None \<Rightarrow> tc_RawArguments g = et_RawArguments e
         | Some m \<Rightarrow> equalArgs m (et_Arguments e))
      else equalArgs (tc_Arguments g) (et_Arguments e))"

definition sameToolCalls :: "(string \<Rightarrow> jobject option) \<Rightarrow> tool_call_spec list \<Rightarrow> echoed_tool_call list \<Rightarrow> bool" where
  "sameToolCalls decode gen echoed =
     (if echoed = [] \<or> length gen \<noteq> length echoed then False else list_all2 (same_call decode) gen echoed)"

section \<open>Resolving the agent and the session\<close>

definition resolveAgentForTenant :: "inbound_request \<Rightarrow> string \<Rightarrow> registry \<Rightarrow> engine_error + agent_definition" where
  "resolveAgentForTenant req tenantID reg =
     (case (if ir_AgentName req \<noteq> [] then GetForTenant (ir_AgentName req) tenantID reg else None) of
        Some agent \<Rightarrow> Inr agent
      | None \<Rightarrow>
          (case (if ir_Model req \<noteq> [] then GetByModelForTenant (ir_Model req) tenantID reg else None) of
             Some agent \<Rightarrow> Inr agent
           | None \<Rightarrow>
               if tenantID = [] \<and> length (ListForTenant [] reg) = 1 then Inr (hd (ListForTenant [] reg))
               else Inl (ErrAgentNotFound (if ir_AgentName req = [] then ir_Model req else ir_AgentName req)
                           (ListNamesForTenant tenantID reg))))"

definition scopedSessionKey :: "string \<Rightarrow> string \<Rightarrow> string \<Rightarrow> string" where
  "scopedSessionKey tenantID agentName sessionID = tenantID @ nul @ agentName @ nul @ sessionID"

definition DeleteSession :: "string \<Rightarrow> string \<Rightarrow> string \<Rightarrow> 't engine \<Rightarrow> 't engine" where
  "DeleteSession tenantID agentName sessionID e =
     (if sessionID = [] then e
      else e\<lparr>en_Store := Delete (scopedSessionKey tenantID agentName sessionID) (en_Store e)\<rparr>)"

section \<open>Strict validation of the request\<close>

text \<open>One check under its mode: enforced it fails, in warn mode it adds a warning.\<close>

definition strict_check :: "StrictMode \<Rightarrow> strict_violation option \<Rightarrow> strict_warning list \<Rightarrow> strict_violation + strict_warning list" where
  "strict_check mode v warnings =
     (if mode = StrictOff then Inr warnings
      else case v of
             None \<Rightarrow> Inr warnings
           | Some viol \<Rightarrow> if mode = StrictEnforce then Inl viol else Inr (warnings @ [Violated viol]))"

fun strict_schemas :: "StrictMode \<Rightarrow> strict_function list \<Rightarrow> strict_warning list \<Rightarrow> strict_violation + strict_warning list" where
  "strict_schemas mode [] warnings = Inr warnings"
| "strict_schemas mode (sf # sfs) warnings =
     (case strict_check mode (validateStrictFunctionSchema sf) warnings of
        Inl v \<Rightarrow> Inl v
      | Inr w \<Rightarrow> strict_schemas mode sfs w)"

definition strict_request :: "strict_tool_modes \<Rightarrow> inbound_request \<Rightarrow> strict_violation + strict_warning list" where
  "strict_request modes req =
     (case strict_check (sm_IDs modes) (validateRoundTripIDs (ir_Messages req)) [] of
        Inl v \<Rightarrow> Inl v
      | Inr w1 \<Rightarrow>
          (case strict_check (sm_ToolChoice modes) (validateToolChoiceName (ir_ToolChoice req) (ir_RequestToolNames req)) w1 of
             Inl v \<Rightarrow> Inl v
           | Inr w2 \<Rightarrow> if sm_Schemas modes = StrictOff then Inr w2 else strict_schemas (sm_Schemas modes) (ir_StrictFunctions req) w2))"

section \<open>Generating a turn\<close>

definition fallback_scenario :: "agent_definition \<Rightarrow> scenario" where
  "fallback_scenario agent =
     \<lparr>sc_Name = ''_fallback'', sc_Match = None,
      sc_Response = \<lparr>sr_Content = ''Mock response from '' @ agent_name agent, sr_ToolCalls = [], sr_Metadata = [],
                     sr_FinishReason = [], sr_Refusal = [], sr_Hallucination = None\<rparr>\<rparr>"

text \<open>The convergence guard and tool choice "none", on the scenario's tool calls.\<close>

definition guard_calls :: "(string \<Rightarrow> jobject option) \<Rightarrow> strict_tool_modes \<Rightarrow> inbound_request \<Rightarrow> tool_call_spec list \<Rightarrow> tool_call_spec list" where
  "guard_calls decode modes req calls =
     (let tc = ir_ToolChoice req;
          guardCalls = (if sm_ToolChoice modes = StrictEnforce \<and> tch_ParallelDisabled tc \<and> \<not> tch_None tc \<and> 1 < length calls
                        then take 1 calls else calls);
          calls1 = (if guardCalls \<noteq> [] \<and> tailIsToolResult (ir_Messages req)
                       \<and> sameToolCalls decode guardCalls (lastEchoedToolCalls (ir_Messages req))
                    then [] else calls)
      in if tch_None tc \<and> calls1 \<noteq> [] then [] else calls1)"

definition finish_response ::
  "'t env \<Rightarrow> agent_definition \<Rightarrow> inbound_request \<Rightarrow> strict_tool_modes \<Rightarrow> response \<Rightarrow> response \<times> strict_warning list" where
  "finish_response env agent req modes resp =
     (let resp2 = resp\<lparr>rs_ToolCalls := guard_calls (ev_decode env) modes req (rs_ToolCalls resp)\<rparr>;
          (resp3, tcw) = (if sm_ToolChoice modes \<noteq> StrictOff
                          then applyStrictToolChoice (ir_ToolChoice req) (sm_ToolChoice modes) resp2 agent
                                 (ir_RequestToolNames req) (ir_WireProtocol req)
                          else (resp2, []));
          resp4 = (if rs_ToolCalls resp3 \<noteq> []
                   then resp3\<lparr>rs_ToolResults := fst (ProcessToolCalls (ev_tool_sched env) (ev_tool_random env)
                                                       (rs_ToolCalls resp3) (as_Tools (ad_Spec agent)))\<rparr>
                   else resp3)
      in (resp4, tcw))"

definition generate_turn ::
  "'t env \<Rightarrow> agent_definition \<Rightarrow> inbound_request \<Rightarrow> strict_tool_modes \<Rightarrow> matcher \<Rightarrow> 't template_cache \<Rightarrow> int \<Rightarrow> jobject
     \<Rightarrow> (engine_error + response \<times> strict_warning list) \<times> matcher \<times> 't template_cache" where
  "generate_turn env agent req modes m cache turn vars =
     (let userMsg = latestUserMessage (ir_Messages req);
          (matched, m') = MatchWithCaptures (ev_compile env) m (bc_Scenarios (agent_behavior agent)) userMsg turn
                            (latestUserImageCount (ir_Messages req));
          (sc, captures) = (case matched of
                              Some r \<Rightarrow> (res_Scenario r, res_Captures r)
                            | None \<Rightarrow> (fallback_scenario agent, []));
          ctx = \<lparr>tx_Agent = agent, tx_Message = userMsg, tx_TurnNumber = turn, tx_SessionID = ir_SessionID req,
                 tx_Now = ev_now env, tx_Vars = vars, tx_Match = captures\<rparr>;
          (gen, cache') = Generate (ev_parse env) (ev_execute env) agent sc ctx cache
      in case gen of
           Inl err \<Rightarrow> (Inl (ErrGenerating (agent_name agent) err), m', cache')
         | Inr resp \<Rightarrow> (Inr (finish_response env agent req modes resp), m', cache'))"

text \<open>The callback of \<open>ApplyTurn\<close>; it reads the variables and leaves them as they are.\<close>

definition turn_builder_of ::
  "(int \<Rightarrow> jobject \<Rightarrow> (engine_error + response \<times> strict_warning list) \<times> matcher \<times> 't template_cache) \<Rightarrow> engine_error turn_builder" where
  "turn_builder_of gen turn vars =
     (vars, case fst (gen turn vars) of
              Inl err \<Rightarrow> Inl err
            | Inr (resp, w) \<Rightarrow>
                Inr (rs_Content resp, map (\<lambda>tc. \<lparr>tcm_Name = tc_Name tc, tcm_Arguments = tc_Arguments tc\<rparr>) (rs_ToolCalls resp)))"

definition throwaway_session :: "instant \<Rightarrow> agent_definition \<Rightarrow> inbound_request \<Rightarrow> session" where
  "throwaway_session now agent req =
     (let s = NewSession now [] (agent_name agent) DefaultSessionTTL
      in if 0 < ir_PriorTurns req then s\<lparr>se_TurnCount := ir_PriorTurns req\<rparr> else s)"

definition with_warnings :: "strict_warning list \<Rightarrow> response \<Rightarrow> response" where
  "with_warnings w resp = (if w \<noteq> [] then resp\<lparr>rs_StrictWarnings := w\<rparr> else resp)"

text \<open>
  From the session on: the callback runs once, on the session's next turn number and its variables,
  so its response, warnings and caches are those of that call.
\<close>

definition commit_turn ::
  "'t env \<Rightarrow> string \<Rightarrow> agent_definition \<Rightarrow> inbound_request \<Rightarrow> strict_tool_modes \<Rightarrow> strict_warning list \<Rightarrow> 't engine
     \<Rightarrow> (engine_error + response) \<times> 't engine" where
  "commit_turn env tenantID agent req modes warnings e =
     (let stored = (ir_SessionID req \<noteq> []);
          (p, st1) = (if stored
                      then GetOrCreate (ev_now env) (scopedSessionKey tenantID (agent_name agent) (ir_SessionID req))
                             (agent_name agent) (en_Store e)
                      else (0, en_Store e));
          s0 = (if stored then ms_heap st1 p else throwaway_session (ev_now env) agent req);
          gen = generate_turn env agent req modes (en_Matcher e) (en_Cache e);
          (out, m', cache') = gen (se_TurnCount s0 + 1) (variables_of s0);
          (r, s1) = ApplyTurn (ev_user_time env) (ev_assistant_time env) (latestUserMessage (ir_Messages req))
                      (turn_builder_of gen) s0;
          st2 = (if stored then st1\<lparr>ms_heap := (ms_heap st1)(p := s1)\<rparr> else st1);
          e' = e\<lparr>en_Store := st2, en_Matcher := m', en_Cache := cache'\<rparr>
      in (case r of
            Inl err \<Rightarrow> Inl err
          | Inr _ \<Rightarrow> (case out of
                        Inl err \<Rightarrow> Inl err
                      | Inr (resp, tcw) \<Rightarrow> Inr (with_warnings (warnings @ tcw) resp)), e'))"

definition ProcessRequestContext ::
  "'t env \<Rightarrow> string \<Rightarrow> inbound_request \<Rightarrow> 't engine \<Rightarrow> (engine_error + response) \<times> 't engine" where
  "ProcessRequestContext env tenantID req e =
     (case resolveAgentForTenant req tenantID (en_Registry e) of
        Inl err \<Rightarrow> (Inl err, e)
      | Inr agent \<Rightarrow>
          if ev_cancelled_early env then (Inl ErrContext, e)
          else
            (case Before (ev_statusText env) (ev_now env) (ev_draws env) agent (en_Chaos e) of
               (Some fault, _, c1) \<Rightarrow> (Inl (ErrChaos fault), e\<lparr>en_Chaos := c1\<rparr>)
             | (None, _, c1) \<Rightarrow>
                 let e1 = e\<lparr>en_Chaos := c1\<rparr>; msgs = ir_Messages req;
                     modes = StrictToolsFor (ev_strictLevel env) (Some agent)
                 in if latestUserMessage msgs = [] \<and> latestUserImageCount msgs = 0 \<and> \<not> latestUserIsToolResult msgs
                    then (Inl ErrEmptyMessage, e1)
                    else case strict_request modes req of
                           Inl v \<Rightarrow> (Inl (ErrStrict v), e1)
                         | Inr warnings \<Rightarrow>
                             (case After (ev_draws env) agent c1 of
                                (_, c2) \<Rightarrow>
                                  let e2 = e1\<lparr>en_Chaos := c2\<rparr>
                                  in if ev_cancelled_late env then (Inl ErrContext, e2)
                                     else commit_turn env tenantID agent req modes warnings e2)))"

text \<open>Registry changes reset the changed agents' chaos state, as \<^verbatim>\<open>NewEngine\<close> wires it.\<close>

definition announce :: "changes \<Rightarrow> injector \<Rightarrow> injector" where
  "announce chg c = fold (\<lambda>(t, n). ResetAgent t n) chg c"

definition engine_register :: "agent_definition option \<Rightarrow> string \<Rightarrow> 't engine \<Rightarrow> 't engine" where
  "engine_register d src e =
     (case RegisterWithSource d src (en_Registry e) of
        (reg, chg) \<Rightarrow> e\<lparr>en_Registry := reg, en_Chaos := announce chg (en_Chaos e)\<rparr>)"

definition engine_remove :: "string \<Rightarrow> string \<Rightarrow> 't engine \<Rightarrow> 't engine" where
  "engine_remove name tenantID e =
     (case RemoveForTenant name tenantID (en_Registry e) of
        (_, reg, chg) \<Rightarrow> e\<lparr>en_Registry := reg, en_Chaos := announce chg (en_Chaos e)\<rparr>)"

section \<open>Committing a turn\<close>

definition tool_call_msgs :: "response \<Rightarrow> tool_call_msg list" where
  "tool_call_msgs resp = map (\<lambda>tc. \<lparr>tcm_Name = tc_Name tc, tcm_Arguments = tc_Arguments tc\<rparr>) (rs_ToolCalls resp)"

text \<open>What a successful turn makes of a session.\<close>

definition advanced :: "'t env \<Rightarrow> inbound_request \<Rightarrow> response \<Rightarrow> session \<Rightarrow> session" where
  "advanced env req resp s =
     s\<lparr>se_Messages := retained (se_MaxHistory s)
         (se_Messages s @ turn_messages (ev_user_time env) (ev_assistant_time env) (latestUserMessage (ir_Messages req))
                            (rs_Content resp) (tool_call_msgs resp)),
       se_TurnCount := se_TurnCount s + 1, se_Variables := Some (variables_of s), se_LastAccess := ev_assistant_time env\<rparr>"

lemma with_warnings_fields [simp]:
  "rs_Content (with_warnings w resp) = rs_Content resp" "rs_ToolCalls (with_warnings w resp) = rs_ToolCalls resp"
  "tool_call_msgs (with_warnings w resp) = tool_call_msgs resp" "advanced env req (with_warnings w resp) = advanced env req resp"
  by (simp_all add: with_warnings_def tool_call_msgs_def advanced_def fun_eq_iff)

lemma ApplyTurn_builder:
  "ApplyTurn (ev_user_time env) (ev_assistant_time env) (latestUserMessage (ir_Messages req)) (turn_builder_of gen) s =
     (case fst (gen (se_TurnCount s + 1) (variables_of s)) of
        Inl err \<Rightarrow> (Inl err, s)
      | Inr (resp, w) \<Rightarrow> (Inr (), advanced env req resp s))"
  by (auto simp: ApplyTurn_cases turn_builder_of_def advanced_def tool_call_msgs_def split: sum.splits prod.splits)

abbreviation session_key :: "string \<Rightarrow> agent_definition \<Rightarrow> inbound_request \<Rightarrow> string" where
  "session_key t agent req \<equiv> scopedSessionKey t (agent_name agent) (ir_SessionID req)"

lemma scopedSessionKey_inj:
  assumes "CHR 0x00 \<notin> set t" "CHR 0x00 \<notin> set t'" "CHR 0x00 \<notin> set n" "CHR 0x00 \<notin> set n'"
    and "scopedSessionKey t n sid = scopedSessionKey t' n' sid'"
  shows "t = t' \<and> n = n' \<and> sid = sid'"
proof -
  have "t = t' \<and> n @ nul @ sid = n' @ nul @ sid'"
    by (rule nul_separated_eq [OF assms(1,2) assms(5) [unfolded scopedSessionKey_def]])
  then show ?thesis using nul_separated_eq [OF assms(3,4)] by blast
qed

definition session_for :: "'t env \<Rightarrow> string \<Rightarrow> agent_definition \<Rightarrow> inbound_request \<Rightarrow> memory_store \<Rightarrow> ptr \<times> memory_store" where
  "session_for env t agent req st =
     GetOrCreate (ev_now env) (session_key t agent req) (agent_name agent) st"

lemma commit_turn_stored:
  assumes "ir_SessionID req \<noteq> []" "session_for env t agent req (en_Store e) = (p, st1)"
    and "commit_turn env t agent req modes warnings e = (r, e')"
  shows "en_Registry e' = en_Registry e \<and> en_Chaos e' = en_Chaos e"
    "case r of Inl err \<Rightarrow> en_Store e' = st1
     | Inr resp \<Rightarrow> en_Store e' = st1\<lparr>ms_heap := (ms_heap st1)(p := advanced env req resp (ms_heap st1 p))\<rparr>"
  using assms
  by (auto simp: commit_turn_def session_for_def ApplyTurn_builder Let_def split: sum.splits prod.splits)

lemma commit_turn_throwaway:
  assumes "ir_SessionID req = []" "commit_turn env t agent req modes warnings e = (r, e')"
  shows "en_Registry e' = en_Registry e \<and> en_Chaos e' = en_Chaos e" "en_Store e' = en_Store e"
  using assms by (auto simp: commit_turn_def Let_def split: sum.splits prod.splits)

text \<open>A request either stops before its session is touched or commits one turn.\<close>

lemma ProcessRequest_cases:
  assumes "ProcessRequestContext env t req e = (r, e')"
  obtains (stopped) err where "r = Inl err" "en_Store e' = en_Store e" "en_Registry e' = en_Registry e"
  | (committed) agent e2 modes warnings where
      "resolveAgentForTenant req t (en_Registry e) = Inr agent" "modes = StrictToolsFor (ev_strictLevel env) (Some agent)"
      "strict_request modes req = Inr warnings" "\<not> ev_cancelled_early env" "\<not> ev_cancelled_late env"
      "en_Registry e2 = en_Registry e" "en_Store e2 = en_Store e" "en_Matcher e2 = en_Matcher e" "en_Cache e2 = en_Cache e"
      "commit_turn env t agent req modes warnings e2 = (r, e')"
proof (cases "resolveAgentForTenant req t (en_Registry e)")
  case (Inl err)
  then show ?thesis using assms by (intro stopped) (auto simp: ProcessRequestContext_def)
next
  case (Inr agent)
  obtain fault d c1 where b: "Before (ev_statusText env) (ev_now env) (ev_draws env) agent (en_Chaos e) = (fault, d, c1)"
    by (metis prod_cases3)
  obtain d' c2 where a: "After (ev_draws env) agent c1 = (d', c2)" by fastforce
  show ?thesis
  proof (cases "\<exists>warnings. \<not> ev_cancelled_early env \<and> fault = None \<and> \<not> ev_cancelled_late env
      \<and> strict_request (StrictToolsFor (ev_strictLevel env) (Some agent)) req = Inr warnings
      \<and> \<not> (latestUserMessage (ir_Messages req) = [] \<and> latestUserImageCount (ir_Messages req) = 0 \<and> \<not> latestUserIsToolResult (ir_Messages req))")
    case True
    then obtain warnings where w: "strict_request (StrictToolsFor (ev_strictLevel env) (Some agent)) req = Inr warnings" by blast
    show ?thesis
      by (rule committed [OF Inr refl w, where ?e2.0 = "e\<lparr>en_Chaos := c2\<rparr>"])
         (use True w assms in \<open>auto simp: ProcessRequestContext_def Inr b a Let_def\<close>)
  next
    case False
    then have "(\<exists>err. r = Inl err) \<and> en_Store e' = en_Store e \<and> en_Registry e' = en_Registry e"
      using assms by (auto simp: ProcessRequestContext_def Inr b a Let_def split: if_splits option.splits sum.splits)
    then show ?thesis using stopped by blast
  qed
qed



lemma session_for_cases:
  assumes wf: "store_wf st" and s: "session_for env t agent req st = (p, st1)"
  obtains (found) "st1 = st" "live_ptr (ev_now env) st (session_key t agent req) = Some p"
  | (created) "p = ms_next st" "live_ptr (ev_now env) st (session_key t agent req) = None"
      "ms_heap st1 = (ms_heap st)(p := fresh_session (ev_now env) (session_key t agent req) (agent_name agent) st)"
      "gm_get (ms_sessions st1) (session_key t agent req) = Some p"
      "\<And>k q. gm_get (ms_sessions st1) k = Some q \<Longrightarrow> gm_get (ms_sessions st) k = Some q \<or> k = session_key t agent req \<and> q = p"
proof (cases rule: GetOrCreate_cases [where s = st and now = "ev_now env" and a = "agent_name agent" and sid = "session_key t agent req"])
  case (hit p')
  then show ?thesis using found s wf by (simp add: session_for_def live_ptr_Some)
next
  case (miss s1)
  have "live_ptr (ev_now env) st (session_key t agent req) = None"
    using miss(2) live_ptr_Some [OF wf] by (meson not_None_eq)
  moreover have "gm_get (ms_sessions s1) k = Some q \<Longrightarrow> gm_get (ms_sessions st) k = Some q" for k q
    using evict_get [OF purged_wf [OF wf]] miss(1) by (force split: if_splits)
  moreover have "p = ms_next st"
    "st1 = s1\<lparr>ms_heap := (ms_heap st)(p := fresh_session (ev_now env) (session_key t agent req) (agent_name agent) st),
              ms_next := Suc p, ms_sessions := gm_put (session_key t agent req) p (ms_sessions s1)\<rparr>"
    using s miss(3) by (auto simp: session_for_def)
  ultimately show ?thesis by (intro created) (auto split: if_splits)
qed

lemma live_ptrD: "store_wf s \<Longrightarrow> live_ptr now s k = Some p \<Longrightarrow> gm_get (ms_sessions s) k = Some p \<and> p < ms_next s"
  by (metis live_ptr_Some store_wfD(1))

lemma store_reachable_wf: "store_reachable s \<Longrightarrow> store_wf s"
  using store_reachable_inv by (simp add: store_inv_def)

lemma session_for_others:
  assumes "store_wf st" "session_for env t agent req st = (p, st1)" "k \<noteq> session_key t agent req"
  shows "gm_get (ms_sessions st1) k = gm_get (ms_sessions st) k
    \<or> dropped_for_room (ev_now env) (session_key t agent req) st st1 k"
  using GetOrCreate_others [OF assms(1) assms(2) [unfolded session_for_def] assms(3)] .

lemma dropped_for_room_heap: "dropped_for_room now key s (s'\<lparr>ms_heap := h\<rparr>) k \<longleftrightarrow> dropped_for_room now key s s' k"
  by (simp add: dropped_for_room_def)

section \<open>Properties\<close>

definition sample_env :: "string env" where
  "sample_env = \<lparr>ev_compile = (\<lambda>_. None), ev_parse = (\<lambda>s. if s = ''{{'' then Inl ''unclosed action'' else Inr s),
     ev_execute = (\<lambda>t ctx. Inr t), ev_decode = (\<lambda>_. None), ev_statusText = (\<lambda>_. []), ev_strictLevel = StrictOff,
     ev_now = 10, ev_user_time = 11, ev_assistant_time = 12, ev_draws = sample_draws, ev_tool_random = (\<lambda>_. ([], None)),
     ev_tool_sched = [], ev_cancelled_early = False, ev_cancelled_late = False\<rparr>"

definition sample_sessions :: memory_store where
  "sample_sessions = snd (GetOrCreate_slow 10 (scopedSessionKey ''t2'' ''b'' ''s1'') ''b'' (SetLimits 4 4 (NewMemoryStore 0)))"

definition sample_engine :: "string engine" where
  "sample_engine = NewEngine sample_registry sample_sessions"

lemma sample_engine_reachable: "registry_reachable (en_Registry sample_engine)" "store_reachable (en_Store sample_engine)"
  using sample_registry_reachable store_reachable.more [OF store_reachable.init store_step.create]
  by (auto simp: sample_engine_def NewEngine_def sample_sessions_def)

abbreviation sample_request :: "string \<Rightarrow> inbound_request" where
  "sample_request content \<equiv> simple_request ''b'' ''s1'' [user_message content]"

lemma sample_runs:
  "isl (fst (ProcessRequestContext sample_env ''t1'' (sample_request []) sample_engine))"
  "\<not> isl (fst (ProcessRequestContext sample_env ''t1'' (sample_request ''hi'') sample_engine))"
  "gm_get (ms_sessions (en_Store (snd (ProcessRequestContext sample_env ''t1'' (sample_request ''hi'') sample_engine))))
     (scopedSessionKey ''t2'' ''b'' ''s1'') = Some 0"
  "map_sum id agent_name (resolveAgentForTenant (sample_request ''hi'') ''t1'' (en_Registry sample_engine)) = Inr ''b''"
  "live_ptr 10 (en_Store sample_engine) (scopedSessionKey ''t1'' ''b'' ''s1'') = None"
  "ms_next (en_Store sample_engine) = 1"
  by code_simp+

text \<open>
  C2. A request that fails records no turn. Whatever the error (unknown agent, cancelled client,
  injected fault, empty message, strict violation, template error), the registry is as before, and
  either the session store is as before or the request named a session that did not exist: then the
  store gained that one session, fresh and empty, the content of every older session is unchanged,
  and every other id still names its session, except those dropped because the store was at its cap.
\<close>
theorem ProcessRequest_failed_no_trace:
  assumes "ProcessRequestContext env t req e = (Inl err, e')" "store_reachable (en_Store e)"
  shows "en_Registry e' = en_Registry e
    \<and> (en_Store e' = en_Store e
       \<or> (\<exists>agent p. resolveAgentForTenant req t (en_Registry e) = Inr agent \<and> ir_SessionID req \<noteq> []
            \<and> (let key = session_key t agent req in
                 live_ptr (ev_now env) (en_Store e) key = None
                 \<and> gm_get (ms_sessions (en_Store e')) key = Some p
                 \<and> ms_heap (en_Store e') =
                     (ms_heap (en_Store e))(p := fresh_session (ev_now env) key (agent_name agent) (en_Store e))
                 \<and> ms_next (en_Store e) \<le> p
                 \<and> (\<forall>k. k \<noteq> key \<longrightarrow> gm_get (ms_sessions (en_Store e')) k = gm_get (ms_sessions (en_Store e)) k
                      \<or> dropped_for_room (ev_now env) key (en_Store e) (en_Store e') k))))"
  using assms(1)
proof (cases rule: ProcessRequest_cases)
  case (committed agent e2 modes warnings)
  have wf: "store_wf (en_Store e)" by (rule store_reachable_wf [OF assms(2)])
  show ?thesis
  proof (cases "ir_SessionID req = []")
    case True
    then show ?thesis using commit_turn_throwaway [OF True committed(10)] committed(6,7) by simp
  next
    case False
    obtain p st1 where s: "session_for env t agent req (en_Store e) = (p, st1)" by fastforce
    have e': "en_Store e' = st1" "en_Registry e' = en_Registry e"
      using commit_turn_stored [OF False _ committed(10)] s committed(6,7) by auto
    from wf s show ?thesis
    proof (cases rule: session_for_cases)
      case created
      then show ?thesis using e' False committed(1) session_for_others [OF wf s] by (auto simp: Let_def)
    qed (simp add: e')
  qed
qed auto

theorem ProcessRequest_failed_no_trace_witness:
  "case ProcessRequestContext sample_env ''t1'' (sample_request []) sample_engine of
     (r, e') \<Rightarrow> isl r \<and> en_Registry e' = en_Registry sample_engine
       \<and> ms_heap (en_Store e') 0 = ms_heap (en_Store sample_engine) 0"
proof -
  obtain err e' where 1: "ProcessRequestContext sample_env ''t1'' (sample_request []) sample_engine = (Inl err, e')"
    using sample_runs(1) by (metis isl_def prod.collapse)
  show ?thesis using ProcessRequest_failed_no_trace [OF 1 sample_engine_reachable(2)] 1 sample_runs(6)
    by (auto simp: Let_def)
qed

text \<open>
  C1. A request that succeeds commits exactly one turn. Without a session id nothing is stored.
  Otherwise the session of the tenant, agent and id (the live one, or a fresh one) gains the user's
  message and the reply the client receives, with its tool calls, and its turn count goes up by one; no
  other session changes, and every other id still names its session, except those dropped because a
  session had to be created in a store at its cap.
\<close>
theorem ProcessRequest_commits_one_turn:
  assumes "ProcessRequestContext env t req e = (Inr resp, e')" "store_reachable (en_Store e)"
  shows "\<exists>agent. resolveAgentForTenant req t (en_Registry e) = Inr agent \<and> en_Registry e' = en_Registry e
    \<and> (if ir_SessionID req = [] then en_Store e' = en_Store e
       else let key = session_key t agent req in
         \<exists>p. gm_get (ms_sessions (en_Store e')) key = Some p
           \<and> ms_heap (en_Store e') p = advanced env req resp
               (case live_ptr (ev_now env) (en_Store e) key of
                  Some q \<Rightarrow> ms_heap (en_Store e) q
                | None \<Rightarrow> fresh_session (ev_now env) key (agent_name agent) (en_Store e))
           \<and> (\<forall>q < ms_next (en_Store e). q \<noteq> p \<longrightarrow> ms_heap (en_Store e') q = ms_heap (en_Store e) q)
           \<and> (\<forall>k. k \<noteq> key \<longrightarrow> gm_get (ms_sessions (en_Store e')) k = gm_get (ms_sessions (en_Store e)) k
                \<or> dropped_for_room (ev_now env) key (en_Store e) (en_Store e') k))"
  using assms(1)
proof (cases rule: ProcessRequest_cases)
  case (committed agent e2 modes warnings)
  have wf: "store_wf (en_Store e)" by (rule store_reachable_wf [OF assms(2)])
  show ?thesis
  proof (cases "ir_SessionID req = []")
    case True
    then show ?thesis using commit_turn_throwaway [OF True committed(10)] committed(1,6,7) by simp
  next
    case False
    obtain p st1 where s: "session_for env t agent req (en_Store e) = (p, st1)" by fastforce
    have e': "en_Store e' = st1\<lparr>ms_heap := (ms_heap st1)(p := advanced env req resp (ms_heap st1 p))\<rparr>"
      "en_Registry e' = en_Registry e"
      using commit_turn_stored [OF False _ committed(10)] s committed(6,7) by auto
    have "gm_get (ms_sessions st1) (session_key t agent req) = Some p
      \<and> ms_heap st1 p = (case live_ptr (ev_now env) (en_Store e) (session_key t agent req) of
           Some q \<Rightarrow> ms_heap (en_Store e) q
         | None \<Rightarrow> fresh_session (ev_now env) (session_key t agent req) (agent_name agent) (en_Store e))
      \<and> (\<forall>q < ms_next (en_Store e). q \<noteq> p \<longrightarrow> ms_heap st1 q = ms_heap (en_Store e) q)"
      by (cases rule: session_for_cases [OF wf s]) (auto dest: live_ptrD [OF wf])
    with session_for_others [OF wf s] show ?thesis unfolding e' Let_def
      by (intro exI [of _ agent]) (simp add: False committed(1) dropped_for_room_heap)
  qed
qed auto

theorem ProcessRequest_commits_one_turn_witness:
  "\<exists>resp e' p s. ProcessRequestContext sample_env ''t1'' (sample_request ''hi'') sample_engine = (Inr resp, e')
     \<and> gm_get (ms_sessions (en_Store e')) (scopedSessionKey ''t1'' ''b'' ''s1'') = Some p
     \<and> ms_heap (en_Store e') p = advanced sample_env (sample_request ''hi'') resp s"
proof -
  obtain resp e' where 1: "ProcessRequestContext sample_env ''t1'' (sample_request ''hi'') sample_engine = (Inr resp, e')"
    using sample_runs(2) by (metis prod.collapse sum.collapse(2))
  obtain a where "resolveAgentForTenant (sample_request ''hi'') ''t1'' (en_Registry sample_engine) = Inr a" "agent_name a = ''b''"
    using sample_runs(4) by (cases "resolveAgentForTenant (sample_request ''hi'') ''t1'' (en_Registry sample_engine)") auto
  then show ?thesis using ProcessRequest_commits_one_turn [OF 1 sample_engine_reachable(2)] 1
    by (auto simp: Let_def simple_request_def)
qed

text \<open>
  C3. Tenants and agents do not share conversations. When tenant ids and agent names hold no NUL byte,
  a request of tenant \<open>t\<close> to agent \<open>n\<close>, whether it succeeds or fails, never changes the content of the
  session that another tenant, agent or session id names and never creates one in its name. That id
  still names the same session afterwards, or its session was dropped to make room: only when the
  request had to create a session in a store at its cap, and only an expired or least recently used
  one.
\<close>
theorem ProcessRequest_isolated:
  assumes "ProcessRequestContext env t req e = (r, e')" "store_reachable (en_Store e)"
    and "CHR 0x00 \<notin> set t" "CHR 0x00 \<notin> set t'" "CHR 0x00 \<notin> set n'"
    and "\<forall>a. resolveAgentForTenant req t (en_Registry e) = Inr a \<longrightarrow>
           CHR 0x00 \<notin> set (agent_name a) \<and> (t', n', sid') \<noteq> (t, agent_name a, ir_SessionID req)"
  shows "(let key' = scopedSessionKey t' n' sid' in
       (gm_get (ms_sessions (en_Store e')) key' = gm_get (ms_sessions (en_Store e)) key'
        \<or> (\<exists>agent. resolveAgentForTenant req t (en_Registry e) = Inr agent
             \<and> dropped_for_room (ev_now env) (session_key t agent req) (en_Store e) (en_Store e') key'))
       \<and> (\<forall>p. gm_get (ms_sessions (en_Store e)) key' = Some p \<longrightarrow> ms_heap (en_Store e') p = ms_heap (en_Store e) p))"
  using assms(1)
proof (cases rule: ProcessRequest_cases)
  case (stopped err)
  then show ?thesis by simp
next
  case (committed agent e2 modes warnings)
  have wf: "store_wf (en_Store e)" by (rule store_reachable_wf [OF assms(2)])
  have key: "scopedSessionKey t' n' sid' \<noteq> session_key t agent req"
    using scopedSessionKey_inj [of t' t n' "agent_name agent" sid' "ir_SessionID req"] assms(3-6) committed(1) by blast
  show ?thesis
  proof (cases "ir_SessionID req = []")
    case True
    then show ?thesis using commit_turn_throwaway [OF True committed(10)] committed(7) by simp
  next
    case False
    obtain q st1 where s: "session_for env t agent req (en_Store e) = (q, st1)" by fastforce
    have e': "ms_sessions (en_Store e') = ms_sessions st1" "x \<noteq> q \<Longrightarrow> ms_heap (en_Store e') x = ms_heap st1 x" for x
      using commit_turn_stored [OF False _ committed(10)] s committed(7) by (auto split: sum.splits)
    have "ms_heap (en_Store e') p = ms_heap (en_Store e) p"
      if p: "gm_get (ms_sessions (en_Store e)) (scopedSessionKey t' n' sid') = Some p" for p
      using wf s
    proof (cases rule: session_for_cases)
      case found
      then have "p \<noteq> q" using live_ptrD [OF wf found(2)] store_wfD(1) [OF wf] key p by metis
      then show ?thesis using e'(2) found(1) by simp
    next
      case created
      then have "p \<noteq> q" using p store_wfD(1) [OF wf] by blast
      then show ?thesis using e'(2) created(3) by simp
    qed
    moreover have "dropped_for_room now k (en_Store e) (en_Store e') k' \<longleftrightarrow> dropped_for_room now k (en_Store e) st1 k'" for now k k'
      using e'(1) by (simp add: dropped_for_room_def)
    ultimately show ?thesis
      using session_for_others [OF wf s key] committed(1) e'(1) by (auto simp: Let_def)
  qed
qed

theorem ProcessRequest_isolated_witness:
  "(let e' = snd (ProcessRequestContext sample_env ''t1'' (sample_request ''hi'') sample_engine)
    in gm_get (ms_sessions (en_Store e')) (scopedSessionKey ''t2'' ''b'' ''s1'') = Some 0
     \<and> ms_heap (en_Store e') 0 = ms_heap (en_Store sample_engine) 0)"
proof -
  obtain r e' where 1: "ProcessRequestContext sample_env ''t1'' (sample_request ''hi'') sample_engine = (r, e')" by fastforce
  have "CHR 0x00 \<notin> set (agent_name a)"
    if "resolveAgentForTenant (sample_request ''hi'') ''t1'' (en_Registry sample_engine) = Inr a" for a
    using sample_runs(4) that by simp
  then have "\<forall>p. gm_get (ms_sessions (en_Store sample_engine)) (scopedSessionKey ''t2'' ''b'' ''s1'') = Some p
      \<longrightarrow> ms_heap (en_Store e') p = ms_heap (en_Store sample_engine) p"
    using ProcessRequest_isolated [OF 1 sample_engine_reachable(2), of "''t2''" "''b''" "''s1''"] by (simp add: Let_def)
  moreover have "gm_get (ms_sessions (en_Store sample_engine)) (scopedSessionKey ''t2'' ''b'' ''s1'') = Some 0" by code_simp
  ultimately show ?thesis using sample_runs(3) 1 by simp
qed

text \<open>
  C27. A caller is only ever answered by an agent of its own tenant or a global one, however the request
  names it; an anonymous caller only by a global one.
\<close>
theorem resolveAgentForTenant_visible:
  assumes "registry_reachable reg" "resolveAgentForTenant req t reg = Inr agent"
  shows "agent_tenant agent \<in> {t, []}"
proof -
  have inv: "registry_inv reg" by (rule registry_reachable_inv [OF assms(1)])
  show ?thesis
    by (rule dir.chain_visible [OF inv, where n = "ir_AgentName req" and m = "ir_Model req" and t = t])
       (use assms(2) in \<open>auto simp: resolveAgentForTenant_def split: option.splits if_splits\<close>)
qed

theorem resolveAgentForTenant_visible_witness:
  "\<exists>agent. resolveAgentForTenant (sample_request ''hi'') ''t1'' (en_Registry sample_engine) = Inr agent
     \<and> agent_tenant agent \<in> {''t1'', []}"
proof -
  obtain a where 1: "resolveAgentForTenant (sample_request ''hi'') ''t1'' (en_Registry sample_engine) = Inr a"
    using sample_runs(4) by (cases "resolveAgentForTenant (sample_request ''hi'') ''t1'' (en_Registry sample_engine)") auto
  then show ?thesis using resolveAgentForTenant_visible [OF sample_engine_reachable(1) 1] by simp
qed

section \<open>Comparing what was sent with what comes back\<close>

lemma DeepEqual_elems_refl: "(\<And>x. x \<in> set xs \<Longrightarrow> DeepEqual x x) \<Longrightarrow> DeepEqual_elems xs xs"
  by (induction xs) auto

lemma DeepEqual_entries_refl:
  "\<forall>(k, x) \<in> set xs. map_of ys k = Some x \<and> DeepEqual x x \<Longrightarrow> DeepEqual_entries xs ys"
  by (induction xs) auto

lemma DeepEqual_refl: "json_wf v \<Longrightarrow> marshal_ok v \<Longrightarrow> DeepEqual v v"
proof (induction v)
  case (JArr xs)
  then show ?case by (subst DeepEqual.simps) (auto simp: list_all_iff intro!: DeepEqual_elems_refl)
next
  case (JObj kvs)
  have "DeepEqual_entries kvs kvs"
  proof (rule DeepEqual_entries_refl, clarify)
    fix k x assume "(k, x) \<in> set kvs"
    moreover from this have "DeepEqual x x" using JObj by (fastforce simp: list_all_iff)
    ultimately show "map_of kvs k = Some x \<and> DeepEqual x x" using JObj.prems(1) by simp
  qed
  then show ?case by (subst DeepEqual.simps) simp
qed (subst DeepEqual.simps, auto split: f64.splits)+

lemma json_round_trip_ok:
  "marshal_ok v \<Longrightarrow> marshal_ok (json_round_trip v)" "json_wf v \<Longrightarrow> json_wf (json_round_trip v)"
  by (induction v rule: json_round_trip.induct) (auto simp: list_all_iff f64_of_int_def comp_def case_prod_beta)

lemma json_round_trip_idem [simp]: "json_round_trip (json_round_trip v) = json_round_trip v"
  by (induction v rule: json_round_trip.induct) (auto simp: list_all_iff f64_of_int_def)

definition plain_args :: "jobject \<Rightarrow> bool" where
  "plain_args m \<longleftrightarrow> json_wf (JObj m) \<and> marshal_ok (JObj m)"

lemma normalizeArgs_plain:
  assumes "plain_args m" shows "plain_args (normalizeArgs m)" "normalizeArgs (normalizeArgs m) = normalizeArgs m"
proof -
  have n: "JObj (normalizeArgs m) = json_round_trip (JObj m)" using assms by (simp add: plain_args_def normalizeArgs_def)
  then show p: "plain_args (normalizeArgs m)"
    using assms json_round_trip_ok [of "JObj m"] unfolding plain_args_def n by simp
  have "JObj (normalizeArgs (normalizeArgs m)) = json_round_trip (JObj (normalizeArgs m))"
    using p by (simp add: plain_args_def normalizeArgs_def)
  then have "JObj (normalizeArgs (normalizeArgs m)) = JObj (normalizeArgs m)" unfolding n by (simp only: json_round_trip_idem)
  then show "normalizeArgs (normalizeArgs m) = normalizeArgs m" by simp
qed

lemma equalArgs_plain: "plain_args m \<Longrightarrow> equalArgs m (normalizeArgs m)" "plain_args m \<Longrightarrow> equalArgs m m"
  using DeepEqual_refl normalizeArgs_plain unfolding equalArgs_def plain_args_def by metis+

text \<open>
  What a client sends back for a call it was given: the arguments as decoded from the wire, or, for a
  call with deliberately raw arguments, that raw string.
\<close>

definition echo_of :: "(string \<Rightarrow> jobject option) \<Rightarrow> tool_call_spec \<Rightarrow> echoed_tool_call" where
  "echo_of decode c =
     (if tc_RawArguments c \<noteq> [] then EchoToolCall decode (tc_Name c) (tc_RawArguments c)
      else \<lparr>et_ID = [], et_Name = tc_Name c, et_Arguments = normalizeArgs (tc_Arguments c), et_RawArguments = []\<rparr>)"

definition plain_call :: "(string \<Rightarrow> jobject option) \<Rightarrow> tool_call_spec \<Rightarrow> bool" where
  "plain_call decode c \<longleftrightarrow> plain_args (tc_Arguments c)
     \<and> (case decode (tc_RawArguments c) of None \<Rightarrow> True | Some m \<Rightarrow> plain_args m)"

lemma same_call_echo: "plain_call decode c \<Longrightarrow> same_call decode c (echo_of decode c)"
  by (auto simp: same_call_def echo_of_def EchoToolCall_def plain_call_def equalArgs_plain split: option.splits)

lemma sameToolCalls_echo:
  "calls \<noteq> [] \<Longrightarrow> \<forall>c \<in> set calls. plain_call decode c \<Longrightarrow> sameToolCalls decode calls (map (echo_of decode) calls)"
  by (simp add: sameToolCalls_def list_all2_map2 list_all2_same same_call_echo)

text \<open>A client's answer: its echo of the calls, then one or more tool results.\<close>

definition answers :: "(string \<Rightarrow> jobject option) \<Rightarrow> tool_call_spec list \<Rightarrow> request_message list \<Rightarrow> bool" where
  "answers decode calls ms \<longleftrightarrow> (case ms of [] \<Rightarrow> False | m # rs \<Rightarrow>
     rm_ToolCalls m = map (echo_of decode) calls \<and> rs \<noteq> []
     \<and> list_all (\<lambda>r. rm_IsToolResult r \<and> rm_Role r \<noteq> ''system'' \<and> rm_ToolCalls r = []) rs)"

lemma answers_tail:
  assumes "answers decode calls ms"
  shows "tailIsToolResult (msgs @ ms)" "calls \<noteq> [] \<Longrightarrow> lastEchoedToolCalls (msgs @ ms) = map (echo_of decode) calls"
proof -
  obtain m rs r where ms: "ms = m # rs @ [r]" "rm_ToolCalls m = map (echo_of decode) calls"
    and all: "list_all (\<lambda>r. rm_IsToolResult r \<and> rm_Role r \<noteq> ''system'' \<and> rm_ToolCalls r = []) (rs @ [r])"
    using assms by (cases ms; cases "tl ms" rule: rev_cases) (auto simp: answers_def)
  then show "tailIsToolResult (msgs @ ms)" by (simp add: tailIsToolResult_def)
  have "find (\<lambda>m. rm_ToolCalls m \<noteq> []) (rev rs @ m # rev msgs) = Some m" if "calls \<noteq> []"
    using all ms(2) that by (induction rs rule: rev_induct) auto
  then show "calls \<noteq> [] \<Longrightarrow> lastEchoedToolCalls (msgs @ ms) = map (echo_of decode) calls"
    using ms all by (simp add: lastEchoedToolCalls_def)
qed

lemma applyStrict_calls:
  assumes "\<not> (tch_Required tc \<and> mode = StrictEnforce)" "\<not> tch_None tc"
  shows "rs_ToolCalls (fst (applyStrictToolChoice tc mode resp agent names wire)) =
     (if mode = StrictEnforce \<and> tch_ParallelDisabled tc then take 1 (rs_ToolCalls resp) else rs_ToolCalls resp)"
  using assms by (auto simp: applyStrictToolChoice_def force_call_def Let_def split: prod.splits if_splits)

lemma finish_calls:
  assumes "\<not> (tch_Required (ir_ToolChoice req) \<and> sm_ToolChoice modes = StrictEnforce)"
  shows "rs_ToolCalls (fst (finish_response env agent req modes resp)) =
     (let calls = guard_calls (ev_decode env) modes req (rs_ToolCalls resp)
      in if sm_ToolChoice modes = StrictEnforce \<and> tch_ParallelDisabled (ir_ToolChoice req) then take 1 calls else calls)"
proof -
  have calls: "rs_ToolCalls (fst (finish_response env agent req modes resp)) =
      (let resp2 = resp\<lparr>rs_ToolCalls := guard_calls (ev_decode env) modes req (rs_ToolCalls resp)\<rparr>
       in if sm_ToolChoice modes \<noteq> StrictOff
          then rs_ToolCalls (fst (applyStrictToolChoice (ir_ToolChoice req) (sm_ToolChoice modes) resp2 agent
                                    (ir_RequestToolNames req) (ir_WireProtocol req)))
          else rs_ToolCalls resp2)"
    by (auto simp: finish_response_def Let_def split: prod.splits)
  have none: "tch_None (ir_ToolChoice req) \<Longrightarrow> guard_calls (ev_decode env) modes req (rs_ToolCalls resp) = []"
    by (simp add: guard_calls_def Let_def)
  show ?thesis
  proof (cases "tch_None (ir_ToolChoice req)")
    case True
    with none calls show ?thesis by (simp add: applyStrictToolChoice_def Let_def)
  next
    case False
    show ?thesis unfolding calls Let_def applyStrict_calls [OF assms False] by simp
  qed
qed


text \<open>
  C7. Tool loops converge unless a call is forced. When a request for which strict mode does not enforce
  a required tool choice was answered with tool calls (at any point of a chain of calls), the client
  echoes them with its results, and the scenario would answer the same again, then the next response
  carries no tool call, also when only the first of several calls was sent because parallel calls were
  disabled. Under an enforced required choice the guard is followed by \<open>applyStrictToolChoice\<close>, which
  puts a call back, so the condition is needed.
\<close>
theorem tool_loop_converges:
  assumes "calls = rs_ToolCalls (fst (finish_response env agent req modes resp))"
    and "\<forall>c \<in> set calls. plain_call (ev_decode env) c" "answers (ev_decode env) calls ms"
    and "calls \<noteq> []"
    and "\<not> (tch_Required (ir_ToolChoice req) \<and> sm_ToolChoice modes = StrictEnforce)"
    and "ev_decode env' = ev_decode env"
  shows "rs_ToolCalls (fst (finish_response env' agent (req\<lparr>ir_Messages := ir_Messages req @ ms\<rparr>) modes resp)) = []"
proof -
  let ?cap = "sm_ToolChoice modes = StrictEnforce \<and> tch_ParallelDisabled (ir_ToolChoice req)"
  have calls: "calls = (if ?cap then take 1 (rs_ToolCalls resp) else rs_ToolCalls resp)" "\<not> tch_None (ir_ToolChoice req)"
    using assms(1,4) by (auto simp: finish_calls [OF assms(5)] guard_calls_def Let_def split: if_splits)
  then have "calls = (if ?cap \<and> \<not> tch_None (ir_ToolChoice req) \<and> 1 < length (rs_ToolCalls resp)
      then take 1 (rs_ToolCalls resp) else rs_ToolCalls resp)" by auto
  then have "guard_calls (ev_decode env) modes (req\<lparr>ir_Messages := ir_Messages req @ ms\<rparr>) (rs_ToolCalls resp) = []"
    using assms(4) answers_tail [OF assms(3)] sameToolCalls_echo [OF assms(4,2)]
    by (simp add: guard_calls_def Let_def conj_assoc)
  then show ?thesis by (subst finish_calls) (use assms(5,6) in auto)
qed

definition sample_call_spec :: tool_call_spec where
  "sample_call_spec = \<lparr>tc_Name = ''f'', tc_Arguments = [(''n'', JInt 3)], tc_RawArguments = []\<rparr>"

definition sample_answer :: "request_message list" where
  "sample_answer = [(user_message [])\<lparr>rm_Role := ''assistant'', rm_ToolCalls := [echo_of (ev_decode sample_env) sample_call_spec]\<rparr>,
     (user_message ''ok'')\<lparr>rm_IsToolResult := True\<rparr>]"

theorem tool_loop_converges_witness:
  "let modes = \<lparr>sm_IDs = StrictOff, sm_ToolChoice = StrictOff, sm_Schemas = StrictOff\<rparr>;
       agent = sample_agent [] ''b'' ''m'' [] None; resp = sample_response [sample_call_spec];
       req = sample_request ''hi''
   in rs_ToolCalls (fst (finish_response sample_env agent req modes resp)) = [sample_call_spec]
    \<and> rs_ToolCalls (fst (finish_response sample_env agent (req\<lparr>ir_Messages := ir_Messages req @ sample_answer\<rparr>) modes resp)) = []"
proof -
  define modes where "modes = \<lparr>sm_IDs = StrictOff, sm_ToolChoice = StrictOff, sm_Schemas = StrictOff\<rparr>"
  let ?agent = "sample_agent [] ''b'' ''m'' [] None" and ?resp = "sample_response [sample_call_spec]"
  have off: "\<not> (tch_Required (ir_ToolChoice (sample_request ''hi'')) \<and> sm_ToolChoice modes = StrictEnforce)"
    by (simp add: modes_def)
  have tail: "\<not> tailIsToolResult (ir_Messages (sample_request ''hi''))" by code_simp
  have first: "[sample_call_spec] = rs_ToolCalls (fst (finish_response sample_env ?agent (sample_request ''hi'') modes ?resp))"
    by (simp add: finish_calls [OF off] guard_calls_def tail sample_response_def) (simp add: simple_request_def free_choice_def modes_def)
  have "\<forall>c \<in> set [sample_call_spec]. plain_call (ev_decode sample_env) c"
    by (simp add: plain_call_def sample_call_spec_def plain_args_def sample_env_def)
  moreover have "answers (ev_decode sample_env) [sample_call_spec] sample_answer"
    by (simp add: answers_def sample_answer_def user_message_def)
  ultimately show ?thesis
    using tool_loop_converges [OF first _ _ _ off refl] first by (simp add: Let_def modes_def)
qed

end
