(* ===== verification/Graph_Order.thy ===== *)
theory Graph_Order
  imports Go_Base
begin

text \<open>
  Finite directed graphs as relations, for the pipeline validator and the pipeline executor: a list is
  a topological order when the predecessors of every member come before it, and a finite graph is
  acyclic exactly when its nodes can be so listed.
\<close>

definition topological :: "('a \<times> 'a) set \<Rightarrow> 'a list \<Rightarrow> bool" where
  "topological E xs \<longleftrightarrow> (\<forall>i < length xs. \<forall>u. (u, xs ! i) \<in> E \<longrightarrow> u \<in> set (take i xs))"

lemma topological_Nil [simp]: "topological E []"
  by (simp add: topological_def)

lemma topological_snoc [simp]:
  "topological E (xs @ [x]) \<longleftrightarrow> topological E xs \<and> (\<forall>u. (u, x) \<in> E \<longrightarrow> u \<in> set xs)"
  by (auto simp: topological_def nth_append less_Suc_eq)

lemma topological_append:
  "topological E (xs @ ys) \<Longrightarrow> topological E xs"
  by (induction ys rule: rev_induct) (auto simp flip: append_assoc)

lemma topological_closed:
  "topological E xs \<Longrightarrow> (u, v) \<in> E \<Longrightarrow> v \<in> set xs \<Longrightarrow> u \<in> set xs"
  by (metis in_set_conv_nth in_set_takeD topological_def)

text \<open>A topologically ordered graph with distinct members has no cycle among them.\<close>

lemma topological_before:
  assumes "topological E xs" "distinct xs" "(u, xs ! i) \<in> E" "i < length xs"
  obtains j where "j < i" "xs ! j = u"
  using assms by (metis (no_types, lifting) in_set_conv_nth length_take min_less_iff_conj nth_take topological_def)

lemma topological_acyclic:
  assumes topo: "topological E xs" and d: "distinct xs" and E: "snd ` E \<subseteq> set xs"
  shows "acyclic E"
proof -
  define idx where "idx = (\<lambda>v. THE i. i < length xs \<and> xs ! i = v)"
  have idx: "idx (xs ! i) = i" if "i < length xs" for i
    unfolding idx_def using d that by (auto simp: nth_eq_iff_index_eq)
  have "E \<subseteq> measure idx"
  proof
    fix e assume e: "e \<in> E"
    obtain u v where uv: "e = (u, v)" by fastforce
    then obtain i where i: "i < length xs" "xs ! i = v" using e E by (force simp: in_set_conv_nth)
    then obtain j where "j < i" "xs ! j = u" using topological_before [OF topo d] e uv by metis
    then show "e \<in> measure idx" using i idx uv by (metis in_measure order.strict_trans)
  qed
  then show ?thesis by (meson wf_acyclic wf_measure wf_subset)
qed

text \<open>Every nonempty set of nodes of a finite acyclic graph has a member with no predecessor in it.\<close>

lemma acyclic_has_source:
  assumes "finite E" "acyclic E" "S \<noteq> {}"
  obtains v where "v \<in> S" "\<And>u. (u, v) \<in> E \<Longrightarrow> u \<notin> S"
proof -
  have "wf E" by (rule finite_acyclic_wf [OF assms(1,2)])
  then show ?thesis using that assms(3) by (meson ex_in_conv wfE_min)
qed

end
