(* ===== verification/Pipeline_Validator.thy ===== *)
theory Pipeline_Validator
  imports Agent_Types Graph_Order
begin

text \<open>
  \<^verbatim>\<open>internal/config/pipeline_validator.go\<close>: the load-time checks of a pipeline document. An error is the
  field path with the problem; file, line, column and the suggested fix are presentation. What the
  strict YAML decoder reports (\<^verbatim>\<open>unknownFieldErrors\<close>) is an argument. The recursions of the cycle search
  and the reachability search run on fuel; they are shown never to run out.
\<close>

section \<open>Rules on the document\<close>

definition AgentAPIVersion :: string where "AgentAPIVersion = ''mockagents/v1''"
definition PipelineKind :: string where "PipelineKind = ''Pipeline''"

datatype problem =
    RequiredFieldMissing
  | Unsupported string
  | NameTooLong nat
  | InvalidName string
  | InvalidTopology string
  | NoAgents
  | DuplicateNodeID string nat
  | EdgesNotHonored string
  | UnknownNode string
  | SelfLoop string
  | BlankGuard
  | DuplicateEdge string string string nat
  | GraphCycle string
  | Unreachable string
  | UnknownField

type_synonym validation_error = "string \<times> problem"

definition is_lower_alnum :: "char \<Rightarrow> bool" where
  "is_lower_alnum c = (CHR ''a'' \<le> c \<and> c \<le> CHR ''z'' \<or> CHR ''0'' \<le> c \<and> c \<le> CHR ''9'')"

text \<open>
  The expression \<^verbatim>\<open>^[a-z0-9]+(-[a-z0-9]+)*$\<close>, read from left to right; the flag tells whether the
  current group already has a character.
\<close>

fun kebab_from :: "bool \<Rightarrow> string \<Rightarrow> bool" where
  "kebab_from started [] = started"
| "kebab_from started (c # s) =
     (if is_lower_alnum c then kebab_from True s
      else if c = CHR ''-'' then started \<and> kebab_from False s
      else False)"

definition metadataNameRe :: "string \<Rightarrow> bool" where
  "metadataNameRe s = kebab_from False s"

definition validPipelineTopologies :: "string list" where
  "validPipelineTopologies = [TopologySequential, TopologyParallel, TopologyGraph]"

definition validatePipelineAPIVersion :: "pipeline_definition \<Rightarrow> validation_error list" where
  "validatePipelineAPIVersion def =
     (if pd_APIVersion def = [] then [(''apiVersion'', RequiredFieldMissing)]
      else if pd_APIVersion def \<noteq> AgentAPIVersion then [(''apiVersion'', Unsupported (pd_APIVersion def))]
      else [])"

definition validatePipelineKind :: "pipeline_definition \<Rightarrow> validation_error list" where
  "validatePipelineKind def =
     (if pd_Kind def = [] then [(''kind'', RequiredFieldMissing)]
      else if pd_Kind def \<noteq> PipelineKind then [(''kind'', Unsupported (pd_Kind def))]
      else [])"

definition validatePipelineMetadata :: "pipeline_definition \<Rightarrow> validation_error list" where
  "validatePipelineMetadata def =
     (let name = md_Name (pd_Metadata def) in
      if name = [] then [(''metadata.name'', RequiredFieldMissing)]
      else (if 63 < length name then [(''metadata.name'', NameTooLong (length name))] else [])
         @ (if metadataNameRe name then [] else [(''metadata.name'', InvalidName name)]))"

section \<open>Rules on nodes and edges\<close>

definition agent_field :: "nat \<Rightarrow> string" where
  "agent_field i = ''spec.agents['' @ itoa i @ '']''"

definition edge_field :: "nat \<Rightarrow> string" where
  "edge_field i = ''spec.edges['' @ itoa i @ '']''"

fun check_agents ::
  "nat \<Rightarrow> pipeline_agent list \<Rightarrow> (string \<rightharpoonup> nat) \<Rightarrow> validation_error list \<Rightarrow> (string \<rightharpoonup> nat) \<times> validation_error list" where
  "check_agents i [] seen errs = (seen, errs)"
| "check_agents i (a # as) seen errs =
     (if pa_ID a = [] then check_agents (Suc i) as seen (errs @ [(agent_field i @ ''.id'', RequiredFieldMissing)])
      else
        let errs1 = errs @ (if pa_Ref a = [] then [(agent_field i @ ''.ref'', RequiredFieldMissing)] else [])
        in case seen (pa_ID a) of
             Some prev \<Rightarrow> check_agents (Suc i) as seen (errs1 @ [(agent_field i @ ''.id'', DuplicateNodeID (pa_ID a) prev)])
           | None \<Rightarrow> check_agents (Suc i) as (seen(pa_ID a \<mapsto> i)) errs1)"

definition check_endpoint :: "(string \<rightharpoonup> nat) \<Rightarrow> string \<Rightarrow> string \<Rightarrow> validation_error list" where
  "check_endpoint seen field node =
     (if node = [] then [(field, RequiredFieldMissing)]
      else if seen node = None then [(field, UnknownNode node)] else [])"

type_synonym edge_key = "string \<times> string \<times> string"

definition edge_problems :: "(string \<rightharpoonup> nat) \<Rightarrow> nat \<Rightarrow> pipeline_edge \<Rightarrow> validation_error list" where
  "edge_problems seen i e =
     (let field = edge_field i
      in check_endpoint seen (field @ ''.from'') (pe_From e) @ check_endpoint seen (field @ ''.to'') (pe_To e)
         @ (if pe_From e \<noteq> [] \<and> pe_From e = pe_To e then [(field, SelfLoop (pe_From e))] else [])
         @ (if pe_WhenContains e \<noteq> [] \<and> strings_TrimSpace (pe_WhenContains e) = []
            then [(field @ ''.when_contains'', BlankGuard)] else []))"

fun check_edges ::
  "(string \<rightharpoonup> nat) \<Rightarrow> nat \<Rightarrow> pipeline_edge list \<Rightarrow> (edge_key \<rightharpoonup> nat) \<Rightarrow> validation_error list \<Rightarrow> validation_error list" where
  "check_edges seen i [] seenEdges errs = errs"
| "check_edges seen i (e # es) seenEdges errs =
     (let errs1 = errs @ edge_problems seen i e;
          key = (pe_From e, pe_To e, pe_WhenContains e)
      in if pe_From e = [] \<or> pe_To e = [] then check_edges seen (Suc i) es seenEdges errs1
         else case seenEdges key of
                Some prev \<Rightarrow> check_edges seen (Suc i) es seenEdges
                               (errs1 @ [(edge_field i, DuplicateEdge (pe_From e) (pe_To e) (pe_WhenContains e) prev)])
              | None \<Rightarrow> check_edges seen (Suc i) es (seenEdges(key \<mapsto> i)) errs1)"

definition check_topology :: "string \<Rightarrow> validation_error list" where
  "check_topology t =
     (if t = [] then [(''spec.topology'', RequiredFieldMissing)]
      else if t \<notin> set validPipelineTopologies then [(''spec.topology'', InvalidTopology t)] else [])"

definition validatePipelineSpec :: "pipeline_definition \<Rightarrow> validation_error list" where
  "validatePipelineSpec def =
     (let spec = pd_Spec def;
          errs1 = check_topology (ps_Topology spec)
            @ (if ps_Agents spec = [] then [(''spec.agents'', NoAgents)] else []);
          (seen, errs2) = check_agents 0 (ps_Agents spec) Map.empty errs1
      in if ps_Edges spec = [] then errs2
         else check_edges seen 0 (ps_Edges spec) Map.empty
                (errs2 @ (if ps_Topology spec \<noteq> [] \<and> ps_Topology spec \<noteq> TopologyGraph
                          then [(''spec.edges'', EdgesNotHonored (ps_Topology spec))] else [])))"

section \<open>Graph checks\<close>

type_synonym adjacency = "string \<rightharpoonup> string list"

definition forward_nodes :: "pipeline_agent list \<Rightarrow> adjacency" where
  "forward_nodes agents = fold (\<lambda>a m. if pa_ID a = [] then m else m(pa_ID a \<mapsto> [])) agents Map.empty"

definition kept_edge :: "adjacency \<Rightarrow> pipeline_edge \<Rightarrow> bool" where
  "kept_edge m e = (m (pe_From e) \<noteq> None \<and> m (pe_To e) \<noteq> None \<and> pe_From e \<noteq> pe_To e)"

definition forward_of :: "pipeline_agent list \<Rightarrow> pipeline_edge list \<Rightarrow> adjacency" where
  "forward_of agents edges =
     fold (\<lambda>e m. if kept_edge m e then m(pe_From e \<mapsto> the (m (pe_From e)) @ [pe_To e]) else m) edges (forward_nodes agents)"

definition inDegree_nodes :: "pipeline_agent list \<Rightarrow> (string, int) gomap" where
  "inDegree_nodes agents = fold (\<lambda>a m. if pa_ID a = [] then m else gm_put (pa_ID a) 0 m) agents []"

definition gm_incr :: "string \<Rightarrow> (string, int) gomap \<Rightarrow> (string, int) gomap" where
  "gm_incr k m = gm_put k ((case gm_get m k of None \<Rightarrow> 0 | Some d \<Rightarrow> d) + 1) m"

definition inDegree_of :: "pipeline_agent list \<Rightarrow> pipeline_edge list \<Rightarrow> (string, int) gomap" where
  "inDegree_of agents edges =
     fold (\<lambda>e m. if kept_edge (forward_nodes agents) e then gm_incr (pe_To e) m else m) edges (inDegree_nodes agents)"

definition next_of :: "adjacency \<Rightarrow> string \<Rightarrow> string list" where
  "next_of forward n = (case forward n of None \<Rightarrow> [] | Some ms \<Rightarrow> ms)"

datatype colour = White | Gray | Black

text \<open>The colours and the node at which a cycle was found, if any.\<close>

type_synonym dfs_state = "(string \<Rightarrow> colour) \<times> string option"

fun dfs :: "nat \<Rightarrow> adjacency \<Rightarrow> string \<Rightarrow> dfs_state \<Rightarrow> dfs_state option"
  and dfs_loop :: "nat \<Rightarrow> adjacency \<Rightarrow> string \<Rightarrow> string list \<Rightarrow> dfs_state \<Rightarrow> dfs_state option" where
  "dfs 0 forward n st = None"
| "dfs (Suc fuel) forward n (color, found) =
     (if found \<noteq> None then Some (color, found)
      else dfs_loop fuel forward n (next_of forward n) (color(n := Gray), found))"
| "dfs_loop fuel forward n [] (color, found) = Some (color(n := Black), found)"
| "dfs_loop fuel forward n (m # ms) (color, found) =
     (if found \<noteq> None then Some (color, found)
      else case color m of
             Gray \<Rightarrow> Some (color, Some m)
           | White \<Rightarrow> (case dfs fuel forward m (color, found) of
                         None \<Rightarrow> None
                       | Some st \<Rightarrow> dfs_loop fuel forward n ms st)
           | Black \<Rightarrow> dfs_loop fuel forward n ms (color, found))"

fun detect_loop :: "nat \<Rightarrow> adjacency \<Rightarrow> pipeline_agent list \<Rightarrow> dfs_state \<Rightarrow> dfs_state option" where
  "detect_loop fuel forward [] st = Some st"
| "detect_loop fuel forward (a # as) (color, found) =
     (if found \<noteq> None then Some (color, found)
      else if pa_ID a = [] \<or> color (pa_ID a) \<noteq> White then detect_loop fuel forward as (color, found)
      else case dfs fuel forward (pa_ID a) (color, found) of
             None \<Rightarrow> None
           | Some st \<Rightarrow> detect_loop fuel forward as st)"

definition detectPipelineCycle :: "pipeline_agent list \<Rightarrow> adjacency \<Rightarrow> string option option" where
  "detectPipelineCycle agents forward = map_option snd (detect_loop (Suc (length agents)) forward agents (\<lambda>_. White, None))"

fun reach_loop :: "nat \<Rightarrow> adjacency \<Rightarrow> string list \<Rightarrow> string list \<Rightarrow> string list option" where
  "reach_loop 0 forward queue reachable = None"
| "reach_loop (Suc fuel) forward [] reachable = Some reachable"
| "reach_loop (Suc fuel) forward (n # queue) reachable =
     (if n \<in> set reachable then reach_loop fuel forward queue reachable
      else reach_loop fuel forward (queue @ next_of forward n) (n # reachable))"

definition index_of :: "pipeline_agent list \<Rightarrow> string \<Rightarrow> nat" where
  "index_of agents n = the (fold (\<lambda>i m. m(pa_ID (agents ! i) \<mapsto> i)) [0..<length agents] Map.empty n)"

definition unreachable_errors :: "pipeline_agent list \<Rightarrow> string list \<Rightarrow> validation_error list" where
  "unreachable_errors agents reachable =
     [(agent_field (index_of agents (pa_ID a)) @ ''.id'', Unreachable (pa_ID a)).
        a \<leftarrow> agents, pa_ID a \<noteq> [] \<and> pa_ID a \<notin> set reachable]"

text \<open>The result is \<open>None\<close> only if a search runs out of fuel.\<close>

definition validatePipelineGraph :: "pipeline_definition \<Rightarrow> validation_error list option" where
  "validatePipelineGraph def =
     (let agents = ps_Agents (pd_Spec def); edges = ps_Edges (pd_Spec def) in
      if ps_Topology (pd_Spec def) \<noteq> TopologyGraph \<or> agents = [] then Some []
      else
        let forward = forward_of agents edges
        in case detectPipelineCycle agents forward of
             None \<Rightarrow> None
           | Some (Some m) \<Rightarrow> Some [(''spec.edges'', GraphCycle m)]
           | Some None \<Rightarrow>
               let sources = map fst (filter (\<lambda>(n, deg). deg = 0) (inDegree_of agents edges))
               in if sources = [] then Some []
                  else case reach_loop (Suc (length sources + length edges)) forward sources [] of
                         None \<Rightarrow> None
                       | Some reachable \<Rightarrow> Some (unreachable_errors agents reachable))"

definition ValidatePipeline :: "validation_error list \<Rightarrow> pipeline_definition \<Rightarrow> validation_error list option" where
  "ValidatePipeline unknown def =
     (case validatePipelineGraph def of
        None \<Rightarrow> None
      | Some graph \<Rightarrow> Some (unknown @ validatePipelineAPIVersion def @ validatePipelineKind def @ validatePipelineMetadata def
                             @ validatePipelineSpec def @ graph))"

section \<open>The graph of a pipeline\<close>

definition arcs :: "string set \<Rightarrow> pipeline_edge list \<Rightarrow> (string \<times> string) set" where
  "arcs V edges = {(pe_From e, pe_To e) | e. e \<in> set edges \<and> pe_From e \<in> V \<and> pe_To e \<in> V \<and> pe_From e \<noteq> pe_To e}"

definition node_ids :: "pipeline_agent list \<Rightarrow> string set" where
  "node_ids agents = pa_ID ` set agents - {[]}"

lemma finite_arcs [simp]: "finite (arcs V edges)"
  by (rule finite_subset [of _ "(\<lambda>e. (pe_From e, pe_To e)) ` set edges"]) (auto simp: arcs_def)

lemma finite_node_ids [simp]: "finite (node_ids agents)"
  by (simp add: node_ids_def)

lemma arcs_nodes: "(u, v) \<in> arcs V edges \<Longrightarrow> u \<in> V \<and> v \<in> V \<and> u \<noteq> v"
  by (auto simp: arcs_def)

lemma forward_nodes_eq: "forward_nodes agents n = (if n \<in> node_ids agents then Some [] else None)"
proof -
  have "fold (\<lambda>a m. if pa_ID a = [] then m else m(pa_ID a \<mapsto> [])) agents m n =
      (if n \<in> node_ids agents then Some [] else m n)" for m :: adjacency
    by (induction agents arbitrary: m) (auto simp: node_ids_def)
  then show ?thesis by (simp add: forward_nodes_def)
qed

lemma kept_edge_eq:
  "\<forall>n. m n = None \<longleftrightarrow> n \<notin> V \<Longrightarrow> kept_edge m e \<longleftrightarrow> pe_From e \<in> V \<and> pe_To e \<in> V \<and> pe_From e \<noteq> pe_To e"
  by (simp add: kept_edge_def)

lemma forward_of_eq:
  "forward_of agents edges n = (if n \<in> node_ids agents
     then Some (map pe_To (filter (\<lambda>e. kept_edge (forward_nodes agents) e \<and> pe_From e = n) edges)) else None)"
proof (induction edges arbitrary: n rule: rev_induct)
  case Nil
  then show ?case by (simp add: forward_of_def forward_nodes_eq)
next
  case (snoc e edges)
  have k: "kept_edge (forward_nodes agents) x \<longleftrightarrow> pe_From x \<in> node_ids agents \<and> pe_To x \<in> node_ids agents \<and> pe_From x \<noteq> pe_To x" for x
    by (rule kept_edge_eq) (simp add: forward_nodes_eq)
  have "kept_edge (forward_of agents edges) e \<longleftrightarrow> kept_edge (forward_nodes agents) e"
    unfolding k by (rule kept_edge_eq) (simp add: snoc)
  then have "forward_of agents (edges @ [e]) = (if kept_edge (forward_nodes agents) e
      then (forward_of agents edges)(pe_From e \<mapsto> the (forward_of agents edges (pe_From e)) @ [pe_To e]) else forward_of agents edges)"
    by (simp add: forward_of_def)
  then show ?case by (simp add: snoc k)
qed

lemma next_of_arcs: "set (next_of (forward_of agents edges) n) = {m. (n, m) \<in> arcs (node_ids agents) edges}"
  by (auto simp: next_of_def forward_of_eq kept_edge_def forward_nodes_eq arcs_def)

lemma inDegree_nodes_get: "gm_get (inDegree_nodes agents) n = (if n \<in> node_ids agents then Some 0 else None)"
proof -
  have "gm_get (fold (\<lambda>a m. if pa_ID a = [] then m else gm_put (pa_ID a) 0 m) agents m) n =
      (if n \<in> node_ids agents then Some 0 else gm_get m n)" for m :: "(string, int) gomap"
    by (induction agents arbitrary: m) (auto simp: node_ids_def)
  then show ?thesis by (simp add: inDegree_nodes_def)
qed

lemma inDegree_of_get:
  "gm_get (inDegree_of agents edges) n = (if n \<in> node_ids agents
     then Some (int (length (filter (\<lambda>e. kept_edge (forward_nodes agents) e \<and> pe_To e = n) edges))) else None)"
proof (induction edges arbitrary: n rule: rev_induct)
  case Nil
  then show ?case by (simp add: inDegree_of_def inDegree_nodes_get)
next
  case (snoc e edges)
  then show ?case by (auto simp: inDegree_of_def gm_incr_def kept_edge_def forward_nodes_eq)
qed

lemma inDegree_of_wf: "gm_wf (inDegree_of agents edges)"
proof -
  have "gm_wf m \<Longrightarrow> gm_wf (fold (\<lambda>a m. if pa_ID a = [] then m else gm_put (pa_ID a) 0 m) agents m)" for m :: "(string, int) gomap"
    by (induction agents arbitrary: m) auto
  then have "gm_wf (inDegree_nodes agents)" by (simp add: inDegree_nodes_def)
  then show ?thesis by (induction edges rule: rev_induct) (auto simp: inDegree_of_def gm_incr_def)
qed

lemma source_iff:
  "n \<in> set (map fst (filter (\<lambda>(n, deg). deg = 0) (inDegree_of agents edges)))
     \<longleftrightarrow> n \<in> node_ids agents \<and> (\<forall>u. (u, n) \<notin> arcs (node_ids agents) edges)"
proof -
  have "n \<in> set (map fst (filter (\<lambda>(n, deg). deg = 0) (inDegree_of agents edges))) \<longleftrightarrow> gm_get (inDegree_of agents edges) n = Some 0"
    using gm_in_set_iff [OF inDegree_of_wf, of n 0] by force
  then show ?thesis
    by (auto simp: inDegree_of_get filter_empty_conv kept_edge_def forward_nodes_eq arcs_def)
qed

section \<open>The cycle search\<close>

text \<open>An adjacency whose successors stay within a finite set of nodes.\<close>

locale adjacency_graph =
  fixes forward :: adjacency and V :: "string set"
  assumes finite_V: "finite V"
    and next_V: "n \<in> V \<Longrightarrow> set (next_of forward n) \<subseteq> V"
begin

definition E :: "(string \<times> string) set" where
  "E = {(n, m). n \<in> V \<and> m \<in> set (next_of forward n)}"

definition finished :: "(string \<Rightarrow> colour) \<Rightarrow> bool" where
  "finished color \<longleftrightarrow> (\<forall>n. color n \<noteq> White \<longrightarrow> n \<in> V)
     \<and> (\<exists>xs. distinct xs \<and> set xs = {n. color n = Black} \<and> topological (E\<inverse>) xs)"

definition whites :: "(string \<Rightarrow> colour) \<Rightarrow> nat" where
  "whites color = card {n \<in> V. color n = White}"

definition searched :: "string \<Rightarrow> (string \<Rightarrow> colour) \<Rightarrow> dfs_state \<Rightarrow> bool" where
  "searched n color st \<longleftrightarrow> (case snd st of
       Some _ \<Rightarrow> \<not> acyclic E
     | None \<Rightarrow> finished (fst st) \<and> fst st n = Black \<and> (\<forall>x. color x = Black \<longrightarrow> fst st x = Black)
                \<and> (\<forall>x. x \<noteq> n \<longrightarrow> (fst st x = Gray \<longleftrightarrow> color x = Gray)))"

lemma finished_blacken:
  assumes "finished color" "color n = Gray" "\<And>m. m \<in> set (next_of forward n) \<Longrightarrow> color m = Black"
  shows "finished (color(n := Black))"
proof -
  obtain xs where xs: "distinct xs" "set xs = {n. color n = Black}" "topological (E\<inverse>) xs"
    using assms(1) by (auto simp: finished_def)
  have "distinct (xs @ [n]) \<and> set (xs @ [n]) = {x. (color(n := Black)) x = Black} \<and> topological (E\<inverse>) (xs @ [n])"
    using xs assms(2,3) by (auto simp: E_def)
  moreover have "\<forall>x. (color(n := Black)) x \<noteq> White \<longrightarrow> x \<in> V" using assms(1,2) by (auto simp: finished_def)
  ultimately show ?thesis unfolding finished_def by blast
qed

lemma finished_gray: "finished color \<Longrightarrow> n \<in> V \<Longrightarrow> color n = White \<Longrightarrow> finished (color(n := Gray))"
  unfolding finished_def by (auto simp: fun_upd_def split: if_splits)

lemma whites_mono: "(\<And>x. color' x = White \<Longrightarrow> color x = White) \<Longrightarrow> whites color' \<le> whites color"
  unfolding whites_def using finite_V by (auto intro!: card_mono)

lemma whites_gray: "n \<in> V \<Longrightarrow> color n = White \<Longrightarrow> Suc (whites (color(n := Gray))) = whites color"
proof -
  assume n: "n \<in> V" "color n = White"
  then have "{x \<in> V. color x = White} = insert n {x \<in> V. (color(n := Gray)) x = White}" by auto
  then show ?thesis using finite_V by (simp add: whites_def)
qed

lemma dfs_loop_found: "\<exists>color'. dfs_loop fuel forward n ms (color, Some x) = Some (color', Some x)"
  by (cases ms) auto

lemma searched_trans:
  assumes m: "searched m color (color', None)" "color m = White" and n: "searched n color' st" "m \<noteq> n"
  shows "searched n color st"
  using m n by (auto simp: searched_def split: option.splits) (metis colour.distinct)+

lemma dfs_loop_correct:
  assumes dfs: "\<And>n color. n \<in> V \<Longrightarrow> color n = White \<Longrightarrow> finished color \<Longrightarrow> \<forall>g. color g = Gray \<longrightarrow> (g, n) \<in> E\<^sup>+ \<Longrightarrow>
      whites color \<le> fuel \<Longrightarrow> \<exists>st. dfs fuel forward n (color, None) = Some st \<and> searched n color st"
    and "n \<in> V" "color n = Gray" "finished color" "\<forall>g. color g = Gray \<longrightarrow> (g, n) \<in> E\<^sup>*" "whites color \<le> fuel"
    and "set ms \<subseteq> set (next_of forward n)" "\<forall>m \<in> set (next_of forward n) - set ms. color m = Black"
  shows "\<exists>st. dfs_loop fuel forward n ms (color, None) = Some st \<and> searched n color st"
  using assms(2-8)
proof (induction ms arbitrary: color)
  case Nil
  then have "finished (color(n := Black))" by (intro finished_blacken) auto
  then show ?case by (simp add: searched_def)
next
  case (Cons m ms)
  have nm: "(n, m) \<in> E" using Cons.prems by (simp add: E_def)
  show ?case
  proof (cases "color m")
    case Gray
    then have "(m, m) \<in> E\<^sup>+" using Cons.prems(4) nm by (meson rtrancl_into_trancl1)
    then have "\<not> acyclic E" by (auto simp: acyclic_def)
    then show ?thesis using Gray by (simp add: searched_def)
  next
    case Black
    then have "\<forall>x \<in> set (next_of forward n) - set ms. color x = Black" using Cons.prems(7) by auto
    then show ?thesis using Cons.IH [of color] Cons.prems Black by simp
  next
    case White
    have "\<forall>g. color g = Gray \<longrightarrow> (g, m) \<in> E\<^sup>+" using Cons.prems(4) nm by (meson rtrancl_into_trancl1)
    moreover have "m \<in> V" using next_V Cons.prems(1,6) by auto
    ultimately obtain color' f where d: "dfs fuel forward m (color, None) = Some (color', f)" "searched m color (color', f)"
      using dfs [of m color] White Cons.prems(3,5) by auto
    show ?thesis
    proof (cases f)
      case (Some x)
      then have "\<not> acyclic E" using d(2) by (simp add: searched_def)
      then show ?thesis using dfs_loop_found [of fuel n ms color' x] d(1) White Some by (auto simp: searched_def)
    next
      case None
      have mn: "m \<noteq> n" using White Cons.prems(2) by auto
      have s: "finished color'" "color' m = Black" "\<forall>x. color x = Black \<longrightarrow> color' x = Black"
        "\<forall>x. x \<noteq> m \<longrightarrow> (color' x = Gray \<longleftrightarrow> color x = Gray)"
        using d(2) None by (auto simp: searched_def)
      have "color' x = White \<Longrightarrow> color x = White" for x using s White by (metis colour.exhaust colour.distinct(1,3))
      then have "whites color' \<le> fuel" using whites_mono [of color' color] Cons.prems(5) by fastforce
      moreover have "\<forall>g. color' g = Gray \<longrightarrow> (g, n) \<in> E\<^sup>*" using s(2,4) Cons.prems(4) by (metis colour.distinct(5))
      moreover have "\<forall>x \<in> set (next_of forward n) - set ms. color' x = Black" using Cons.prems(7) s(2,3) by auto
      ultimately obtain st where "dfs_loop fuel forward n ms (color', None) = Some st" "searched n color' st"
        using Cons.IH [of color'] Cons.prems(1,2,6,7) s mn by auto
      then show ?thesis using d White None searched_trans mn by auto
    qed
  qed
qed

lemma dfs_correct:
  assumes "n \<in> V" "color n = White" "finished color" "\<forall>g. color g = Gray \<longrightarrow> (g, n) \<in> E\<^sup>+" "whites color \<le> fuel"
  shows "\<exists>st. dfs fuel forward n (color, None) = Some st \<and> searched n color st"
  using assms
proof (induction fuel arbitrary: n color)
  case 0
  then show ?case using finite_V by (auto simp: whites_def)
next
  case (Suc fuel)
  let ?c = "color(n := Gray)"
  have "\<exists>st. dfs_loop fuel forward n (next_of forward n) (?c, None) = Some st \<and> searched n ?c st"
  proof (rule dfs_loop_correct)
    show "finished ?c" using Suc.prems finished_gray by blast
    show "whites ?c \<le> fuel" using whites_gray [of n color] Suc.prems(1,2) Suc.prems(5) by simp
    show "\<forall>g. ?c g = Gray \<longrightarrow> (g, n) \<in> E\<^sup>*" using Suc.prems(4) by (simp add: trancl_into_rtrancl)
  qed (use Suc in auto)
  moreover have "searched n ?c st \<Longrightarrow> searched n color st" for st
    using Suc.prems(2) by (auto simp: searched_def split: option.splits if_splits)
  ultimately show ?case by auto
qed

lemma detect_loop_found: "detect_loop fuel forward as (color, Some x) = Some (color, Some x)"
  by (cases as) auto

lemma detect_loop_correct:
  assumes "finished color" "\<forall>x. color x \<noteq> Gray" "card V \<le> fuel" "\<forall>a \<in> set as. pa_ID a \<noteq> [] \<longrightarrow> pa_ID a \<in> V"
  shows "\<exists>color' f. detect_loop fuel forward as (color, None) = Some (color', f)
     \<and> (case f of Some _ \<Rightarrow> \<not> acyclic E
        | None \<Rightarrow> finished color' \<and> (\<forall>x. color x = Black \<longrightarrow> color' x = Black) \<and> (\<forall>a \<in> set as. pa_ID a \<noteq> [] \<longrightarrow> color' (pa_ID a) = Black))"
  using assms
proof (induction "as" arbitrary: color)
  case (Cons a "as")
  show ?case
  proof (cases "pa_ID a = [] \<or> color (pa_ID a) \<noteq> White")
    case True
    have "color (pa_ID a) \<noteq> White \<Longrightarrow> color (pa_ID a) = Black" using Cons.prems(2) by (metis colour.exhaust)
    moreover obtain color2 g where "detect_loop fuel forward as (color, None) = Some (color2, g)"
        "case g of Some _ \<Rightarrow> \<not> acyclic E | None \<Rightarrow> finished color2 \<and> (\<forall>x. color x = Black \<longrightarrow> color2 x = Black)
           \<and> (\<forall>a \<in> set as. pa_ID a \<noteq> [] \<longrightarrow> color2 (pa_ID a) = Black)"
      using Cons.IH [of color] Cons.prems by auto
    ultimately show ?thesis using True by (cases g) auto
  next
    case False
    have "whites color \<le> fuel" using Cons.prems(3) card_mono [OF finite_V, of "{n \<in> V. color n = White}"] by (simp add: whites_def)
    then obtain color' f where d: "dfs fuel forward (pa_ID a) (color, None) = Some (color', f)" "searched (pa_ID a) color (color', f)"
      using dfs_correct [of "pa_ID a" color fuel] Cons.prems False by auto
    show ?thesis
    proof (cases f)
      case (Some x)
      then show ?thesis using d False by (simp add: detect_loop_found searched_def)
    next
      case None
      then have s: "finished color'" "color' (pa_ID a) = Black" "\<forall>x. color x = Black \<longrightarrow> color' x = Black" "\<forall>x. color' x \<noteq> Gray"
        using d(2) Cons.prems(2) by (auto simp: searched_def) (metis colour.distinct(5))
      then obtain color2 g where "detect_loop fuel forward as (color', None) = Some (color2, g)"
        "case g of Some _ \<Rightarrow> \<not> acyclic E | None \<Rightarrow> finished color2 \<and> (\<forall>x. color' x = Black \<longrightarrow> color2 x = Black)
           \<and> (\<forall>a \<in> set as. pa_ID a \<noteq> [] \<longrightarrow> color2 (pa_ID a) = Black)"
        using Cons.IH [of color'] Cons.prems(3,4) by auto
      then show ?thesis using d(1) None False s(2,3) by (cases g) simp_all
    qed
  qed
qed simp

lemma finished_init: "finished (\<lambda>_. White)"
  by (simp add: finished_def)

lemma detectPipelineCycle_correct:
  assumes V: "V = pa_ID ` set agents - {[]}"
  shows "\<exists>f. detectPipelineCycle agents forward = Some f \<and> (f = None \<longleftrightarrow> acyclic E)"
proof -
  have "card V \<le> card (pa_ID ` set agents)" unfolding V by (intro card_mono) auto
  also have "\<dots> \<le> length agents" by (meson card_image_le card_length finite_set order_trans)
  finally have card: "card V \<le> Suc (length agents)" by simp
  have ids: "\<forall>a \<in> set agents. pa_ID a \<noteq> [] \<longrightarrow> pa_ID a \<in> V" unfolding V by blast
  obtain color f where d: "detect_loop (Suc (length agents)) forward agents (\<lambda>_. White, None) = Some (color, f)"
    "case f of Some _ \<Rightarrow> \<not> acyclic E
     | None \<Rightarrow> finished color \<and> (\<forall>x. White = Black \<longrightarrow> color x = Black) \<and> (\<forall>a \<in> set agents. pa_ID a \<noteq> [] \<longrightarrow> color (pa_ID a) = Black)"
    using detect_loop_correct [OF finished_init _ card ids] by blast
  have "acyclic E" if f: "f = None"
  proof -
    obtain xs where xs: "distinct xs" "set xs = {n. color n = Black}" "topological (E\<inverse>) xs"
      using d(2) f by (auto simp: finished_def)
    have "V \<subseteq> set xs" unfolding V xs(2) using d(2) f by auto
    then have "snd ` E\<inverse> \<subseteq> set xs" by (auto simp: E_def)
    then have "acyclic (E\<inverse>)" using topological_acyclic xs(1,3) by blast
    then show ?thesis by (simp add: acyclic_converse)
  qed
  then show ?thesis using d by (auto simp: detectPipelineCycle_def split: option.splits)
qed

section \<open>The reachability search\<close>

definition pending :: "string list \<Rightarrow> nat" where
  "pending reachable = (\<Sum>n \<in> V - set reachable. length (next_of forward n))"

lemma pending_visit:
  assumes "n \<in> V" "n \<notin> set reachable"
  shows "pending (n # reachable) + length (next_of forward n) = pending reachable"
proof -
  let ?B = "V - set (n # reachable)"
  have "pending reachable = (\<Sum>x \<in> insert n ?B. length (next_of forward x))"
    unfolding pending_def by (rule sum.cong) (use assms in auto)
  also have "\<dots> = length (next_of forward n) + (\<Sum>x \<in> ?B. length (next_of forward x))"
    by (rule sum.insert) (use finite_V in auto)
  finally show ?thesis by (simp only: pending_def add.commute)
qed

lemma reach_loop_closed:
  assumes "length queue + pending reachable < fuel" "set queue \<subseteq> V" "set reachable \<subseteq> V"
    and "\<And>n. n \<in> set reachable \<Longrightarrow> set (next_of forward n) \<subseteq> set reachable \<union> set queue"
  shows "\<exists>R. reach_loop fuel forward queue reachable = Some R \<and> set reachable \<union> set queue \<subseteq> set R
           \<and> (\<forall>n \<in> set R. set (next_of forward n) \<subseteq> set R)"
  using assms
proof (induction fuel arbitrary: queue reachable)
  case (Suc fuel)
  show ?case
  proof (cases queue)
    case Nil
    then show ?thesis using Suc.prems by auto
  next
    case (Cons n q)
    show ?thesis
    proof (cases "n \<in> set reachable")
      case True
      have "set (next_of forward m) \<subseteq> set reachable \<union> set q" if "m \<in> set reachable" for m
        using Suc.prems(4) [OF that] Cons True by auto
      then show ?thesis using Suc.IH [of q reachable] Suc.prems(1-3) Cons True by auto
    next
      case False
      have nV: "n \<in> V" using Suc.prems(2) Cons by simp
      have "\<exists>R. reach_loop fuel forward (q @ next_of forward n) (n # reachable) = Some R
          \<and> set (n # reachable) \<union> set (q @ next_of forward n) \<subseteq> set R \<and> (\<forall>n \<in> set R. set (next_of forward n) \<subseteq> set R)"
      proof (rule Suc.IH)
        show "length (q @ next_of forward n) + pending (n # reachable) < fuel"
          using Suc.prems(1) Cons pending_visit [OF nV False] by simp
        show "set (q @ next_of forward n) \<subseteq> V" using Suc.prems(2) Cons next_V [OF nV] by auto
        show "set (n # reachable) \<subseteq> V" using Suc.prems(3) nV by simp
        show "set (next_of forward m) \<subseteq> set (n # reachable) \<union> set (q @ next_of forward n)" if "m \<in> set (n # reachable)" for m
          using that Suc.prems(4) [of m] Cons by auto
      qed
      then show ?thesis using Cons False by auto
    qed
  qed
qed simp

text \<open>In an acyclic graph the search from the sources meets every node.\<close>

lemma reach_loop_all:
  assumes "acyclic E" "reach_loop fuel forward sources [] = Some R" "length sources + pending [] < fuel"
    and src: "set sources = {n \<in> V. \<forall>u. (u, n) \<notin> E}"
  shows "V \<subseteq> set R"
proof (rule ccontr)
  have R: "set sources \<subseteq> set R" "\<forall>n \<in> set R. set (next_of forward n) \<subseteq> set R"
    using reach_loop_closed [of sources "[]" fuel] assms(2,3) src by auto
  assume "\<not> V \<subseteq> set R"
  moreover have "finite E" by (rule finite_subset [of _ "V \<times> V"]) (use finite_V next_V in \<open>auto simp: E_def\<close>)
  ultimately obtain v where v: "v \<in> V - set R" "\<And>u. (u, v) \<in> E \<Longrightarrow> u \<notin> V - set R"
    using acyclic_has_source [of E "V - set R"] assms(1) by blast
  then have "(u, v) \<notin> E" for u using R(2) by (auto simp: E_def)
  then show False using v(1) R(1) src by auto
qed

end

interpretation pg: adjacency_graph "forward_of agents edges" "node_ids agents" for agents edges
  by unfold_locales (auto simp: next_of_arcs dest: arcs_nodes)

lemma pg_E: "pg.E agents edges = arcs (node_ids agents) edges"
  by (auto simp: pg.E_def next_of_arcs dest: arcs_nodes)

lemma pending_edges: "pg.pending agents edges [] \<le> length edges"
proof -
  have "(\<Sum>n \<in> V. length (filter (\<lambda>e. P e \<and> pe_From e = n) es)) \<le> length es" if "finite V" for V es and P :: "pipeline_edge \<Rightarrow> bool"
  proof (induction es)
    case (Cons e es)
    have "(\<Sum>n \<in> V. length (filter (\<lambda>e. P e \<and> pe_From e = n) (e # es)))
        = (\<Sum>n \<in> V. length (filter (\<lambda>e. P e \<and> pe_From e = n) es) + (if n = pe_From e then (if P e then 1 else 0) else 0))"
      by (rule sum.cong) auto
    also have "\<dots> \<le> (\<Sum>n \<in> V. length (filter (\<lambda>e. P e \<and> pe_From e = n) es)) + 1"
      using that by (simp add: sum.distrib sum.delta)
    finally show ?case using Cons by simp
  qed simp
  from this [of "node_ids agents" "kept_edge (forward_nodes agents)" edges] show ?thesis
    by (simp add: pg.pending_def next_of_def forward_of_eq)
qed

text \<open>
  The graph checks return, and they report nothing exactly on an acyclic graph: the later search for
  unreachable nodes never adds an error.
\<close>

lemma validatePipelineGraph_acyclic:
  assumes "ps_Topology (pd_Spec def) = TopologyGraph" "ps_Agents (pd_Spec def) \<noteq> []"
  obtains errs where "validatePipelineGraph def = Some errs"
    "errs = [] \<longleftrightarrow> acyclic (arcs (node_ids (ps_Agents (pd_Spec def))) (ps_Edges (pd_Spec def)))"
    "\<forall>(field, p) \<in> set errs. \<exists>m. p = GraphCycle m"
proof -
  define agents edges where "agents = ps_Agents (pd_Spec def)" and "edges = ps_Edges (pd_Spec def)"
  define sources where "sources = map fst (filter (\<lambda>(n, deg). deg = 0) (inDegree_of agents edges))"
  obtain f where f: "detectPipelineCycle agents (forward_of agents edges) = Some f" "f = None \<longleftrightarrow> acyclic (arcs (node_ids agents) edges)"
    using pg.detectPipelineCycle_correct [of agents agents edges] pg_E by (auto simp: node_ids_def)
  show ?thesis
  proof (cases f)
    case (Some m)
    then show ?thesis
      by (intro that [of "[(''spec.edges'', GraphCycle m)]"])
         (use f assms in \<open>auto simp: validatePipelineGraph_def Let_def agents_def edges_def\<close>)
  next
    case None
    have src: "set sources = {n \<in> node_ids agents. \<forall>u. (u, n) \<notin> arcs (node_ids agents) edges}"
      unfolding sources_def using source_iff by blast
    have fuel: "length sources + pg.pending agents edges [] < Suc (length sources + length edges)"
      using pending_edges [of agents edges] by simp
    obtain R where R: "reach_loop (Suc (length sources + length edges)) (forward_of agents edges) sources [] = Some R"
      using pg.reach_loop_closed [OF fuel] src by auto
    have "node_ids agents \<subseteq> set R"
      using pg.reach_loop_all [OF _ R fuel] src f(2) None by (simp add: pg_E)
    then have "unreachable_errors agents R = []" by (auto simp: unreachable_errors_def node_ids_def)
    then have "validatePipelineGraph def = Some []"
      using assms f(1) R None unfolding sources_def agents_def edges_def by (simp add: validatePipelineGraph_def Let_def)
    then show ?thesis using that f(2) None by (auto simp: agents_def edges_def)
  qed
qed

section \<open>What the rules on nodes and edges establish\<close>

lemma check_agents_clean:
  assumes "check_agents i as seen errs = (seen', [])"
  shows "errs = [] \<and> (\<forall>a \<in> set as. pa_ID a \<noteq> [] \<and> pa_Ref a \<noteq> [] \<and> seen (pa_ID a) = None)
    \<and> distinct (map pa_ID as) \<and> dom seen' = dom seen \<union> pa_ID ` set as"
  using assms
proof (induction "as" arbitrary: i seen errs)
  case (Cons a "as")
  show ?case
  proof (cases "pa_ID a = [] \<or> seen (pa_ID a) \<noteq> None")
    case True
    then have "\<exists>errs1 x. check_agents (Suc i) as seen (errs1 @ [x]) = (seen', [])"
      using Cons.prems by (auto simp: Let_def simp flip: append_assoc split: if_splits)
    then show ?thesis using Cons.IH by blast
  next
    case False
    then have "check_agents (Suc i) as (seen(pa_ID a \<mapsto> i)) (errs @ (if pa_Ref a = [] then [(agent_field i @ ''.ref'', RequiredFieldMissing)] else []))
        = (seen', [])" using Cons.prems by (simp add: Let_def)
    from Cons.IH [OF this] False show ?thesis by (auto split: if_splits)
  qed
qed simp

lemma check_edges_clean:
  assumes "check_edges seen i es seenEdges errs = []"
  shows "errs = [] \<and> (\<forall>e \<in> set es. pe_From e \<in> dom seen \<and> pe_To e \<in> dom seen \<and> pe_From e \<noteq> pe_To e)"
  using assms
proof (induction es arbitrary: i seenEdges errs)
  case (Cons e es)
  have "\<exists>se extra. check_edges seen (Suc i) es se ((errs @ edge_problems seen i e) @ extra) = []"
  proof (cases "seenEdges (pe_From e, pe_To e, pe_WhenContains e)")
    case None
    then show ?thesis using Cons.prems append_Nil2 unfolding check_edges.simps Let_def by (metis option.case(1))
  next
    case (Some prev)
    then show ?thesis using Cons.prems append_Nil2 unfolding check_edges.simps Let_def by (metis option.case(2))
  qed
  then have "errs = [] \<and> edge_problems seen i e = [] \<and> (\<forall>e \<in> set es. pe_From e \<in> dom seen \<and> pe_To e \<in> dom seen \<and> pe_From e \<noteq> pe_To e)"
    using Cons.IH by (metis append_is_Nil_conv)
  then show ?case by (auto simp: edge_problems_def check_endpoint_def Let_def split: if_splits)
qed simp

lemma ValidatePipeline_clean:
  assumes "ValidatePipeline unknown def = Some []"
  defines "spec \<equiv> pd_Spec def"
  shows "ps_Topology spec \<in> set validPipelineTopologies" "ps_Agents spec \<noteq> []"
    "\<And>a. a \<in> set (ps_Agents spec) \<Longrightarrow> pa_ID a \<noteq> [] \<and> pa_Ref a \<noteq> []" "distinct (map pa_ID (ps_Agents spec))"
    "\<And>e. e \<in> set (ps_Edges spec) \<Longrightarrow> pe_From e \<in> node_ids (ps_Agents spec) \<and> pe_To e \<in> node_ids (ps_Agents spec) \<and> pe_From e \<noteq> pe_To e"
    "ps_Topology spec = TopologyGraph \<Longrightarrow> acyclic (arcs (node_ids (ps_Agents spec)) (ps_Edges spec))"
    "md_Name (pd_Metadata def) \<noteq> []"
proof -
  have v: "validatePipelineSpec def = []" "validatePipelineGraph def = Some []" "validatePipelineMetadata def = []"
    using assms(1) by (auto simp: ValidatePipeline_def split: option.splits)
  obtain seen errs2 where c: "check_agents 0 (ps_Agents spec) Map.empty
      (check_topology (ps_Topology spec) @ (if ps_Agents spec = [] then [(''spec.agents'', NoAgents)] else [])) = (seen, errs2)"
    by fastforce
  have vs: "(if ps_Edges spec = [] then errs2 else check_edges seen 0 (ps_Edges spec) Map.empty
      (errs2 @ (if ps_Topology spec \<noteq> [] \<and> ps_Topology spec \<noteq> TopologyGraph
                then [(''spec.edges'', EdgesNotHonored (ps_Topology spec))] else []))) = []"
    using v(1) unfolding validatePipelineSpec_def Let_def spec_def [symmetric] c by simp
  have edges: "errs2 = [] \<and> (\<forall>e \<in> set (ps_Edges spec). pe_From e \<in> dom seen \<and> pe_To e \<in> dom seen \<and> pe_From e \<noteq> pe_To e)"
  proof (cases "ps_Edges spec = []")
    case True
    then show ?thesis using vs by simp
  next
    case False
    then show ?thesis using check_edges_clean [OF vs [unfolded if_not_P [OF False]]] by (metis append_is_Nil_conv)
  qed
  then have "errs2 = []" by simp
  note a = check_agents_clean [OF c [unfolded this]]
  show "ps_Topology spec \<in> set validPipelineTopologies" "ps_Agents spec \<noteq> []"
    using a by (auto simp: check_topology_def split: if_splits)
  show "\<And>a. a \<in> set (ps_Agents spec) \<Longrightarrow> pa_ID a \<noteq> [] \<and> pa_Ref a \<noteq> []" "distinct (map pa_ID (ps_Agents spec))"
    using a by auto
  have dom: "dom seen = node_ids (ps_Agents spec)" using a by (auto simp: node_ids_def)
  show "pe_From e \<in> node_ids (ps_Agents spec) \<and> pe_To e \<in> node_ids (ps_Agents spec) \<and> pe_From e \<noteq> pe_To e"
    if "e \<in> set (ps_Edges spec)" for e
    using edges that dom by blast
  show "ps_Topology spec = TopologyGraph \<Longrightarrow> acyclic (arcs (node_ids (ps_Agents spec)) (ps_Edges spec))"
    using v(2) validatePipelineGraph_acyclic [of def] \<open>ps_Agents spec \<noteq> []\<close> by (metis option.inject spec_def)
  show "md_Name (pd_Metadata def) \<noteq> []" using v(3) by (auto simp: validatePipelineMetadata_def Let_def)
qed

section \<open>Properties\<close>

text \<open>
  C6. The graph checks always return and decide acyclicity: on a pipeline with graph topology and at
  least one node they report an error exactly when the edges between distinct declared nodes form a
  cycle, and that error is the cycle error.
\<close>
theorem validatePipelineGraph_decides_acyclicity:
  assumes "ps_Topology (pd_Spec def) = TopologyGraph" "ps_Agents (pd_Spec def) \<noteq> []"
  shows "\<exists>errs. validatePipelineGraph def = Some errs
    \<and> (errs = [] \<longleftrightarrow> acyclic (arcs (node_ids (ps_Agents (pd_Spec def))) (ps_Edges (pd_Spec def))))
    \<and> (\<forall>(field, p) \<in> set errs. \<exists>m. p = GraphCycle m)"
  using validatePipelineGraph_acyclic [OF assms] by metis

definition sample_graph :: "(string \<times> string \<times> string) list \<Rightarrow> pipeline_definition" where
  "sample_graph es = \<lparr>pd_APIVersion = AgentAPIVersion, pd_Kind = PipelineKind,
     pd_Metadata = \<lparr>md_Name = ''p'', md_Description = [], md_Tags = [], md_TenantID = []\<rparr>,
     pd_Spec = \<lparr>ps_Topology = TopologyGraph,
       ps_Agents = map (\<lambda>n. \<lparr>pa_ID = n, pa_Ref = ''b''\<rparr>) [''a'', ''b'', ''c'', ''d''],
       ps_Edges = map (\<lambda>(u, v, w). \<lparr>pe_From = u, pe_To = v, pe_WhenContains = w\<rparr>) es\<rparr>\<rparr>"

theorem validatePipelineGraph_decides_acyclicity_witness:
  "acyclic (arcs {''a'', ''b'', ''c'', ''d''} (ps_Edges (pd_Spec (sample_graph [(''a'', ''b'', []), (''b'', ''c'', ''x'')]))))
   \<and> \<not> acyclic (arcs {''a'', ''b'', ''c'', ''d''} (ps_Edges (pd_Spec (sample_graph [(''a'', ''b'', []), (''b'', ''a'', [])]))))"
proof -
  have g: "ps_Topology (pd_Spec (sample_graph es)) = TopologyGraph" "ps_Agents (pd_Spec (sample_graph es)) \<noteq> []"
    "node_ids (ps_Agents (pd_Spec (sample_graph es))) = {''a'', ''b'', ''c'', ''d''}" for es
    by (auto simp: sample_graph_def node_ids_def)
  have "validatePipelineGraph (sample_graph [(''a'', ''b'', []), (''b'', ''c'', ''x'')]) = Some []"
    "validatePipelineGraph (sample_graph [(''a'', ''b'', []), (''b'', ''a'', [])]) = Some [(''spec.edges'', GraphCycle ''a'')]"
    by code_simp+
  then show ?thesis
    using validatePipelineGraph_decides_acyclicity [OF g(1,2), of "[(''a'', ''b'', []), (''b'', ''c'', ''x'')]"]
      validatePipelineGraph_decides_acyclicity [OF g(1,2), of "[(''a'', ''b'', []), (''b'', ''a'', [])]"] g(3) by auto
qed

end
