(* ===== verification/Pipeline.thy ===== *)
theory Pipeline
  imports Engine Pipeline_Validator
begin

text \<open>
  \<^verbatim>\<open>internal/engine/pipeline.go\<close> and \<^verbatim>\<open>pipeline_registry.go\<close>: the registry of pipelines and the executor
  that drives the engine through the nodes of one, in sequence, in parallel or along the edges of a
  graph. The executor's collaborators are arguments: the environment of each engine call, the meter
  (admission and charge of a node, on a state of its own) and whether a recorder is wired. The nodes of
  a parallel run take effect one after the other in the order of a schedule. Latencies are left out.
\<close>

section \<open>The pipeline registry\<close>

record pipeline_registry =
  plr_pipelines :: "(string, pipeline_definition) gomap"
  plr_sources :: "string \<rightharpoonup> string"

definition NewPipelineRegistry :: pipeline_registry where
  "NewPipelineRegistry = \<lparr>plr_pipelines = [], plr_sources = Map.empty\<rparr>"

abbreviation pipeline_name :: "pipeline_definition \<Rightarrow> string" where
  "pipeline_name def \<equiv> md_Name (pd_Metadata def)"

definition RegisterPipeline :: "pipeline_definition option \<Rightarrow> pipeline_registry \<Rightarrow> pipeline_registry" where
  "RegisterPipeline d r =
     (case d of
        None \<Rightarrow> r
      | Some def \<Rightarrow> if pipeline_name def = [] then r
                    else r\<lparr>plr_pipelines := gm_put (pipeline_name def) def (plr_pipelines r)\<rparr>)"

definition RegisterPipelineWithSource :: "pipeline_definition option \<Rightarrow> string \<Rightarrow> pipeline_registry \<Rightarrow> pipeline_registry" where
  "RegisterPipelineWithSource d sourcePath r =
     (case d of
        None \<Rightarrow> r
      | Some def \<Rightarrow>
          if pipeline_name def = [] then r
          else r\<lparr>plr_pipelines := gm_put (pipeline_name def) def (plr_pipelines r),
                 plr_sources := (plr_sources r)(pipeline_name def := (if sourcePath = [] then None else Some sourcePath))\<rparr>)"

definition PipelineSource :: "string \<Rightarrow> pipeline_registry \<Rightarrow> string" where
  "PipelineSource name r = (case plr_sources r name of None \<Rightarrow> [] | Some p \<Rightarrow> p)"

definition GetPipeline :: "string \<Rightarrow> pipeline_registry \<Rightarrow> pipeline_definition option" where
  "GetPipeline name r = gm_get (plr_pipelines r) name"

definition ListPipelines :: "pipeline_registry \<Rightarrow> pipeline_definition list" where
  "ListPipelines r = sort_key pipeline_name (map snd (plr_pipelines r))"

definition CountPipelines :: "pipeline_registry \<Rightarrow> nat" where
  "CountPipelines r = length (plr_pipelines r)"

section \<open>Results\<close>

record node_result =
  nr_NodeID :: string
  nr_AgentName :: string
  nr_Response :: "response option"

record pipeline_result =
  pr_PipelineName :: string
  pr_Topology :: string
  pr_Nodes :: "node_result list"

definition FinalResponse :: "pipeline_result \<Rightarrow> response option" where
  "FinalResponse r = (case find (\<lambda>n. nr_Response n \<noteq> None) (rev (pr_Nodes r)) of None \<Rightarrow> None | Some n \<Rightarrow> nr_Response n)"

definition ResponseByNodeID :: "string \<Rightarrow> pipeline_result \<Rightarrow> response option" where
  "ResponseByNodeID nid r = (case find (\<lambda>n. nr_NodeID n = nid) (pr_Nodes r) of None \<Rightarrow> None | Some n \<Rightarrow> nr_Response n)"

datatype pipeline_error =
    NilDefinition
  | NoPipelineAgents
  | ErrUnknownTopology string
  | ErrPipelineCycle "string list"
  | UnknownNodeID string string
  | MissingAgentRef string string
  | NodeAgentNotFound string string string
  | NodeNotAdmitted string string string
  | NodeFailed engine_error
  | JoinedErrors "pipeline_error list"

record node_interaction =
  ni_TenantID :: string
  ni_PipelineName :: string
  ni_NodeID :: string
  ni_AgentName :: string
  ni_SessionID :: string
  ni_Protocol :: string
  ni_Input :: string
  ni_Response :: "response option"
  ni_Err :: "pipeline_error option"

section \<open>Running one node\<close>

record 'm node_meter =
  nm_AdmitNode :: "'m \<Rightarrow> string option \<times> 'm"
  nm_ChargeNode :: "node_interaction \<Rightarrow> 'm \<Rightarrow> 'm"

record ('t, 'm) executor =
  ex_envs :: "nat \<Rightarrow> 't env"
  ex_tenant :: string
  ex_Meter :: "'m node_meter option"
  ex_records :: bool

record ('t, 'm) run =
  ru_Engine :: "'t engine"
  ru_meter :: 'm
  ru_log :: "node_interaction list"
  ru_calls :: nat

definition record_node ::
  "('t, 'm) executor \<Rightarrow> string \<Rightarrow> pipeline_agent \<Rightarrow> string \<Rightarrow> string \<Rightarrow> response option \<Rightarrow> pipeline_error option
     \<Rightarrow> ('t, 'm) run \<Rightarrow> ('t, 'm) run" where
  "record_node ex pipelineName node session input resp err ru =
     (if \<not> ex_records ex then ru
      else ru\<lparr>ru_log := ru_log ru @
        [\<lparr>ni_TenantID = ex_tenant ex, ni_PipelineName = pipelineName, ni_NodeID = pa_ID node, ni_AgentName = pa_Ref node,
          ni_SessionID = session,
          ni_Protocol = (case GetForTenant (pa_Ref node) (ex_tenant ex) (en_Registry (ru_Engine ru)) of
                           None \<Rightarrow> [] | Some d \<Rightarrow> as_Protocol (ad_Spec d)),
          ni_Input = input, ni_Response = resp, ni_Err = err\<rparr>]\<rparr>)"

definition admit_node :: "('t, 'm) executor \<Rightarrow> ('t, 'm) run \<Rightarrow> string option \<times> ('t, 'm) run" where
  "admit_node ex ru =
     (case ex_Meter ex of
        None \<Rightarrow> (None, ru)
      | Some m \<Rightarrow> (case nm_AdmitNode m (ru_meter ru) of (r, ms) \<Rightarrow> (r, ru\<lparr>ru_meter := ms\<rparr>)))"

definition charge_node :: "('t, 'm) executor \<Rightarrow> node_interaction \<Rightarrow> ('t, 'm) run \<Rightarrow> ('t, 'm) run" where
  "charge_node ex n ru =
     (case ex_Meter ex of None \<Rightarrow> ru | Some m \<Rightarrow> ru\<lparr>ru_meter := nm_ChargeNode m n (ru_meter ru)\<rparr>)"

definition scoped_session :: "string \<Rightarrow> string \<Rightarrow> string \<Rightarrow> string" where
  "scoped_session sessionID pipelineName nid = sessionID @ ''::'' @ pipelineName @ ''::'' @ nid"

definition invokeNode ::
  "('t, 'm) executor \<Rightarrow> string \<Rightarrow> string \<Rightarrow> pipeline_agent \<Rightarrow> string \<Rightarrow> ('t, 'm) run
     \<Rightarrow> (node_result \<times> pipeline_error option) \<times> ('t, 'm) run" where
  "invokeNode ex pipelineName sessionID node input ru =
     (let session = scoped_session sessionID pipelineName (pa_ID node);
          failed = (\<lambda>agentName err ru'. ((\<lparr>nr_NodeID = pa_ID node, nr_AgentName = agentName, nr_Response = None\<rparr>, Some err),
                                         record_node ex pipelineName node session input None (Some err) ru'))
      in if pa_Ref node = [] then failed [] (MissingAgentRef pipelineName (pa_ID node)) ru
         else if GetForTenant (pa_Ref node) (ex_tenant ex) (en_Registry (ru_Engine ru)) = None
         then failed (pa_Ref node) (NodeAgentNotFound pipelineName (pa_ID node) (pa_Ref node)) ru
         else
           (case admit_node ex ru of
              (Some why, ru1) \<Rightarrow> failed (pa_Ref node) (NodeNotAdmitted pipelineName (pa_ID node) why) ru1
            | (None, ru1) \<Rightarrow>
                (case ProcessRequestContext (ex_envs ex (ru_calls ru1)) (ex_tenant ex)
                        (simple_request (pa_Ref node) session [user_message input]) (ru_Engine ru1) of
                   (r, e') \<Rightarrow>
                     let ru2 = ru1\<lparr>ru_Engine := e', ru_calls := Suc (ru_calls ru1)\<rparr>
                     in case r of
                          Inl err \<Rightarrow> failed (pa_Ref node) (NodeFailed err) ru2
                        | Inr resp \<Rightarrow>
                            ((\<lparr>nr_NodeID = pa_ID node, nr_AgentName = pa_Ref node, nr_Response = Some resp\<rparr>, None),
                             charge_node ex
                               \<lparr>ni_TenantID = ex_tenant ex, ni_PipelineName = pipelineName, ni_NodeID = pa_ID node,
                                ni_AgentName = pa_Ref node, ni_SessionID = session, ni_Protocol = [], ni_Input = input,
                                ni_Response = Some resp, ni_Err = None\<rparr>
                               (record_node ex pipelineName node session input (Some resp) None ru2)))))"

text \<open>
  The content the executor reads off a node that succeeded; the response of such a node is never nil
  (\<open>invokeNode_result\<close>).
\<close>

definition node_content :: "node_result \<Rightarrow> string" where
  "node_content nr = (case nr_Response nr of None \<Rightarrow> [] | Some r \<Rightarrow> rs_Content r)"

type_synonym 'r invoker = "pipeline_agent \<Rightarrow> string \<Rightarrow> 'r \<Rightarrow> (node_result \<times> pipeline_error option) \<times> 'r"

section \<open>Sequence and parallel\<close>

fun runSequential :: "'r invoker \<Rightarrow> pipeline_agent list \<Rightarrow> string \<Rightarrow> node_result list \<Rightarrow> 'r \<Rightarrow> (node_result list \<times> pipeline_error option) \<times> 'r" where
  "runSequential invoke [] input nodes ru = ((nodes, None), ru)"
| "runSequential invoke (node # rest) input nodes ru =
     (case invoke node input ru of
        ((nr, Some err), ru1) \<Rightarrow> ((nodes @ [nr], Some err), ru1)
      | ((nr, None), ru1) \<Rightarrow> runSequential invoke rest (node_content nr) (nodes @ [nr]) ru1)"

definition errors_Join :: "pipeline_error option list \<Rightarrow> pipeline_error option" where
  "errors_Join errs = (case List.map_filter id errs of [] \<Rightarrow> None | es \<Rightarrow> Some (JoinedErrors es))"

text \<open>The goroutine of node \<open>i\<close>.\<close>

definition parallel_node ::
  "'r invoker \<Rightarrow> pipeline_agent list \<Rightarrow> string \<Rightarrow> nat \<Rightarrow> node_result option list \<times> pipeline_error option list \<times> 'r
     \<Rightarrow> node_result option list \<times> pipeline_error option list \<times> 'r" where
  "parallel_node invoke agents userMsg i =
     (\<lambda>(results, errs, ru). case invoke (agents ! i) userMsg ru of ((nr, err), ru1) \<Rightarrow> (results[i := Some nr], errs[i := err], ru1))"

definition runParallel :: "'r invoker \<Rightarrow> nat list \<Rightarrow> pipeline_agent list \<Rightarrow> string \<Rightarrow> 'r \<Rightarrow> (node_result list \<times> pipeline_error option) \<times> 'r" where
  "runParallel invoke sched agents userMsg ru =
     (case fold (parallel_node invoke agents userMsg) sched
             (replicate (length agents) None, replicate (length agents) None, ru) of
        (results, errs, ru') \<Rightarrow> ((List.map_filter id results, errors_Join errs), ru'))"

section \<open>Graph\<close>

definition nodesByID_of :: "pipeline_agent list \<Rightarrow> (string \<rightharpoonup> pipeline_agent)" where
  "nodesByID_of agents = fold (\<lambda>n m. m(pa_ID n \<mapsto> n)) agents Map.empty"

definition outgoing_of :: "pipeline_edge list \<Rightarrow> string \<Rightarrow> pipeline_edge list" where
  "outgoing_of edges = fold (\<lambda>e m. m(pe_From e := m (pe_From e) @ [e])) edges (\<lambda>_. [])"

definition indegree_of :: "pipeline_agent list \<Rightarrow> pipeline_edge list \<Rightarrow> (string, int) gomap" where
  "indegree_of agents edges =
     fold (\<lambda>e m. if pe_From e = pe_To e then m
                 else if nodesByID_of agents (pe_From e) \<noteq> None \<and> nodesByID_of agents (pe_To e) \<noteq> None
                 then gm_incr (pe_To e) m else m)
       edges (fold (\<lambda>n m. gm_put (pa_ID n) 0 m) agents [])"

definition degree :: "(string, int) gomap \<Rightarrow> string \<Rightarrow> int" where
  "degree m n = (case gm_get m n of None \<Rightarrow> 0 | Some d \<Rightarrow> d)"

text \<open>One node leaves Kahn's queue: its edges lower the counts of the nodes that remain.\<close>

fun kahn_edges :: "pipeline_edge list \<Rightarrow> (string, int) gomap \<Rightarrow> string list \<Rightarrow> (string, int) gomap \<times> string list" where
  "kahn_edges [] remaining queue = (remaining, queue)"
| "kahn_edges (e # es) remaining queue =
     (if pe_From e = pe_To e then kahn_edges es remaining queue
      else case gm_get remaining (pe_To e) of
             None \<Rightarrow> kahn_edges es remaining queue
           | Some d \<Rightarrow> kahn_edges es (gm_put (pe_To e) (d - 1) remaining)
                         (if d - 1 = 0 then queue @ [pe_To e] else queue))"

definition kahn_measure :: "(string, int) gomap \<Rightarrow> string list \<Rightarrow> nat" where
  "kahn_measure remaining queue = length queue + (\<Sum>(n, d) \<leftarrow> remaining. nat d)"

lemma kahn_put:
  assumes "gm_get m n = Some d" "0 < d"
  shows "(\<Sum>(k, x) \<leftarrow> gm_put n (d - 1) m. nat x) + 1 = (\<Sum>(k, x) \<leftarrow> m. nat x)"
  using assms by (induction m) (auto split: if_splits)

lemma kahn_put_le:
  assumes "gm_get m n = Some d"
  shows "(\<Sum>(k, x) \<leftarrow> gm_put n (d - 1) m. nat x) \<le> (\<Sum>(k, x) \<leftarrow> m. nat x)"
  using assms by (induction m) (auto split: if_splits)

lemma kahn_del_le: "(\<Sum>(k, x) \<leftarrow> gm_del n m. nat x) \<le> (\<Sum>(k, x) \<leftarrow> m. nat x)"
  by (induction m) auto

lemma kahn_edges_measure:
  "kahn_edges es remaining queue = (r, q) \<Longrightarrow> kahn_measure r q \<le> kahn_measure remaining queue"
proof (induction es remaining queue rule: kahn_edges.induct)
  case (2 e es remaining queue)
  show ?case
  proof (cases "pe_From e = pe_To e \<or> gm_get remaining (pe_To e) = None")
    case True
    then show ?thesis using 2 by (auto split: if_splits)
  next
    case False
    then obtain d where d: "gm_get remaining (pe_To e) = Some d" by auto
    have "kahn_measure r q \<le> kahn_measure (gm_put (pe_To e) (d - 1) remaining) (if d - 1 = 0 then queue @ [pe_To e] else queue)"
      using 2(3) [OF _ d] 2(4) False d by simp
    also have "\<dots> \<le> kahn_measure remaining queue"
      using kahn_put [OF d] kahn_put_le [OF d] by (cases "d = 1") (simp_all add: kahn_measure_def)
    finally show ?thesis .
  qed
qed simp

function kahn_loop :: "(string \<Rightarrow> pipeline_edge list) \<Rightarrow> (string, int) gomap \<Rightarrow> string list \<Rightarrow> (string, int) gomap" where
  "kahn_loop outgoing remaining [] = remaining"
| "kahn_loop outgoing remaining (n # queue) =
     (case kahn_edges (outgoing n) (gm_del n remaining) queue of (r, q) \<Rightarrow> kahn_loop outgoing r q)"
  by pat_completeness auto
termination
proof (relation "measure (\<lambda>(outgoing, remaining, queue). kahn_measure remaining queue)", goal_cases)
  case (2 outgoing remaining n queue x y)
  have "kahn_measure x y \<le> kahn_measure (gm_del n remaining) queue" using kahn_edges_measure 2 by metis
  also have "\<dots> < kahn_measure remaining (n # queue)" using kahn_del_le [of n remaining] by (simp add: kahn_measure_def)
  finally show ?case by simp
qed simp

fun stuck_nodes :: "pipeline_agent list \<Rightarrow> (string, int) gomap \<Rightarrow> string list" where
  "stuck_nodes [] remaining = []"
| "stuck_nodes (n # ns) remaining =
     (if gm_get remaining (pa_ID n) \<noteq> None then pa_ID n # stuck_nodes ns (gm_del (pa_ID n) remaining)
      else stuck_nodes ns remaining)"

definition cyclicNodes :: "pipeline_agent list \<Rightarrow> (string \<Rightarrow> pipeline_edge list) \<Rightarrow> (string, int) gomap \<Rightarrow> string list" where
  "cyclicNodes agents outgoing indegree =
     (let remaining = kahn_loop outgoing indegree (map fst (filter (\<lambda>(n, d). d = 0) indegree))
      in if remaining = [] then [] else stuck_nodes agents remaining)"

record 'r graph_run =
  gr_invoke :: "'r invoker"
  gr_name :: string
  gr_nodes :: "string \<rightharpoonup> pipeline_agent"
  gr_outgoing :: "string \<Rightarrow> pipeline_edge list"
  gr_indegree :: "string \<Rightarrow> int"
  gr_userMsg :: string

record 'r walk =
  wk_waiting :: "string \<Rightarrow> int"
  wk_inputs :: "string \<Rightarrow> string list"
  wk_settled :: "string \<Rightarrow> bool"
  wk_nodes :: "node_result list"
  wk_run :: 'r

definition edge_fires :: "bool \<Rightarrow> string \<Rightarrow> pipeline_edge \<Rightarrow> bool" where
  "edge_fires live content e = (live \<and> (pe_WhenContains e = [] \<or> strings_Contains content (pe_WhenContains e)))"

definition blank_line :: string where "blank_line = [CHR 0x0A, CHR 0x0A]"

definition node_of :: "(string \<rightharpoonup> pipeline_agent) \<Rightarrow> string \<Rightarrow> pipeline_agent" where
  "node_of nodes n = (case nodes n of None \<Rightarrow> \<lparr>pa_ID = [], pa_Ref = []\<rparr> | Some a \<Rightarrow> a)"

text \<open>The closure \<^verbatim>\<open>settle\<close>; \<open>feed\<close> is its loop over the outgoing edges. \<open>None\<close> means out of fuel.\<close>

fun settle :: "'r graph_run \<Rightarrow> nat \<Rightarrow> string \<Rightarrow> 'r walk \<Rightarrow> (pipeline_error option \<times> 'r walk) option"
  and feed :: "'r graph_run \<Rightarrow> nat \<Rightarrow> bool \<Rightarrow> string \<Rightarrow> string list \<Rightarrow> pipeline_edge list \<Rightarrow> 'r walk \<Rightarrow> (pipeline_error option \<times> 'r walk) option" where
  "settle g 0 n st = None"
| "settle g (Suc fuel) n st =
     (if wk_settled st n then Some (None, st)
      else
        let st1 = st\<lparr>wk_settled := (wk_settled st)(n := True)\<rparr>
        in if gr_indegree g n = 0 \<or> wk_inputs st1 n \<noteq> []
           then (case gr_invoke g (node_of (gr_nodes g) n)
                        (if 0 < gr_indegree g n then strings_Join (wk_inputs st1 n) blank_line else gr_userMsg g) (wk_run st1) of
                   ((nr, err), r) \<Rightarrow>
                     let st2 = st1\<lparr>wk_nodes := wk_nodes st1 @ [nr], wk_run := r\<rparr>
                     in case err of
                          Some e \<Rightarrow> Some (Some e, st2)
                        | None \<Rightarrow> feed g fuel True (node_content nr) [] (gr_outgoing g n) st2)
           else feed g fuel False [] [] (gr_outgoing g n) st1)"
| "feed g fuel live content fed [] st = Some (None, st)"
| "feed g fuel live content fed (e # es) st =
     (if pe_From e = pe_To e then feed g fuel live content fed es st
      else
        let fires = edge_fires live content e; to = pe_To e
        in if gr_nodes g to = None
           then (if fires then Some (Some (UnknownNodeID (gr_name g) to), st) else feed g fuel live content fed es st)
           else
             let fresh = (fires \<and> to \<notin> set fed);
                 fed1 = (if fresh then to # fed else fed);
                 st1 = (if fresh then st\<lparr>wk_inputs := (wk_inputs st)(to := wk_inputs st to @ [content])\<rparr> else st);
                 st2 = st1\<lparr>wk_waiting := (wk_waiting st1)(to := wk_waiting st1 to - 1)\<rparr>
             in if wk_waiting st2 to = 0
                then (case settle g fuel to st2 of
                        None \<Rightarrow> None
                      | Some (Some err, st3) \<Rightarrow> Some (Some err, st3)
                      | Some (None, st3) \<Rightarrow> feed g fuel live content fed1 es st3)
                else feed g fuel live content fed1 es st2)"

fun settle_roots :: "'r graph_run \<Rightarrow> nat \<Rightarrow> pipeline_agent list \<Rightarrow> 'r walk \<Rightarrow> (pipeline_error option \<times> 'r walk) option" where
  "settle_roots g fuel [] st = Some (None, st)"
| "settle_roots g fuel (a # as) st =
     (if gr_indegree g (pa_ID a) = 0
      then (case settle g fuel (pa_ID a) st of
              None \<Rightarrow> None
            | Some (Some err, st1) \<Rightarrow> Some (Some err, st1)
            | Some (None, st1) \<Rightarrow> settle_roots g fuel as st1)
      else settle_roots g fuel as st)"

definition graph_run_of :: "'r invoker \<Rightarrow> string \<Rightarrow> pipeline_agent list \<Rightarrow> pipeline_edge list \<Rightarrow> string \<Rightarrow> 'r graph_run" where
  "graph_run_of invoke name agents edges userMsg =
     \<lparr>gr_invoke = invoke, gr_name = name, gr_nodes = nodesByID_of agents, gr_outgoing = outgoing_of edges,
      gr_indegree = degree (indegree_of agents edges), gr_userMsg = userMsg\<rparr>"

definition runGraph ::
  "'r invoker \<Rightarrow> string \<Rightarrow> pipeline_agent list \<Rightarrow> pipeline_edge list \<Rightarrow> string \<Rightarrow> 'r
     \<Rightarrow> ((node_result list \<times> pipeline_error option) \<times> 'r) option" where
  "runGraph invoke name agents edges userMsg ru =
     (let indegree = indegree_of agents edges; cyclic = cyclicNodes agents (outgoing_of edges) indegree
      in if cyclic \<noteq> [] then Some (([], Some (ErrPipelineCycle cyclic)), ru)
         else map_option (\<lambda>(err, st). ((wk_nodes st, err), wk_run st))
                (settle_roots (graph_run_of invoke name agents edges userMsg) (Suc (length agents)) agents
                   \<lparr>wk_waiting = degree indegree, wk_inputs = (\<lambda>_. []), wk_settled = (\<lambda>_. False), wk_nodes = [], wk_run = ru\<rparr>))"

section \<open>Running a pipeline\<close>

definition RunContext ::
  "('t, 'm) executor \<Rightarrow> nat list \<Rightarrow> string \<Rightarrow> pipeline_definition option \<Rightarrow> string \<Rightarrow> string \<Rightarrow> ('t, 'm) run
     \<Rightarrow> ((pipeline_result option \<times> pipeline_error option) \<times> ('t, 'm) run) option" where
  "RunContext ex sched newRunID d userMsg sessionID ru =
     (case d of
        None \<Rightarrow> Some ((None, Some NilDefinition), ru)
      | Some def \<Rightarrow>
          let spec = pd_Spec def; name = pipeline_name def;
              sid = (if sessionID = [] then newRunID else sessionID);
              invoke = invokeNode ex name sid;
              finish = (\<lambda>((nodes, err), ru'). ((Some \<lparr>pr_PipelineName = name, pr_Topology = ps_Topology spec, pr_Nodes = nodes\<rparr>, err), ru'))
          in if ps_Agents spec = [] then Some ((None, Some NoPipelineAgents), ru)
             else if ps_Topology spec = TopologySequential \<or> ps_Topology spec = []
             then Some (finish (runSequential invoke (ps_Agents spec) userMsg [] ru))
             else if ps_Topology spec = TopologyParallel
             then Some (finish (runParallel invoke sched (ps_Agents spec) userMsg ru))
             else if ps_Topology spec = TopologyGraph
             then map_option finish (runGraph invoke name (ps_Agents spec) (ps_Edges spec) userMsg ru)
             else Some ((None, Some (ErrUnknownTopology (ps_Topology spec))), ru))"

end
