(* ===== verification/Pipeline_Kahn.thy ===== *)
theory Pipeline_Kahn
  imports Pipeline
begin

text \<open>
  The graph tables that the executor builds from a pipeline, and the proof that its cycle check
  (\<^verbatim>\<open>cyclicNodes\<close>, Kahn's algorithm) decides acyclicity.
\<close>

section \<open>The graph the executor builds\<close>

abbreviation ids_of :: "pipeline_agent list \<Rightarrow> string set" where
  "ids_of agents \<equiv> pa_ID ` set agents"

lemma nodesByID_of_snoc: "nodesByID_of (agents @ [a]) = (nodesByID_of agents)(pa_ID a \<mapsto> a)"
  by (simp add: nodesByID_of_def)

lemma nodesByID_of_eq: "nodesByID_of agents n = None \<longleftrightarrow> n \<notin> ids_of agents"
  by (induction agents rule: rev_induct) (auto simp: nodesByID_of_snoc, simp add: nodesByID_of_def)

lemma nodesByID_of_ID: "nodesByID_of agents n = Some a \<Longrightarrow> pa_ID a = n"
  by (induction agents rule: rev_induct) (auto simp: nodesByID_of_snoc split: if_splits, simp add: nodesByID_of_def)

lemma outgoing_of_eq: "outgoing_of edges n = filter (\<lambda>e. pe_From e = n) edges"
  by (induction edges arbitrary: n rule: rev_induct) (auto simp: outgoing_of_def)

text \<open>The number of edges into a node from a set of other nodes.\<close>

definition inbound :: "pipeline_edge list \<Rightarrow> string set \<Rightarrow> string \<Rightarrow> nat" where
  "inbound es S n = length (filter (\<lambda>e. pe_To e = n \<and> pe_From e \<noteq> pe_To e \<and> pe_From e \<in> S) es)"

lemma inbound_simps [simp]:
  "inbound [] S n = 0"
  "inbound (e # es) S n = (if pe_To e = n \<and> pe_From e \<noteq> pe_To e \<and> pe_From e \<in> S then Suc (inbound es S n) else inbound es S n)"
  "inbound (es @ es') S n = inbound es S n + inbound es' S n"
  by (simp_all add: inbound_def)

lemma inbound_Cons_le: "inbound es S n \<le> inbound (e # es) S n"
  by simp

lemma inbound_eq_0: "n \<in> V \<Longrightarrow> S \<subseteq> V \<Longrightarrow> inbound edges S n = 0 \<longleftrightarrow> (\<forall>u \<in> S. (u, n) \<notin> arcs V edges)"
  by (auto simp: inbound_def filter_empty_conv arcs_def)

lemma inbound_insert: "m \<notin> S \<Longrightarrow> inbound edges (insert m S) n = inbound edges S n + inbound (outgoing_of edges m) UNIV n"
  unfolding outgoing_of_eq by (induction edges) auto

lemma indegree_of_get:
  "gm_get (indegree_of agents edges) n = (if n \<in> ids_of agents then Some (int (inbound edges (ids_of agents) n)) else None)"
proof (induction edges arbitrary: n rule: rev_induct)
  case Nil
  have "gm_get (fold (\<lambda>n m. gm_put (pa_ID n) 0 m) agents m) n = (if n \<in> ids_of agents then Some 0 else gm_get m n)"
    for m :: "(string, int) gomap"
    by (induction agents arbitrary: m) auto
  then show ?case by (simp add: indegree_of_def)
next
  case (snoc e edges)
  let ?known = "nodesByID_of agents (pe_From e) \<noteq> None \<and> nodesByID_of agents (pe_To e) \<noteq> None"
  have "indegree_of agents (edges @ [e]) = (if pe_From e = pe_To e then indegree_of agents edges
      else if ?known then gm_incr (pe_To e) (indegree_of agents edges) else indegree_of agents edges)"
    by (simp add: indegree_of_def)
  then show ?case by (simp add: snoc gm_incr_def nodesByID_of_eq)
qed

lemma indegree_of_wf: "gm_wf (indegree_of agents edges)"
proof -
  have "gm_wf m \<Longrightarrow> gm_wf (fold (\<lambda>n m. gm_put (pa_ID n) 0 m) agents m)" for m :: "(string, int) gomap"
    by (induction agents arbitrary: m) auto
  then show ?thesis by (induction edges rule: rev_induct) (auto simp: indegree_of_def gm_incr_def)
qed

section \<open>Kahn's algorithm decides acyclicity\<close>

abbreviation zeros :: "(string, int) gomap \<Rightarrow> string set" where
  "zeros m \<equiv> {n. gm_get m n = Some 0}"

lemma kahn_edges_spec:
  assumes "kahn_edges es remaining queue = (r, q)" "gm_wf remaining" "set queue = zeros remaining" "distinct queue"
    and "\<forall>n d. gm_get remaining n = Some d \<longrightarrow> int (inbound es UNIV n) \<le> d"
  shows "gm_wf r \<and> set q = zeros r \<and> distinct q
    \<and> (\<forall>n. gm_get r n = map_option (\<lambda>d. d - int (inbound es UNIV n)) (gm_get remaining n))"
  using assms
proof (induction es arbitrary: remaining queue)
  case Nil
  then show ?case by (auto simp: option.map_ident)
next
  case (Cons e es)
  show ?case
  proof (cases "pe_From e = pe_To e \<or> gm_get remaining (pe_To e) = None")
    case True
    then have k: "kahn_edges es remaining queue = (r, q)" using Cons.prems(1) by (auto split: if_splits)
    have le: "\<forall>n d. gm_get remaining n = Some d \<longrightarrow> int (inbound es UNIV n) \<le> d"
      using Cons.prems(5) inbound_Cons_le by (meson of_nat_le_iff order_trans)
    have "map_option (\<lambda>d. d - int (inbound es UNIV n)) (gm_get remaining n)
        = map_option (\<lambda>d. d - int (inbound (e # es) UNIV n)) (gm_get remaining n)" for n
      using True by auto
    then show ?thesis using Cons.IH [OF k Cons.prems(2-4) le] by simp
  next
    case False
    then obtain d where d: "gm_get remaining (pe_To e) = Some d" by auto
    define rem1 where "rem1 = gm_put (pe_To e) (d - 1) remaining"
    define q1 where "q1 = (if d - 1 = 0 then queue @ [pe_To e] else queue)"
    have k: "kahn_edges es rem1 q1 = (r, q)" using Cons.prems(1) False d by (simp add: rem1_def q1_def)
    have pos: "1 + int (inbound es UNIV (pe_To e)) \<le> d" using Cons.prems(5) [rule_format, OF d] False by simp
    then have "pe_To e \<notin> set queue" using Cons.prems(3) d by simp
    then have q1: "set q1 = zeros rem1" "distinct q1" "gm_wf rem1"
      using Cons.prems(2-4) pos d by (auto simp: q1_def rem1_def)
    have le: "\<forall>n x. gm_get rem1 n = Some x \<longrightarrow> int (inbound es UNIV n) \<le> x"
    proof clarify
      fix n x assume x: "gm_get rem1 n = Some x"
      show "int (inbound es UNIV n) \<le> x"
      proof (cases "n = pe_To e")
        case True
        then show ?thesis using x pos by (simp add: rem1_def)
      next
        case False
        then have "int (inbound (e # es) UNIV n) \<le> x" using x Cons.prems(5) unfolding rem1_def by (metis gm_get_put)
        then show ?thesis using False by simp
      qed
    qed
    have "gm_get r n = map_option (\<lambda>d. d - int (inbound es UNIV n)) (gm_get rem1 n)" for n
      using Cons.IH [OF k q1(3,1,2) le] by blast
    moreover have "map_option (\<lambda>d. d - int (inbound es UNIV n)) (gm_get rem1 n)
        = map_option (\<lambda>d. d - int (inbound (e # es) UNIV n)) (gm_get remaining n)" for n
      using False d by (auto simp: rem1_def)
    ultimately show ?thesis using Cons.IH [OF k q1(3,1,2) le] by simp
  qed
qed

definition kahn_inv :: "string set \<Rightarrow> pipeline_edge list \<Rightarrow> (string, int) gomap \<Rightarrow> string list \<Rightarrow> string list \<Rightarrow> bool" where
  "kahn_inv V edges remaining queue order \<longleftrightarrow> gm_wf remaining \<and> distinct queue \<and> set queue = zeros remaining
     \<and> distinct order \<and> topological (arcs V edges) order \<and> set order = V - dom (gm_get remaining) \<and> dom (gm_get remaining) \<subseteq> V
     \<and> (\<forall>n d. gm_get remaining n = Some d \<longrightarrow> d = int (inbound edges (dom (gm_get remaining)) n))"

lemma kahn_step:
  assumes inv: "kahn_inv V edges remaining (n # queue) order"
    and k: "kahn_edges (outgoing_of edges n) (gm_del n remaining) queue = (r, q)"
  shows "kahn_inv V edges r q (order @ [n])"
proof -
  let ?K = "dom (gm_get remaining)"
  let ?K' = "dom (gm_get (gm_del n remaining))"
  have n: "gm_get remaining n = Some 0" "n \<in> V" using inv by (auto simp: kahn_inv_def)
  have K: "?K = insert n ?K'" "n \<notin> ?K'" using n by (auto split: if_splits)
  have count: "int (inbound edges ?K m) = int (inbound edges ?K' m) + int (inbound (outgoing_of edges n) UNIV m)" for m
    using inbound_insert [OF K(2), of edges m] K(1) by simp
  have d: "gm_get (gm_del n remaining) m = Some d \<Longrightarrow> d = int (inbound edges ?K' m) + int (inbound (outgoing_of edges n) UNIV m)" for m d
    using inv count by (auto simp: kahn_inv_def split: if_splits)
  have q: "set queue = zeros (gm_del n remaining)" "distinct queue" "gm_wf (gm_del n remaining)" "n \<notin> set queue"
    using inv by (auto simp: kahn_inv_def)
  have r: "gm_wf r" "set q = zeros r" "distinct q"
    "\<And>m. gm_get r m = map_option (\<lambda>d. d - int (inbound (outgoing_of edges n) UNIV m)) (gm_get (gm_del n remaining) m)"
    using kahn_edges_spec [OF k q(3,1,2)] d by force+
  have dom: "dom (gm_get r) = ?K'" using r(4) by (auto simp: dom_def)
  have "gm_get r m = Some x \<Longrightarrow> x = int (inbound edges (dom (gm_get r)) m)" for m x
    unfolding dom using r(4) [of m] d [of m] by auto
  moreover have "(u, n) \<in> arcs V edges \<Longrightarrow> u \<in> set order" for u
  proof -
    assume u: "(u, n) \<in> arcs V edges"
    have "0 = int (inbound edges ?K n)" using inv n(1) unfolding kahn_inv_def by blast
    then have "u \<notin> ?K" using inbound_eq_0 [OF n(2), of ?K edges] inv u by (fastforce simp: kahn_inv_def)
    then show ?thesis using inv arcs_nodes [OF u] by (simp add: kahn_inv_def)
  qed
  ultimately show ?thesis using inv r(1-3) dom K n(2) by (auto simp: kahn_inv_def)
qed

lemma kahn_loop_inv:
  "kahn_inv V edges remaining queue order \<Longrightarrow> \<exists>order'. kahn_inv V edges (kahn_loop (outgoing_of edges) remaining queue) [] order'"
proof (induction "outgoing_of edges" remaining queue arbitrary: order rule: kahn_loop.induct)
  case (2 remaining n queue)
  obtain r q where k: "kahn_edges (outgoing_of edges n) (gm_del n remaining) queue = (r, q)" by fastforce
  show ?case using 2(1) [OF k [symmetric] kahn_step [OF 2(2) k]] k by simp
qed auto

lemma stuck_nodes_empty: "stuck_nodes agents m = [] \<longleftrightarrow> (\<forall>a \<in> set agents. gm_get m (pa_ID a) = None)"
  by (induction agents arbitrary: m) auto

lemma cyclicNodes_acyclic:
  "cyclicNodes agents (outgoing_of edges) (indegree_of agents edges) = [] \<longleftrightarrow> acyclic (arcs (ids_of agents) edges)"
proof -
  let ?V = "ids_of agents" and ?in = "indegree_of agents edges"
  define q where "q = map fst (filter (\<lambda>(n, d). d = 0) ?in)"
  have dom: "dom (gm_get ?in) = ?V" by (auto simp: indegree_of_get split: if_splits)
  have "set q = zeros ?in" using gm_in_set_iff [OF indegree_of_wf, of _ _ agents edges] by (force simp: q_def)
  moreover have "distinct q" using indegree_of_wf [of agents edges] by (simp add: q_def gm_wf_def distinct_map_filter)
  ultimately have "kahn_inv ?V edges ?in q []"
    using dom by (auto simp: kahn_inv_def indegree_of_wf indegree_of_get split: if_splits)
  then obtain order where inv: "kahn_inv ?V edges (kahn_loop (outgoing_of edges) ?in q) [] order"
    using kahn_loop_inv by blast
  define left where "left = dom (gm_get (kahn_loop (outgoing_of edges) ?in q))"
  have left: "left \<subseteq> ?V" "set order = ?V - left" "topological (arcs ?V edges) order" "distinct order"
    using inv by (auto simp: kahn_inv_def left_def)
  have "n \<in> left \<Longrightarrow> \<exists>u \<in> left. (u, n) \<in> arcs ?V edges" for n
  proof -
    assume n: "n \<in> left"
    then obtain d where d: "gm_get (kahn_loop (outgoing_of edges) ?in q) n = Some d" by (auto simp: left_def)
    have z: "zeros (kahn_loop (outgoing_of edges) ?in q) = {}" using inv by (simp add: kahn_inv_def)
    have "d \<noteq> 0"
    proof
      assume "d = 0"
      then have "n \<in> zeros (kahn_loop (outgoing_of edges) ?in q)" using d by simp
      then show False unfolding z by simp
    qed
    moreover have "d = int (inbound edges left n)" using inv d unfolding kahn_inv_def left_def by blast
    ultimately have "inbound edges left n \<noteq> 0" by simp
    then show ?thesis using inbound_eq_0 [OF subsetD [OF left(1) n] left(1), of edges] by simp
  qed
  then have "acyclic (arcs ?V edges) \<Longrightarrow> left = {}" using acyclic_has_source [of "arcs ?V edges" left] by (metis finite_arcs)
  moreover have "acyclic (arcs ?V edges)" if "left = {}"
    by (rule topological_acyclic [OF left(3,4)]) (use left(2) that in \<open>auto simp: arcs_def\<close>)
  moreover have "cyclicNodes agents (outgoing_of edges) ?in = [] \<longleftrightarrow> left = {}"
  proof -
    have "cyclicNodes agents (outgoing_of edges) ?in = [] \<longleftrightarrow> stuck_nodes agents (kahn_loop (outgoing_of edges) ?in q) = []"
      by (simp add: cyclicNodes_def q_def [symmetric] stuck_nodes_empty Let_def)
    also have "\<dots> \<longleftrightarrow> ids_of agents \<inter> left = {}" by (auto simp: stuck_nodes_empty left_def)
    finally show ?thesis using left(1) by blast
  qed
  ultimately show ?thesis by blast
qed

end
