(* ===== verification/Pipeline_Walk.thy ===== *)
theory Pipeline_Walk
  imports Pipeline_Kahn
begin

text \<open>
  The depth-first walk of the graph executor: its invariant, what a run leaves behind, and the
  properties of pipeline runs.
\<close>

section \<open>The walk over the graph\<close>

lemma feed_skip:
  "pe_From e = pe_To e \<Longrightarrow> feed g fuel live c fed (e # es) st = feed g fuel live c fed es st"
  "pe_From e \<noteq> pe_To e \<Longrightarrow> gr_nodes g (pe_To e) = None \<Longrightarrow> feed g fuel live c fed (e # es) st =
     (if edge_fires live c e then Some (Some (UnknownNodeID (gr_name g) (pe_To e)), st) else feed g fuel live c fed es st)"
  by simp_all

lemma feed_known:
  assumes "pe_From e \<noteq> pe_To e" "gr_nodes g (pe_To e) \<noteq> None" "fires = edge_fires live c e"
    "fed1 = (if fires \<and> pe_To e \<notin> set fed then pe_To e # fed else fed)"
    "st1 = (if fires \<and> pe_To e \<notin> set fed then st\<lparr>wk_inputs := (wk_inputs st)(pe_To e := wk_inputs st (pe_To e) @ [c])\<rparr> else st)"
    "st2 = st1\<lparr>wk_waiting := (wk_waiting st1)(pe_To e := wk_waiting st1 (pe_To e) - 1)\<rparr>"
  shows "feed g fuel live c fed (e # es) st =
     (if wk_waiting st2 (pe_To e) = 0
      then (case settle g fuel (pe_To e) st2 of
              None \<Rightarrow> None
            | Some (Some err, st3) \<Rightarrow> Some (Some err, st3)
            | Some (None, st3) \<Rightarrow> feed g fuel live c fed1 es st3)
      else feed g fuel live c fed1 es st2)"
  unfolding assms(3-6) using assms(1,2) by (simp only: feed.simps Let_def if_False)

lemma settle_run:
  assumes "\<not> wk_settled st n" "gr_indegree g n = 0 \<or> wk_inputs st n \<noteq> []"
    "gr_invoke g (node_of (gr_nodes g) n) (if 0 < gr_indegree g n then strings_Join (wk_inputs st n) blank_line else gr_userMsg g) (wk_run st)
       = ((nr, err), r)"
    "st2 = st\<lparr>wk_settled := (wk_settled st)(n := True), wk_nodes := wk_nodes st @ [nr], wk_run := r\<rparr>"
  shows "settle g (Suc fuel) n st = (case err of
     Some e \<Rightarrow> Some (Some e, st2) | None \<Rightarrow> feed g fuel True (node_content nr) [] (gr_outgoing g n) st2)"
  using assms by (auto simp: Let_def)

text \<open>
  What the walk relies on: the graph tables of \<open>runGraph\<close>, and that a node's result carries the node's
  id. The lemmas hold for every way of running a node.
\<close>

locale graph_walk =
  fixes g :: "'r graph_run" and edges :: "pipeline_edge list" and V :: "string set"
  assumes finite_V: "finite V"
    and nodes_V: "gr_nodes g n = None \<longleftrightarrow> n \<notin> V"
    and node_ID: "gr_nodes g n = Some a \<Longrightarrow> pa_ID a = n"
    and outgoing: "gr_outgoing g n = filter (\<lambda>e. pe_From e = n) edges"
    and indegree: "n \<in> V \<Longrightarrow> gr_indegree g n = int (inbound edges V n)"
    and invoke_ID: "gr_invoke g a input r = ((nr, err), r') \<Longrightarrow> nr_NodeID nr = pa_ID a"
begin

abbreviation arcset :: "(string \<times> string) set" where
  "arcset \<equiv> arcs V edges"

definition ids :: "'r walk \<Rightarrow> string list" where
  "ids st = map nr_NodeID (wk_nodes st)"

definition content :: "'r walk \<Rightarrow> string \<Rightarrow> string" where
  "content st u = (case find (\<lambda>nr. nr_NodeID nr = u) (wk_nodes st) of None \<Rightarrow> [] | Some nr \<Rightarrow> node_content nr)"

definition fired :: "pipeline_edge list \<Rightarrow> string \<Rightarrow> string \<Rightarrow> bool" where
  "fired es c v \<longleftrightarrow> (\<exists>e \<in> set es. pe_To e = v \<and> pe_From e \<noteq> pe_To e \<and> edge_fires True c e)"

text \<open>
  Of each node's outgoing edges, \<open>D\<close> holds those already followed and \<open>T\<close> those still to follow.
\<close>

definition pend :: "(string \<Rightarrow> pipeline_edge list) \<Rightarrow> string \<Rightarrow> nat" where
  "pend T v = (\<Sum>u \<in> V. inbound (T u) UNIV v)"

definition ordered :: "'r walk \<Rightarrow> bool" where
  "ordered st \<longleftrightarrow> (\<forall>i < length (ids st). \<forall>u. (u, ids st ! i) \<in> arcset \<longrightarrow>
     wk_settled st u \<and> (u \<in> set (ids st) \<longrightarrow> u \<in> set (take i (ids st))))"

definition walk_inv :: "(string \<Rightarrow> pipeline_edge list) \<Rightarrow> (string \<Rightarrow> pipeline_edge list) \<Rightarrow> 'r walk \<Rightarrow> bool" where
  "walk_inv D T st \<longleftrightarrow> (\<forall>u. gr_outgoing g u = D u @ T u)
     \<and> (\<forall>v \<in> V. wk_waiting st v = int (pend T v))
     \<and> (\<forall>u \<in> V. \<not> wk_settled st u \<longrightarrow> D u = [])
     \<and> (\<forall>v. wk_settled st v \<longrightarrow> v \<in> V \<and> wk_waiting st v = 0)
     \<and> distinct (ids st) \<and> (\<forall>v \<in> set (ids st). wk_settled st v)
     \<and> (\<forall>v \<in> V. wk_inputs st v \<noteq> [] \<longleftrightarrow> (\<exists>u \<in> set (ids st). fired (D u) (content st u) v))
     \<and> (\<forall>v. wk_settled st v \<longrightarrow> (v \<in> set (ids st) \<longleftrightarrow> gr_indegree g v = 0 \<or> wk_inputs st v \<noteq> []))
     \<and> ordered st"

lemma walk_invI:
  assumes "\<And>u. gr_outgoing g u = D u @ T u" "\<And>v. v \<in> V \<Longrightarrow> wk_waiting st v = int (pend T v)"
    "\<And>u. u \<in> V \<Longrightarrow> \<not> wk_settled st u \<Longrightarrow> D u = []" "\<And>v. wk_settled st v \<Longrightarrow> v \<in> V \<and> wk_waiting st v = 0"
    "distinct (ids st)" "\<And>v. v \<in> set (ids st) \<Longrightarrow> wk_settled st v"
    "\<And>v. v \<in> V \<Longrightarrow> wk_inputs st v \<noteq> [] \<longleftrightarrow> (\<exists>u \<in> set (ids st). fired (D u) (content st u) v)"
    "\<And>v. wk_settled st v \<Longrightarrow> v \<in> set (ids st) \<longleftrightarrow> gr_indegree g v = 0 \<or> wk_inputs st v \<noteq> []" "ordered st"
  shows "walk_inv D T st"
  unfolding walk_inv_def by (intro conjI allI ballI impI) (use assms in blast)+

lemma walk_invD:
  assumes "walk_inv D T st"
  shows "gr_outgoing g u = D u @ T u" "v \<in> V \<Longrightarrow> wk_waiting st v = int (pend T v)"
    "u \<in> V \<Longrightarrow> \<not> wk_settled st u \<Longrightarrow> D u = []" "wk_settled st v \<Longrightarrow> v \<in> V \<and> wk_waiting st v = 0"
    "distinct (ids st)" "v \<in> set (ids st) \<Longrightarrow> wk_settled st v"
    "v \<in> V \<Longrightarrow> wk_inputs st v \<noteq> [] \<longleftrightarrow> (\<exists>u \<in> set (ids st). fired (D u) (content st u) v)"
    "wk_settled st v \<Longrightarrow> v \<in> set (ids st) \<longleftrightarrow> gr_indegree g v = 0 \<or> wk_inputs st v \<noteq> []" "ordered st"
  using assms unfolding walk_inv_def by blast+

lemma fired_Nil [simp]: "\<not> fired [] c v"
  by (simp add: fired_def)

lemma fired_snoc: "fired (es @ [e]) c v \<longleftrightarrow> fired es c v \<or> pe_To e = v \<and> pe_From e \<noteq> pe_To e \<and> edge_fires True c e"
  by (auto simp: fired_def)

lemma fired_upd:
  "fired ((D(n := D n @ [e])) u) c v \<longleftrightarrow> fired (D u) c v \<or> u = n \<and> pe_To e = v \<and> pe_From e \<noteq> pe_To e \<and> edge_fires True c e"
  by (auto simp: fired_snoc)

lemma ids_upd [simp]:
  "ids (st\<lparr>wk_settled := x\<rparr>) = ids st" "ids (st\<lparr>wk_inputs := y\<rparr>) = ids st" "ids (st\<lparr>wk_waiting := z\<rparr>) = ids st"
  "ids (st\<lparr>wk_run := r\<rparr>) = ids st" "ids (st\<lparr>wk_nodes := wk_nodes st' @ ns\<rparr>) = ids st' @ map nr_NodeID ns"
  by (simp_all add: ids_def)

lemma content_upd [simp]:
  "content (st\<lparr>wk_settled := x\<rparr>) = content st" "content (st\<lparr>wk_inputs := y\<rparr>) = content st"
  "content (st\<lparr>wk_waiting := z\<rparr>) = content st" "content (st\<lparr>wk_run := r\<rparr>) = content st"
  by (simp_all add: content_def fun_eq_iff)

lemma content_append:
  assumes "wk_nodes st' = wk_nodes st @ ys" "u \<in> set (ids st)"
  shows "content st' u = content st u"
proof -
  have "find P (xs @ ys) = find P xs" if "\<exists>x \<in> set xs. P x" for P and xs :: "node_result list"
    using that by (induction xs) auto
  moreover have "\<exists>x \<in> set (wk_nodes st). nr_NodeID x = u" using assms(2) by (auto simp: ids_def)
  ultimately show ?thesis unfolding content_def assms(1) by simp
qed

lemma content_last:
  assumes "nr_NodeID nr \<notin> set (ids st)" "wk_nodes st' = wk_nodes st @ [nr]"
  shows "content st' (nr_NodeID nr) = node_content nr"
proof -
  have "find (\<lambda>x. nr_NodeID x = nr_NodeID nr) (wk_nodes st) = None"
    using assms(1) unfolding find_None_iff ids_def set_map by (metis image_eqI)
  then have "find (\<lambda>x. nr_NodeID x = nr_NodeID nr) (wk_nodes st @ [nr]) = Some nr" by (simp add: find_snoc)
  then show ?thesis by (simp add: content_def assms(2))
qed

lemma pend_step:
  assumes "n \<in> V" "T n = e # es"
  shows "pend T v = pend (T(n := es)) v + (if pe_To e = v \<and> pe_From e \<noteq> pe_To e then 1 else 0)"
proof -
  have *: "(\<Sum>u \<in> V. f u) = f n + (\<Sum>u \<in> V - {n}. f u)" for f :: "string \<Rightarrow> nat"
    by (rule sum.remove) (use finite_V assms(1) in auto)
  have "(\<Sum>u \<in> V - {n}. inbound (T u) UNIV v) = (\<Sum>u \<in> V - {n}. inbound ((T(n := es)) u) UNIV v)" by (rule sum.cong) auto
  then show ?thesis unfolding pend_def using * [of "\<lambda>u. inbound (T u) UNIV v"] * [of "\<lambda>u. inbound ((T(n := es)) u) UNIV v"] assms(2) by auto
qed

text \<open>All predecessors of a node with nothing pending have been settled.\<close>

lemma preds_settled:
  assumes inv: "walk_inv D T st" and "n \<in> V" "wk_waiting st n = 0" "(u, n) \<in> arcset"
  shows "wk_settled st u"
proof (rule ccontr)
  assume u: "\<not> wk_settled st u"
  obtain e where e: "e \<in> set edges" "pe_From e = u" "pe_To e = n" "u \<noteq> n" "u \<in> V" using assms(4) by (auto simp: arcs_def)
  have "T u = gr_outgoing g u" using walk_invD(1) [OF inv, of u] walk_invD(3) [OF inv e(5) u] by simp
  then have "e \<in> set (T u)" using e by (simp add: outgoing)
  then have "inbound (T u) UNIV n \<noteq> 0" using e by (auto simp: inbound_def filter_empty_conv)
  moreover have "pend T n = 0" using walk_invD(2) [OF inv assms(2)] assms(3) by simp
  ultimately show False using e(5) finite_V by (simp add: pend_def)
qed

text \<open>Settling a node that is pruned.\<close>

lemma mark_inv:
  assumes inv: "walk_inv D T st" and n: "n \<in> V" "\<not> wk_settled st n" "wk_waiting st n = 0"
    and "gr_indegree g n \<noteq> 0" "wk_inputs st n = []"
  shows "walk_inv D T (st\<lparr>wk_settled := (wk_settled st)(n := True)\<rparr>)"
proof (rule walk_invI)
  let ?st = "st\<lparr>wk_settled := (wk_settled st)(n := True)\<rparr>"
  show "ordered ?st" using walk_invD(9) [OF inv] by (auto simp: ordered_def)
  show "v \<in> V \<and> wk_waiting ?st v = 0" if "wk_settled ?st v" for v
    using walk_invD(4) [OF inv, of v] n that by (cases "v = n") simp_all
  show "v \<in> set (ids ?st) \<longleftrightarrow> gr_indegree g v = 0 \<or> wk_inputs ?st v \<noteq> []" if "wk_settled ?st v" for v
  proof (cases "v = n")
    case True
    have "n \<notin> set (ids st)" using walk_invD(6) [OF inv] n(2) by blast
    then show ?thesis using True assms(5,6) by simp
  next
    case False
    then show ?thesis using walk_invD(8) [OF inv, of v] that by simp
  qed
qed (use walk_invD(1,2,3,5,6,7) [OF inv] n in \<open>auto split: if_splits\<close>)

text \<open>Running a node.\<close>

lemma run_inv:
  assumes inv: "walk_inv D T st" and n: "n \<in> V" "\<not> wk_settled st n" "wk_waiting st n = 0"
    and live: "gr_indegree g n = 0 \<or> wk_inputs st n \<noteq> []" and nr: "nr_NodeID nr = n"
    and st': "st' = st\<lparr>wk_settled := (wk_settled st)(n := True), wk_nodes := wk_nodes st @ [nr], wk_run := r\<rparr>"
  shows "walk_inv D T st'"
proof -
  have ids: "ids st' = ids st @ [n]" by (simp add: st' ids_def nr)
  have new: "n \<notin> set (ids st)" using walk_invD(6) [OF inv] n(2) by blast
  have c: "u \<in> set (ids st) \<Longrightarrow> content st' u = content st u" for u
    by (rule content_append [where ys = "[nr]"]) (simp add: st')
  have f: "wk_waiting st' = wk_waiting st" "wk_inputs st' = wk_inputs st" "wk_settled st' = (wk_settled st)(n := True)"
    by (simp_all add: st')
  show ?thesis
  proof (rule walk_invI)
    show "v \<in> V \<and> wk_waiting st' v = 0" if "wk_settled st' v" for v
      using walk_invD(4) [OF inv, of v] n that by (cases "v = n") (simp_all add: f)
    show "distinct (ids st')" using walk_invD(5) [OF inv] new ids by simp
    show "wk_inputs st' v \<noteq> [] \<longleftrightarrow> (\<exists>u \<in> set (ids st'). fired (D u) (content st' u) v)" if "v \<in> V" for v
      using walk_invD(7) [OF inv that] walk_invD(3) [OF inv n(1,2)] c by (simp add: ids f)
    show "v \<in> set (ids st') \<longleftrightarrow> gr_indegree g v = 0 \<or> wk_inputs st' v \<noteq> []" if "wk_settled st' v" for v
      using walk_invD(8) [OF inv, of v] that live by (cases "v = n") (auto simp: ids f)
    show "ordered st'"
      unfolding ordered_def
    proof (intro allI impI)
      fix i u assume i: "i < length (ids st')" "(u, ids st' ! i) \<in> arcset"
      show "wk_settled st' u \<and> (u \<in> set (ids st') \<longrightarrow> u \<in> set (take i (ids st')))"
      proof (cases "i < length (ids st)")
        case True
        then have o': "wk_settled st u" "u \<in> set (ids st) \<longrightarrow> u \<in> set (take i (ids st))"
          using walk_invD(9) [OF inv] i(2) unfolding ordered_def by (auto simp: ids nth_append)
        then have "u \<noteq> n" using n(2) by auto
        then show ?thesis using o' True by (auto simp: f ids)
      next
        case False
        then have i': "i = length (ids st)" "(u, n) \<in> arcset" using i by (auto simp: ids nth_append)
        then have "wk_settled st u" "u \<noteq> n" using preds_settled [OF inv n(1,3)] n(2) by auto
        then show ?thesis using i' by (auto simp: f ids)
      qed
    qed
  qed (use walk_invD(1,2,3,6) [OF inv] n in \<open>auto simp: f ids split: if_splits\<close>)
qed

text \<open>Following one edge.\<close>

lemma skip_inv:
  assumes inv: "walk_inv D T st" and n: "n \<in> V" "wk_settled st n" "T n = e # es" and skip: "pe_From e = pe_To e \<or> pe_To e \<notin> V"
  shows "walk_inv (D(n := D n @ [e])) (T(n := es)) st"
proof (rule walk_invI)
  have p: "v \<in> V \<Longrightarrow> pend (T(n := es)) v = pend T v" for v using pend_step [where T = T and v = v, OF n(1,3)] skip by auto
  show "wk_waiting st v = int (pend (T(n := es)) v)" if "v \<in> V" for v using walk_invD(2) [OF inv that] p [OF that] by simp
  show "gr_outgoing g u = (D(n := D n @ [e])) u @ (T(n := es)) u" for u using walk_invD(1) [OF inv, of u] n(3) by simp
  show "wk_inputs st v \<noteq> [] \<longleftrightarrow> (\<exists>u \<in> set (ids st). fired ((D(n := D n @ [e])) u) (content st u) v)" if "v \<in> V" for v
    unfolding fired_upd using walk_invD(7) [OF inv that] skip that by blast
  show "(D(n := D n @ [e])) u = []" if "u \<in> V" "\<not> wk_settled st u" for u
    using walk_invD(3) [OF inv that] that(2) n(2) by auto
qed (use walk_invD(4-6,8,9) [OF inv] in \<open>blast+\<close>)

lemma waiting_pos:
  assumes inv: "walk_inv D T st" and n: "n \<in> V" "T n = e # es" and e: "pe_From e \<noteq> pe_To e" "pe_To e \<in> V"
  shows "0 < wk_waiting st (pe_To e)" "\<not> wk_settled st (pe_To e)"
proof -
  show w: "0 < wk_waiting st (pe_To e)" using walk_invD(2) [OF inv e(2)] pend_step [where T = T and v = "pe_To e", OF n] e(1) by simp
  show "\<not> wk_settled st (pe_To e)" using walk_invD(4) [OF inv, of "pe_To e"] w by auto
qed

lemma feed_inv:
  assumes inv: "walk_inv D T st" and n: "n \<in> V" "wk_settled st n" "T n = e # es" and e: "pe_From e \<noteq> pe_To e" "pe_To e \<in> V"
    and live: "live \<longleftrightarrow> n \<in> set (ids st)" "live \<Longrightarrow> c = content st n"
    and fed: "\<forall>x \<in> set fed. wk_inputs st x \<noteq> []"
    and fires: "fires = edge_fires live c e"
    and st1: "st1 = (if fires \<and> pe_To e \<notin> set fed then st\<lparr>wk_inputs := (wk_inputs st)(pe_To e := wk_inputs st (pe_To e) @ [c])\<rparr> else st)"
    and st2: "st2 = st1\<lparr>wk_waiting := (wk_waiting st1)(pe_To e := wk_waiting st1 (pe_To e) - 1)\<rparr>"
  shows "walk_inv (D(n := D n @ [e])) (T(n := es)) st2"
proof -
  have keep: "ids st2 = ids st" "content st2 = content st" "wk_settled st2 = wk_settled st"
    by (simp_all add: st2 st1 fun_eq_iff)
  have wait: "wk_waiting st2 v = (if v = pe_To e then wk_waiting st v - 1 else wk_waiting st v)" for v
    by (simp add: st2 st1)
  have inp: "wk_inputs st2 v \<noteq> [] \<longleftrightarrow> wk_inputs st v \<noteq> [] \<or> v = pe_To e \<and> fires" for v
    using fed by (auto simp: st2 st1)
  have unset: "\<not> wk_settled st (pe_To e)" by (rule waiting_pos [OF inv n(1,3) e])
  show ?thesis
  proof (rule walk_invI)
    show "gr_outgoing g u = (D(n := D n @ [e])) u @ (T(n := es)) u" for u using walk_invD(1) [OF inv, of u] n(3) by simp
    show "wk_waiting st2 v = int (pend (T(n := es)) v)" if "v \<in> V" for v
      using walk_invD(2) [OF inv that] pend_step [where T = T and v = v, OF n(1,3)] e(1) by (auto simp: wait)
    show "(D(n := D n @ [e])) u = []" if "u \<in> V" "\<not> wk_settled st2 u" for u
      using walk_invD(3) [OF inv that(1)] that(2) n(2) by (auto simp: keep)
    show "v \<in> V \<and> wk_waiting st2 v = 0" if "wk_settled st2 v" for v
      using walk_invD(4) [OF inv, of v] that unset by (auto simp: keep wait)
    show "wk_inputs st2 v \<noteq> [] \<longleftrightarrow> (\<exists>u \<in> set (ids st2). fired ((D(n := D n @ [e])) u) (content st2 u) v)" if "v \<in> V" for v
    proof -
      have "(\<exists>u \<in> set (ids st). fired ((D(n := D n @ [e])) u) (content st u) v)
          \<longleftrightarrow> (\<exists>u \<in> set (ids st). fired (D u) (content st u) v) \<or> v = pe_To e \<and> n \<in> set (ids st) \<and> edge_fires True (content st n) e"
        unfolding fired_upd using e(1) by blast
      also have "n \<in> set (ids st) \<and> edge_fires True (content st n) e \<longleftrightarrow> fires"
        using live by (auto simp: fires edge_fires_def)
      finally show ?thesis using walk_invD(7) [OF inv that] by (simp add: keep inp)
    qed
    show "v \<in> set (ids st2) \<longleftrightarrow> gr_indegree g v = 0 \<or> wk_inputs st2 v \<noteq> []" if "wk_settled st2 v" for v
      using walk_invD(8) [OF inv, of v] that unset by (auto simp: keep inp)
    show "ordered st2" using walk_invD(9) [OF inv] by (simp add: ordered_def keep)
  qed (use walk_invD(5,6) [OF inv] in \<open>simp_all add: keep\<close>)
qed

definition closed_but :: "string set \<Rightarrow> 'r walk \<Rightarrow> bool" where
  "closed_but N st \<longleftrightarrow> (\<forall>v \<in> V - N. gr_indegree g v \<noteq> 0 \<and> wk_waiting st v = 0 \<longrightarrow> wk_settled st v)"

definition unsettled :: "'r walk \<Rightarrow> nat" where
  "unsettled st = card {u \<in> V. \<not> wk_settled st u}"

definition progress :: "string set \<Rightarrow> (string \<Rightarrow> pipeline_edge list) \<Rightarrow> 'r walk \<Rightarrow> (string \<Rightarrow> pipeline_edge list) \<Rightarrow> 'r walk \<Rightarrow> bool" where
  "progress N T st T' st' \<longleftrightarrow> (\<exists>D'. walk_inv D' T' st') \<and> closed_but {} st' \<and> (\<forall>u. wk_settled st u \<longrightarrow> wk_settled st' u)
     \<and> (\<forall>u. wk_settled st' u \<and> \<not> wk_settled st u \<longrightarrow> T' u = []) \<and> (\<forall>u. wk_settled st u \<and> u \<notin> N \<longrightarrow> T' u = T u)
     \<and> (\<forall>u. wk_settled st u \<longrightarrow> (u \<in> set (ids st') \<longleftrightarrow> u \<in> set (ids st)))
     \<and> (\<exists>ys. wk_nodes st' = wk_nodes st @ ys) \<and> (\<forall>x. wk_inputs st x \<noteq> [] \<longrightarrow> wk_inputs st' x \<noteq> [])"

lemma progress_trans:
  assumes "progress M T st T1 st1" "progress N T1 st1 T2 st2" "\<And>u. u \<in> N \<Longrightarrow> wk_settled st u"
  shows "progress (M \<union> N) T st T2 st2"
proof -
  have "T2 u = []" if "wk_settled st2 u" "\<not> wk_settled st u" for u
    using assms that unfolding progress_def by metis
  moreover have "\<exists>ys. wk_nodes st2 = wk_nodes st @ ys" using assms(1,2) unfolding progress_def by (metis append.assoc)
  ultimately show ?thesis using assms unfolding progress_def by simp
qed

lemma progress_refl: "walk_inv D T st \<Longrightarrow> closed_but {} st \<Longrightarrow> progress N T st T st"
  by (auto simp: progress_def)

lemma progress_unsettled: "progress N T st T' st' \<Longrightarrow> unsettled st' \<le> unsettled st"
  unfolding unsettled_def progress_def using finite_V by (auto intro!: card_mono)

text \<open>What a call of \<open>settle\<close> achieves, as the hypothesis for the loop that makes it.\<close>

definition settles :: "nat \<Rightarrow> bool" where
  "settles fuel \<longleftrightarrow> (\<forall>n st D T. walk_inv D T st \<longrightarrow> n \<in> V \<longrightarrow> \<not> wk_settled st n \<longrightarrow> wk_waiting st n = 0 \<longrightarrow> closed_but {n} st
     \<longrightarrow> unsettled st \<le> fuel \<longrightarrow>
     (\<exists>err st'. settle g fuel n st = Some (err, st') \<and> (err = None \<longrightarrow> (\<exists>T'. progress {} T st T' st' \<and> wk_settled st' n))))"

lemma feed_settles:
  assumes IH: "settles fuel"
    and "walk_inv D T st" "n \<in> V" "wk_settled st n" "T n = es" "closed_but {} st" "unsettled st \<le> fuel"
    and "live \<longleftrightarrow> n \<in> set (ids st)" "live \<Longrightarrow> c = content st n" "\<forall>x \<in> set fed. wk_inputs st x \<noteq> []"
  shows "\<exists>err st'. feed g fuel live c fed es st = Some (err, st')
           \<and> (err = None \<longrightarrow> (\<exists>T'. progress {n} T st T' st' \<and> T' n = []))"
  using assms(2-)
proof (induction es arbitrary: D T st fed)
  case Nil
  then show ?case using progress_refl [of D T st "{n}"] by auto
next
  case (Cons e es)
  have skip: ?case if s: "pe_From e = pe_To e \<or> pe_To e \<notin> V" and f: "feed g fuel live c fed (e # es) st = feed g fuel live c fed es st"
  proof -
    have inv: "walk_inv (D(n := D n @ [e])) (T(n := es)) st" by (rule skip_inv [OF Cons.prems(1-4) s])
    obtain err st' where r: "feed g fuel live c fed es st = Some (err, st')"
      "err = None \<longrightarrow> (\<exists>T'. progress {n} (T(n := es)) st T' st' \<and> T' n = [])"
      using Cons.IH [OF inv Cons.prems(2,3) fun_upd_same Cons.prems(5-9)] by blast
    have "progress {n} (T(n := es)) st T' st' \<Longrightarrow> progress {n} T st T' st'" for T' by (auto simp: progress_def)
    then show ?thesis using r f by auto
  qed
  show ?case
  proof (cases "pe_From e = pe_To e \<or> pe_To e \<notin> V")
    case True
    show ?thesis
    proof (cases "feed g fuel live c fed (e # es) st = feed g fuel live c fed es st")
      case False
      then have "\<exists>err. feed g fuel live c fed (e # es) st = Some (Some err, st)"
        using True nodes_V [of "pe_To e"] feed_skip [of e g fuel live c fed es st] by (metis (full_types))
      then show ?thesis by auto
    qed (rule skip [OF True])
  next
    case False
    define fires where "fires = edge_fires live c e"
    define fed1 where "fed1 = (if fires \<and> pe_To e \<notin> set fed then pe_To e # fed else fed)"
    define st1 where "st1 = (if fires \<and> pe_To e \<notin> set fed then st\<lparr>wk_inputs := (wk_inputs st)(pe_To e := wk_inputs st (pe_To e) @ [c])\<rparr> else st)"
    define st2 where "st2 = st1\<lparr>wk_waiting := (wk_waiting st1)(pe_To e := wk_waiting st1 (pe_To e) - 1)\<rparr>"
    have inv: "walk_inv (D(n := D n @ [e])) (T(n := es)) st2"
      by (rule feed_inv [OF Cons.prems(1-4) _ _ Cons.prems(7-9) fires_def st1_def st2_def]) (use False in auto)
    have keep: "wk_settled st2 = wk_settled st" "wk_nodes st2 = wk_nodes st" "ids st2 = ids st" "content st2 = content st"
      by (simp_all add: st2_def st1_def fun_eq_iff)
    have fed1: "\<forall>x \<in> set fed1. wk_inputs st2 x \<noteq> []"
      using Cons.prems(9) by (auto simp: fed1_def st1_def st2_def)
    have inputs: "wk_inputs st x \<noteq> [] \<longrightarrow> wk_inputs st2 x \<noteq> []" for x by (simp add: st2_def st1_def)
    have closed: "closed_but {pe_To e} st2"
      using Cons.prems(5) by (simp add: closed_but_def keep) (simp add: st2_def st1_def)
    have frame: "progress {n} (T(n := es)) st2 T' st' \<Longrightarrow> progress {n} T st T' st'" for T' st'
      using inputs by (auto simp: progress_def keep)
    have un: "unsettled st2 \<le> fuel" using Cons.prems(6) by (simp add: unsettled_def keep)
    note step = feed_known [OF _ _ fires_def fed1_def st1_def st2_def, of g fuel es]
    have known: "pe_From e \<noteq> pe_To e" "gr_nodes g (pe_To e) \<noteq> None" using False nodes_V by auto
    show ?thesis
    proof (cases "wk_waiting st2 (pe_To e) = 0")
      case zero: True
      have "\<not> wk_settled st2 (pe_To e)" using waiting_pos(2) [OF Cons.prems(1,2,4)] False by (simp add: keep)
      then obtain err st3 where s3: "settle g fuel (pe_To e) st2 = Some (err, st3)"
        "err = None \<longrightarrow> (\<exists>T'. progress {} (T(n := es)) st2 T' st3)"
        using IH [unfolded settles_def] inv zero closed un False by blast
      show ?thesis
      proof (cases err)
        case (Some x)
        then have "feed g fuel live c fed (e # es) st = Some (err, st3)"
          using s3(1) zero Some unfolding step [OF known] by simp
        then show ?thesis using Some by simp
      next
        case None
        then obtain D3 T3 where p3: "progress {} (T(n := es)) st2 T3 st3" "walk_inv D3 T3 st3" using s3(2) by (auto simp: progress_def)
        have n3: "wk_settled st3 n" "T3 n = es" "n \<in> set (ids st3) \<longleftrightarrow> n \<in> set (ids st)" "closed_but {} st3"
          using p3(1) Cons.prems(3) by (auto simp: progress_def keep)
        have "unsettled st3 \<le> fuel" using progress_unsettled [OF p3(1)] un by simp
        moreover have "\<forall>x \<in> set fed1. wk_inputs st3 x \<noteq> []" using p3(1) fed1 by (auto simp: progress_def)
        moreover have "live \<Longrightarrow> c = content st3 n"
          using content_append [of st3 st2 _ n] p3(1) Cons.prems(7,8) keep by (auto simp: progress_def)
        ultimately obtain err' st' where r: "feed g fuel live c fed1 es st3 = Some (err', st')"
          "err' = None \<longrightarrow> (\<exists>T'. progress {n} T3 st3 T' st' \<and> T' n = [])"
          using Cons.IH [OF p3(2) Cons.prems(2) n3(1,2,4)] Cons.prems(7) n3(3) by metis
        have "progress {n} T3 st3 T' st' \<Longrightarrow> progress {n} (T(n := es)) st2 T' st'" for T'
          using progress_trans [OF p3(1), of "{n}" T' st'] Cons.prems(3) by (simp add: keep)
        moreover have "feed g fuel live c fed (e # es) st = feed g fuel live c fed1 es st3"
          using s3(1) None zero unfolding step [OF known] by simp
        ultimately show ?thesis using r frame by metis
      qed
    next
      case nonzero: False
      have "closed_but {} st2" using closed nonzero by (auto simp: closed_but_def)
      moreover have "live \<longleftrightarrow> n \<in> set (ids st2)" "live \<Longrightarrow> c = content st2 n" "wk_settled st2 n"
        using Cons.prems(3,7,8) by (simp_all add: keep)
      ultimately obtain err st' where r: "feed g fuel live c fed1 es st2 = Some (err, st')"
        "err = None \<longrightarrow> (\<exists>T'. progress {n} (T(n := es)) st2 T' st' \<and> T' n = [])"
        using Cons.IH [OF inv Cons.prems(2) _ fun_upd_same _ un _ _ fed1] by blast
      moreover have "feed g fuel live c fed (e # es) st = feed g fuel live c fed1 es st2"
        using nonzero unfolding step [OF known] by simp
      ultimately show ?thesis using frame by metis
    qed
  qed
qed

lemma unsettled_mark:
  assumes "n \<in> V" "\<not> wk_settled st n" "wk_settled st' = (wk_settled st)(n := True)"
  shows "Suc (unsettled st') = unsettled st"
proof -
  have "{u \<in> V. \<not> wk_settled st u} = insert n {u \<in> V. \<not> wk_settled st' u}" using assms by auto
  then show ?thesis using finite_V assms(3) by (simp add: unsettled_def)
qed

lemma settle_after_mark:
  assumes "walk_inv D T st" "n \<in> V" "\<not> wk_settled st n" "closed_but {n} st" "unsettled st \<le> Suc fuel" "settles fuel"
    and inv: "walk_inv D T st'" and st': "wk_settled st' = (wk_settled st)(n := True)" "wk_waiting st' = wk_waiting st" "wk_inputs st' = wk_inputs st"
      "\<exists>ys. wk_nodes st' = wk_nodes st @ ys" "\<And>u. u \<noteq> n \<Longrightarrow> u \<in> set (ids st') \<longleftrightarrow> u \<in> set (ids st)"
    and live: "live \<longleftrightarrow> n \<in> set (ids st')" "live \<Longrightarrow> c = content st' n"
  shows "\<exists>err st2. feed g fuel live c [] (gr_outgoing g n) st' = Some (err, st2)
           \<and> (err = None \<longrightarrow> (\<exists>T'. progress {} T st T' st2 \<and> wk_settled st2 n))"
proof -
  have T: "T n = gr_outgoing g n" using walk_invD(1) [OF assms(1), of n] walk_invD(3) [OF assms(1-3)] by simp
  have "closed_but {} st'" using assms(4) by (auto simp: closed_but_def st')
  moreover have "unsettled st' \<le> fuel" using unsettled_mark [OF assms(2,3) st'(1)] assms(5) by simp
  moreover have "wk_settled st' n" by (simp add: st')
  ultimately obtain err st2 where r: "feed g fuel live c [] (gr_outgoing g n) st' = Some (err, st2)"
    "err = None \<longrightarrow> (\<exists>T'. progress {n} T st' T' st2 \<and> T' n = [])"
    using feed_settles [OF assms(6) inv assms(2) _ T _ _ live, of "[]"] by auto
  have "progress {} T st T' st2 \<and> wk_settled st2 n" if p: "progress {n} T st' T' st2" "T' n = []" for T'
  proof -
    have ne: "u \<noteq> n" if "wk_settled st u" for u using that assms(3) by auto
    have "\<exists>ys. wk_nodes st2 = wk_nodes st @ ys" using p(1) st'(4) unfolding progress_def by (metis append.assoc)
    moreover have "wk_settled st u \<Longrightarrow> u \<in> set (ids st2) \<longleftrightarrow> u \<in> set (ids st)" for u
      using p(1) st'(5) [OF ne, of u] unfolding progress_def by (simp add: st'(1))
    moreover have "wk_settled st2 u \<and> \<not> wk_settled st u \<Longrightarrow> T' u = []" for u
      using p by (cases "u = n") (auto simp: progress_def st'(1))
    moreover have "wk_settled st u \<Longrightarrow> wk_settled st2 u \<and> T' u = T u" for u
      using p(1) ne [of u] by (simp add: progress_def st'(1))
    moreover have "wk_settled st2 n" using p(1) by (simp add: progress_def st'(1))
    ultimately show ?thesis using p(1) unfolding progress_def by (simp add: st'(3))
  qed
  then show ?thesis using r by blast
qed

lemma settle_ok: "settles fuel"
proof (induction fuel)
  case 0
  then show ?case using finite_V by (auto simp: settles_def unsettled_def)
next
  case (Suc fuel)
  show ?case unfolding settles_def
  proof (intro allI impI)
    fix n st D T
    assume a: "walk_inv D T st" "n \<in> V" "\<not> wk_settled st n" "wk_waiting st n = 0" "closed_but {n} st" "unsettled st \<le> Suc fuel"
    note after = settle_after_mark [OF a(1-3,5,6) Suc]
    let ?st1 = "st\<lparr>wk_settled := (wk_settled st)(n := True)\<rparr>"
    show "\<exists>err st'. settle g (Suc fuel) n st = Some (err, st') \<and> (err = None \<longrightarrow> (\<exists>T'. progress {} T st T' st' \<and> wk_settled st' n))"
    proof (cases "gr_indegree g n = 0 \<or> wk_inputs st n \<noteq> []")
      case False
      have inv: "walk_inv D T ?st1" using mark_inv [OF a(1-4)] False by simp
      have "n \<notin> set (ids ?st1)" using walk_invD(6) [OF a(1), of n] a(3) by auto
      then have "\<exists>err st2. feed g fuel False [] [] (gr_outgoing g n) ?st1 = Some (err, st2)
          \<and> (err = None \<longrightarrow> (\<exists>T'. progress {} T st T' st2 \<and> wk_settled st2 n))"
        by (intro after [OF inv]) simp_all
      then show ?thesis using a(3) False by (simp add: Let_def)
    next
      case True
      define input where "input = (if 0 < gr_indegree g n then strings_Join (wk_inputs st n) blank_line else gr_userMsg g)"
      obtain nr err r where i: "gr_invoke g (node_of (gr_nodes g) n) input (wk_run st) = ((nr, err), r)" by (metis prod.collapse)
      obtain b where "gr_nodes g n = Some b" using nodes_V [of n] a(2) by auto
      then have nr: "nr_NodeID nr = n" using invoke_ID [OF i] node_ID by (simp add: node_of_def)
      define st2 where "st2 = st\<lparr>wk_settled := (wk_settled st)(n := True), wk_nodes := wk_nodes st @ [nr], wk_run := r\<rparr>"
      have inv: "walk_inv D T st2" by (rule run_inv [OF a(1-4) True nr st2_def])
      have ids: "ids st2 = ids st @ [n]" by (simp add: st2_def ids_def nr)
      have c: "content st2 n = node_content nr"
        using content_last [of nr st st2] walk_invD(6) [OF a(1), of n] a(3) nr by (auto simp: st2_def)
      have "\<exists>err st'. feed g fuel True (node_content nr) [] (gr_outgoing g n) st2 = Some (err, st')
          \<and> (err = None \<longrightarrow> (\<exists>T'. progress {} T st T' st' \<and> wk_settled st' n))"
        by (intro after [OF inv]) (simp_all add: c ids, simp_all add: st2_def)
      then show ?thesis unfolding settle_run [OF a(3) True i [unfolded input_def] st2_def] by (cases err) auto
    qed
  qed
qed

lemma pend_all: "pend (gr_outgoing g) v = inbound edges V v"
proof -
  have "(\<Sum>u \<in> V. inbound (filter (\<lambda>e. pe_From e = u) es) UNIV v) = inbound es V v" for es
  proof (induction es)
    case (Cons e es)
    have "(\<Sum>u \<in> V. inbound (filter (\<lambda>e. pe_From e = u) (e # es)) UNIV v)
        = (\<Sum>u \<in> V. inbound (filter (\<lambda>e. pe_From e = u) es) UNIV v + (if u = pe_From e then (if pe_To e = v \<and> pe_From e \<noteq> pe_To e then 1 else 0) else 0))"
      by (rule sum.cong) auto
    then show ?case using Cons finite_V by (auto simp: sum.distrib sum.delta)
  qed simp
  then show ?thesis by (simp add: pend_def outgoing)
qed

lemma root_waiting:
  assumes inv: "walk_inv D T st" and "v \<in> V" "gr_indegree g v = 0"
  shows "wk_waiting st v = 0"
proof -
  have "inbound (T u) UNIV v \<le> inbound (gr_outgoing g u) UNIV v" for u using walk_invD(1) [OF inv, of u] by simp
  then have "pend T v \<le> pend (gr_outgoing g) v" unfolding pend_def by (intro sum_mono) blast
  then show ?thesis using walk_invD(2) [OF inv assms(2)] indegree [OF assms(2)] assms(3) by (simp add: pend_all)
qed

lemma settle_roots_ok:
  assumes "walk_inv D T st" "closed_but {} st" "\<forall>u. wk_settled st u \<longrightarrow> T u = []" "card V \<le> fuel" "ids_of as \<subseteq> V"
  shows "\<exists>err st'. settle_roots g fuel as st = Some (err, st') \<and> (err = None \<longrightarrow>
     (\<exists>D' T'. walk_inv D' T' st' \<and> closed_but {} st' \<and> (\<forall>u. wk_settled st' u \<longrightarrow> T' u = [])
        \<and> (\<forall>u. wk_settled st u \<longrightarrow> wk_settled st' u) \<and> (\<forall>n \<in> ids_of as. gr_indegree g n = 0 \<longrightarrow> wk_settled st' n)))"
  using assms
proof (induction "as" arbitrary: D T st)
  case (Cons a "as")
  show ?case
  proof (cases "gr_indegree g (pa_ID a) = 0")
    case False
    then show ?thesis using Cons.IH [OF Cons.prems(1-4)] Cons.prems(5) by auto
  next
    case root: True
    have aV: "pa_ID a \<in> V" using Cons.prems(5) by simp
    have "\<exists>err st1. settle g fuel (pa_ID a) st = Some (err, st1) \<and> (err = None \<longrightarrow> (\<exists>T'. progress {} T st T' st1 \<and> wk_settled st1 (pa_ID a)))"
    proof (cases "wk_settled st (pa_ID a)")
      case True
      have "card V \<noteq> 0" using aV finite_V by auto
      then have "fuel \<noteq> 0" using Cons.prems(4) by linarith
      then show ?thesis using True progress_refl [OF Cons.prems(1,2)] by (cases fuel) auto
    next
      case False
      have "unsettled st \<le> fuel" using Cons.prems(4) card_mono [OF finite_V, of "{u \<in> V. \<not> wk_settled st u}"] by (simp add: unsettled_def)
      moreover have "closed_but {pa_ID a} st" using Cons.prems(2) by (simp add: closed_but_def)
      ultimately show ?thesis
        using settle_ok [of fuel, unfolded settles_def] Cons.prems(1) aV False root_waiting [OF Cons.prems(1) aV root] by blast
    qed
    then obtain err st1 where s: "settle g fuel (pa_ID a) st = Some (err, st1)"
      "err = None \<Longrightarrow> \<exists>T'. progress {} T st T' st1 \<and> wk_settled st1 (pa_ID a)" by blast
    show ?thesis
    proof (cases err)
      case (Some x)
      then show ?thesis using s(1) root by simp
    next
      case None
      then obtain D1 T1 where p: "progress {} T st T1 st1" "walk_inv D1 T1 st1" "wk_settled st1 (pa_ID a)"
        using s(2) by (auto simp: progress_def)
      have "\<forall>u. wk_settled st1 u \<longrightarrow> T1 u = []" using p(1) Cons.prems(3) unfolding progress_def by (metis empty_iff)
      moreover have "closed_but {} st1" using p(1) by (simp add: progress_def)
      ultimately obtain err' st' where r: "settle_roots g fuel as st1 = Some (err', st')"
        "err' = None \<longrightarrow> (\<exists>D' T'. walk_inv D' T' st' \<and> closed_but {} st' \<and> (\<forall>u. wk_settled st' u \<longrightarrow> T' u = [])
           \<and> (\<forall>u. wk_settled st1 u \<longrightarrow> wk_settled st' u) \<and> (\<forall>n \<in> ids_of as. gr_indegree g n = 0 \<longrightarrow> wk_settled st' n))"
        using Cons.IH [OF p(2) _ _ Cons.prems(4)] Cons.prems(5) by auto
      have "settle_roots g fuel (a # as) st = Some (err', st')" using s(1) None root r(1) by simp
      moreover have "wk_settled st u \<Longrightarrow> wk_settled st1 u" for u using p(1) by (simp add: progress_def)
      ultimately show ?thesis using r(2) p(3) by (simp del: settle_roots.simps) blast
    qed
  qed
qed auto

text \<open>When the walk ends without an error on an acyclic graph, every node has been settled.\<close>

lemma all_settled:
  assumes inv: "walk_inv D T st" and "closed_but {} st" "\<forall>u. wk_settled st u \<longrightarrow> T u = []" "acyclic arcset"
    and roots: "\<And>n. n \<in> V \<Longrightarrow> gr_indegree g n = 0 \<Longrightarrow> wk_settled st n"
  shows "\<forall>n \<in> V. wk_settled st n"
proof (rule ccontr)
  assume "\<not> ?thesis"
  then have "{n \<in> V. \<not> wk_settled st n} \<noteq> {}" by auto
  then obtain v where v0: "v \<in> {n \<in> V. \<not> wk_settled st n}" "\<And>u. (u, v) \<in> arcset \<Longrightarrow> u \<notin> {n \<in> V. \<not> wk_settled st n}"
    by (rule acyclic_has_source [OF finite_arcs assms(4)]) blast
  then have v: "v \<in> V" "\<not> wk_settled st v" by simp_all
  have pred: "wk_settled st u" if "(u, v) \<in> arcset" for u using v0(2) [OF that] arcs_nodes [OF that] by simp
  have "inbound (T u) UNIV v = 0" if u: "u \<in> V" for u
  proof (cases "wk_settled st u")
    case False
    have "e \<in> set (T u) \<Longrightarrow> pe_From e = u \<and> e \<in> set edges" for e
    proof -
      assume "e \<in> set (T u)"
      then have "e \<in> set (gr_outgoing g u)" using walk_invD(1) [OF inv, of u] by simp
      then show ?thesis by (simp add: outgoing)
    qed
    moreover have "(u, v) \<notin> arcset" using pred False by blast
    ultimately show ?thesis using v(1) u by (auto simp: inbound_def filter_empty_conv arcs_def)
  qed (use assms(3) in simp)
  then have "wk_waiting st v = 0" using walk_invD(2) [OF inv v(1)] by (simp add: pend_def)
  then show False using assms(2) v(1,2) roots [OF v(1)] by (auto simp: closed_but_def)
qed

text \<open>The nodes that run are those the run's own outputs lead to, and each runs after its predecessors.\<close>

lemma walk_final:
  assumes inv: "walk_inv D T st" and "\<forall>n \<in> V. wk_settled st n \<and> T n = []"
  shows "distinct (ids st)" "topological (Restr arcset (set (ids st))) (ids st)"
    "v \<in> set (ids st) \<longleftrightarrow> v \<in> V \<and> (gr_indegree g v = 0 \<or> (\<exists>u \<in> set (ids st). fired (gr_outgoing g u) (content st u) v))"
proof -
  show "distinct (ids st)" by (rule walk_invD(5) [OF inv])
  show "topological (Restr arcset (set (ids st))) (ids st)"
    using walk_invD(9) [OF inv] by (auto simp: ordered_def topological_def)
  have "u \<in> V" if "u \<in> set (ids st)" for u using walk_invD(4,6) [OF inv] that by blast
  then have D: "D u = gr_outgoing g u" if "u \<in> set (ids st)" for u using walk_invD(1) [OF inv, of u] assms(2) that by auto
  show "v \<in> set (ids st) \<longleftrightarrow> v \<in> V \<and> (gr_indegree g v = 0 \<or> (\<exists>u \<in> set (ids st). fired (gr_outgoing g u) (content st u) v))"
  proof (cases "v \<in> V")
    case True
    have "wk_inputs st v \<noteq> [] \<longleftrightarrow> (\<exists>u \<in> set (ids st). fired (gr_outgoing g u) (content st u) v)"
      unfolding walk_invD(7) [OF inv True] using D by (metis (no_types))
    then show ?thesis using walk_invD(8) [OF inv, of v] assms(2) True by blast
  next
    case False
    then show ?thesis using walk_invD(4,6) [OF inv, of v] by blast
  qed
qed

definition start :: "'r \<Rightarrow> 'r walk" where
  "start ru = \<lparr>wk_waiting = gr_indegree g, wk_inputs = (\<lambda>_. []), wk_settled = (\<lambda>_. False), wk_nodes = [], wk_run = ru\<rparr>"

lemma start_inv: "walk_inv (\<lambda>_. []) (gr_outgoing g) (start ru)" "closed_but {} (start ru)"
  by (rule walk_invI) (auto simp: start_def ids_def ordered_def indegree pend_all closed_but_def)

lemma walk_result:
  assumes "ids_of as = V" "card V \<le> fuel"
  obtains err st where "settle_roots g fuel as (start ru) = Some (err, st)"
    "err = None \<Longrightarrow> acyclic arcset \<Longrightarrow> distinct (ids st) \<and> topological (Restr arcset (set (ids st))) (ids st)
       \<and> (\<forall>v. v \<in> set (ids st) \<longleftrightarrow> v \<in> V \<and> (gr_indegree g v = 0 \<or> (\<exists>u \<in> set (ids st). fired (gr_outgoing g u) (content st u) v)))"
proof -
  obtain err st where r: "settle_roots g fuel as (start ru) = Some (err, st)" "err = None \<longrightarrow>
     (\<exists>D T. walk_inv D T st \<and> closed_but {} st \<and> (\<forall>u. wk_settled st u \<longrightarrow> T u = [])
        \<and> (\<forall>n \<in> ids_of as. gr_indegree g n = 0 \<longrightarrow> wk_settled st n))"
    using settle_roots_ok [OF start_inv [of ru], of fuel "as"] assms by (auto simp: start_def)
  show ?thesis
  proof (rule that [OF r(1)])
    assume "err = None" "acyclic arcset"
    then obtain D T where w: "walk_inv D T st" "\<forall>n \<in> V. wk_settled st n \<and> T n = []"
      using r(2) all_settled assms(1) by metis
    then show "distinct (ids st) \<and> topological (Restr arcset (set (ids st))) (ids st)
       \<and> (\<forall>v. v \<in> set (ids st) \<longleftrightarrow> v \<in> V \<and> (gr_indegree g v = 0 \<or> (\<exists>u \<in> set (ids st). fired (gr_outgoing g u) (content st u) v)))"
      using walk_final [OF w] by blast
  qed
qed

end

definition named_results :: "'r invoker \<Rightarrow> bool" where
  "named_results invoke \<longleftrightarrow> (\<forall>a input r nr err r'. invoke a input r = ((nr, err), r') \<longrightarrow> nr_NodeID nr = pa_ID a)"

lemma graph_run_walk:
  assumes "named_results invoke"
  shows "graph_walk (graph_run_of invoke name agents edges userMsg) edges (ids_of agents)"
proof
  fix n a input r nr err r'
  let ?g = "graph_run_of invoke name agents edges userMsg"
  show "finite (ids_of agents)" by simp
  show "gr_nodes ?g n = None \<longleftrightarrow> n \<notin> ids_of agents" by (simp add: graph_run_of_def nodesByID_of_eq)
  show "gr_nodes ?g n = Some a \<Longrightarrow> pa_ID a = n" by (simp add: graph_run_of_def nodesByID_of_ID)
  show "gr_outgoing ?g n = filter (\<lambda>e. pe_From e = n) edges" by (simp add: graph_run_of_def outgoing_of_eq)
  show "n \<in> ids_of agents \<Longrightarrow> gr_indegree ?g n = int (inbound edges (ids_of agents) n)"
    by (simp add: graph_run_of_def degree_def indegree_of_get)
  show "gr_invoke ?g a input r = ((nr, err), r') \<Longrightarrow> nr_NodeID nr = pa_ID a"
    using assms unfolding named_results_def by (simp add: graph_run_of_def) blast
qed

lemma invokeNode_named: "named_results (invokeNode ex name sid)"
  unfolding named_results_def invokeNode_def Let_def
  by (auto split: if_splits option.splits prod.splits sum.splits)

lemma invokeNode_result: "invokeNode ex name sid node input ru = ((nr, None), ru') \<Longrightarrow> nr_Response nr \<noteq> None"
  unfolding invokeNode_def Let_def by (auto split: if_splits option.splits prod.splits sum.splits)

interpretation gw: graph_walk "graph_run_of (invokeNode ex name sid) name agents edges userMsg" edges "ids_of agents"
  for ex name sid agents edges userMsg
  by (rule graph_run_walk [OF invokeNode_named])

section \<open>Properties\<close>

text \<open>The content a node of a result list produced.\<close>

definition content_in :: "node_result list \<Rightarrow> string \<Rightarrow> string" where
  "content_in nodes n = (case find (\<lambda>nr. nr_NodeID nr = n) nodes of None \<Rightarrow> [] | Some nr \<Rightarrow> node_content nr)"

text \<open>The nodes that the outputs of a run lead to, from the roots along the edges whose guard is met.\<close>

inductive led_to :: "pipeline_agent list \<Rightarrow> pipeline_edge list \<Rightarrow> (string \<Rightarrow> string) \<Rightarrow> string \<Rightarrow> bool"
  for agents edges out where
  root: "n \<in> ids_of agents \<Longrightarrow> \<forall>u. (u, n) \<notin> arcs (ids_of agents) edges \<Longrightarrow> led_to agents edges out n"
| along: "led_to agents edges out (pe_From e) \<Longrightarrow> e \<in> set edges \<Longrightarrow> pe_From e \<noteq> pe_To e \<Longrightarrow> pe_To e \<in> ids_of agents \<Longrightarrow>
     pe_WhenContains e = [] \<or> strings_Contains (out (pe_From e)) (pe_WhenContains e) \<Longrightarrow> led_to agents edges out (pe_To e)"

lemma led_to_iff:
  assumes topo: "topological (Restr (arcs (ids_of agents) edges) (set xs)) xs" and d: "distinct xs"
    and step: "\<And>v. v \<in> set xs \<longleftrightarrow> v \<in> ids_of agents \<and> ((\<forall>u. (u, v) \<notin> arcs (ids_of agents) edges)
        \<or> (\<exists>e \<in> set edges. pe_From e \<in> set xs \<and> pe_To e = v \<and> pe_From e \<noteq> v \<and> edge_fires True (out (pe_From e)) e))"
  shows "v \<in> set xs \<longleftrightarrow> led_to agents edges out v"
proof
  assume "led_to agents edges out v"
  then show "v \<in> set xs"
  proof induction
    case (root n)
    then show ?case using step [of n] by blast
  next
    case (along e)
    then show ?case using step [of "pe_To e"] unfolding edge_fires_def by blast
  qed
next
  have "led_to agents edges out (xs ! i)" if "i < length xs" for i
    using that
  proof (induction i rule: less_induct)
    case (less i)
    then have i: "xs ! i \<in> set xs" by simp
    then consider "\<forall>u. (u, xs ! i) \<notin> arcs (ids_of agents) edges"
      | e where "e \<in> set edges" "pe_From e \<in> set xs" "pe_To e = xs ! i" "pe_From e \<noteq> xs ! i" "edge_fires True (out (pe_From e)) e"
      using step by blast
    then show ?case
    proof cases
      case 1
      then show ?thesis using i step by (blast intro: led_to.root)
    next
      case (2 e)
      have V: "pe_From e \<in> ids_of agents" "pe_To e \<in> ids_of agents" using 2(2,3) i step by metis+
      then have "(pe_From e, xs ! i) \<in> Restr (arcs (ids_of agents) edges) (set xs)" using 2 i by (auto simp: arcs_def)
      then obtain j where "j < i" "xs ! j = pe_From e" using topological_before [OF topo d _ less.prems] by blast
      then have "led_to agents edges out (pe_From e)" using less by (metis order.strict_trans)
      then show ?thesis using led_to.along [OF _ 2(1)] 2 V by (metis edge_fires_def)
    qed
  qed
  moreover assume "v \<in> set xs"
  ultimately show "led_to agents edges out v" by (metis in_set_conv_nth)
qed

lemma runGraph_cases:
  obtains (cycle) cyclic where "\<not> acyclic (arcs (ids_of agents) edges)" "cyclic \<noteq> []"
      "runGraph invoke name agents edges userMsg ru = Some (([], Some (ErrPipelineCycle cyclic)), ru)"
  | (walk) "acyclic (arcs (ids_of agents) edges)"
      "runGraph invoke name agents edges userMsg ru = map_option (\<lambda>(err, st). ((wk_nodes st, err), wk_run st))
         (settle_roots (graph_run_of invoke name agents edges userMsg) (Suc (length agents)) agents
            \<lparr>wk_waiting = degree (indegree_of agents edges), wk_inputs = (\<lambda>_. []), wk_settled = (\<lambda>_. False), wk_nodes = [], wk_run = ru\<rparr>)"
  using cyclicNodes_acyclic [of agents edges] by (cases "acyclic (arcs (ids_of agents) edges)") (auto simp: runGraph_def Let_def)

lemma gw_result:
  assumes "acyclic (arcs (ids_of agents) edges)"
  obtains nodes err ru' where "runGraph (invokeNode ex name sid) name agents edges userMsg ru = Some ((nodes, err), ru')"
    "err = None \<Longrightarrow> distinct (map nr_NodeID nodes)
       \<and> topological (Restr (arcs (ids_of agents) edges) (set (map nr_NodeID nodes))) (map nr_NodeID nodes)
       \<and> (\<forall>v. v \<in> set (map nr_NodeID nodes) \<longleftrightarrow> led_to agents edges (content_in nodes) v)"
proof -
  let ?g = "graph_run_of (invokeNode ex name sid) name agents edges userMsg"
  have card: "card (ids_of agents) \<le> Suc (length agents)" by (meson card_image_le card_length finite_set le_SucI order_trans)
  obtain err st where w: "settle_roots ?g (Suc (length agents)) agents (gw.start ex name sid agents edges userMsg ru) = Some (err, st)"
    "err = None \<Longrightarrow> acyclic (arcs (ids_of agents) edges) \<Longrightarrow>
       distinct (gw.ids st) \<and> topological (Restr (arcs (ids_of agents) edges) (set (gw.ids st))) (gw.ids st)
       \<and> (\<forall>v. v \<in> set (gw.ids st) \<longleftrightarrow> v \<in> ids_of agents \<and> (gr_indegree ?g v = 0
            \<or> (\<exists>u \<in> set (gw.ids st). gw.fired (gr_outgoing ?g u) (gw.content st u) v)))"
    by (rule gw.walk_result [where ex = ex and name = name and sid = sid and edges = edges and userMsg = userMsg and ru = ru, OF refl card])
       (rule that)
  have ids: "gw.ids st = map nr_NodeID (wk_nodes st)" by (simp add: gw.ids_def)
  have run: "runGraph (invokeNode ex name sid) name agents edges userMsg ru = Some ((wk_nodes st, err), wk_run st)"
  proof (cases rule: runGraph_cases [where agents = agents and edges = edges and invoke = "invokeNode ex name sid" and name = name
        and userMsg = userMsg and ru = ru])
    case walk
    have "gw.start ex name sid agents edges userMsg ru = \<lparr>wk_waiting = degree (indegree_of agents edges), wk_inputs = (\<lambda>_. []),
        wk_settled = (\<lambda>_. False), wk_nodes = [], wk_run = ru\<rparr>"
      unfolding gw.start_def by (simp add: graph_run_of_def)
    then show ?thesis unfolding walk(2) using w(1) by simp
  qed (use assms in simp)
  show ?thesis
  proof (rule that [OF run], intro conjI allI)
    assume "err = None"
    note f = w(2) [OF this assms]
    show d: "distinct (map nr_NodeID (wk_nodes st))" using f ids by simp
    show t: "topological (Restr (arcs (ids_of agents) edges) (set (map nr_NodeID (wk_nodes st)))) (map nr_NodeID (wk_nodes st))"
      using f ids by simp
    fix v
    show "v \<in> set (map nr_NodeID (wk_nodes st)) \<longleftrightarrow> led_to agents edges (content_in (wk_nodes st)) v"
    proof (rule led_to_iff [OF t d])
      fix v
      have root: "v \<in> ids_of agents \<Longrightarrow> gr_indegree ?g v = 0 \<longleftrightarrow> (\<forall>u. (u, v) \<notin> arcs (ids_of agents) edges)"
        using gw.indegree [of v agents ex name sid edges userMsg] inbound_eq_0 [of v "ids_of agents" "ids_of agents" edges]
        by (auto dest: arcs_nodes)
      have fired: "(\<exists>u \<in> set (gw.ids st). gw.fired (gr_outgoing ?g u) (gw.content st u) v) \<longleftrightarrow>
          (\<exists>e \<in> set edges. pe_From e \<in> set (gw.ids st) \<and> pe_To e = v \<and> pe_From e \<noteq> v \<and> edge_fires True (content_in (wk_nodes st) (pe_From e)) e)"
        by (auto simp: gw.fired_def gw.outgoing gw.content_def content_in_def)
      show "v \<in> set (map nr_NodeID (wk_nodes st)) \<longleftrightarrow> v \<in> ids_of agents \<and> ((\<forall>u. (u, v) \<notin> arcs (ids_of agents) edges)
        \<or> (\<exists>e \<in> set edges. pe_From e \<in> set (map nr_NodeID (wk_nodes st)) \<and> pe_To e = v \<and> pe_From e \<noteq> v
              \<and> edge_fires True (content_in (wk_nodes st) (pe_From e)) e))"
        using f root fired unfolding ids by blast
    qed
  qed
qed

text \<open>
  C4. A graph run returns, and it runs exactly the nodes its own outputs lead to. On a cyclic graph no
  node runs and the cycle is reported. On an acyclic one, a run without an error has run every root and
  every node that a node that ran has an edge to with its guard met, and no other; each of them once,
  and after all of its predecessors that ran.
\<close>
theorem runGraph_runs_led_nodes:
  "\<exists>nodes err ru'. runGraph (invokeNode ex name sid) name agents edges userMsg ru = Some ((nodes, err), ru')
    \<and> (if acyclic (arcs (ids_of agents) edges)
       then (case err of
               None \<Rightarrow> distinct (map nr_NodeID nodes)
                 \<and> topological (Restr (arcs (ids_of agents) edges) (set (map nr_NodeID nodes))) (map nr_NodeID nodes)
                 \<and> (\<forall>v. v \<in> set (map nr_NodeID nodes) \<longleftrightarrow> led_to agents edges (content_in nodes) v)
             | Some _ \<Rightarrow> True)
       else nodes = [] \<and> ru' = ru \<and> (\<exists>cyclic. cyclic \<noteq> [] \<and> err = Some (ErrPipelineCycle cyclic)))"
proof (cases "acyclic (arcs (ids_of agents) edges)")
  case True
  obtain nodes err ru' where r: "runGraph (invokeNode ex name sid) name agents edges userMsg ru = Some ((nodes, err), ru')"
    "err = None \<Longrightarrow> distinct (map nr_NodeID nodes)
       \<and> topological (Restr (arcs (ids_of agents) edges) (set (map nr_NodeID nodes))) (map nr_NodeID nodes)
       \<and> (\<forall>v. v \<in> set (map nr_NodeID nodes) \<longleftrightarrow> led_to agents edges (content_in nodes) v)"
    by (rule gw_result [OF True, where ex = ex and name = name and sid = sid and userMsg = userMsg and ru = ru]) (rule that)
  show ?thesis
    by (intro exI conjI) (rule r(1), use True r(2) in \<open>simp split: option.split\<close>)
next
  case False
  then show ?thesis
    by (cases rule: runGraph_cases [where agents = agents and edges = edges and invoke = "invokeNode ex name sid" and name = name
          and userMsg = userMsg and ru = ru]) simp_all
qed

definition sample_executor :: "(string, unit) executor" where
  "sample_executor = \<lparr>ex_envs = (\<lambda>_. sample_env), ex_tenant = [], ex_Meter = None, ex_records = True\<rparr>"

definition sample_run :: "(string, unit) run" where
  "sample_run = \<lparr>ru_Engine = sample_engine, ru_meter = (), ru_log = [], ru_calls = 0\<rparr>"

text \<open>
  The inputs of a join are not in the order its parents ran: \<open>a\<close> runs before \<open>b\<close>, but \<open>b\<close> feeds \<open>c\<close> first.
  Nodes here answer with their own id, and the log shows what each was given.
\<close>

definition echo_invoker :: "(string \<times> string) list invoker" where
  "echo_invoker node input given =
     ((\<lparr>nr_NodeID = pa_ID node, nr_AgentName = pa_Ref node, nr_Response = Some ((sample_response [])\<lparr>rs_Content := pa_ID node\<rparr>)\<rparr>, None),
      given @ [(pa_ID node, input)])"

lemma join_inputs_not_in_run_order:
  "map_option snd (runGraph echo_invoker ''p'' (ps_Agents (pd_Spec (sample_graph [])))
     (ps_Edges (pd_Spec (sample_graph [(''a'', ''b'', []), (''a'', ''c'', []), (''b'', ''c'', [])]))) ''hi'' [])
   = Some [(''a'', ''hi''), (''b'', ''a''), (''c'', ''b'' @ blank_line @ ''a''), (''d'', ''hi'')]"
  by code_simp

text \<open>Errors that come from the shape of the pipeline itself.\<close>

fun structural :: "pipeline_error \<Rightarrow> bool" where
  "structural (NodeAgentNotFound _ _ _) = False"
| "structural (NodeNotAdmitted _ _ _) = False"
| "structural (NodeFailed _) = False"
| "structural (JoinedErrors es) = list_ex structural es"
| "structural _ = True"

lemma invokeNode_errors:
  "invokeNode ex name sid node input ru = ((nr, Some err), ru') \<Longrightarrow> pa_Ref node \<noteq> [] \<Longrightarrow> \<not> structural err"
  unfolding invokeNode_def Let_def by (auto split: if_splits option.splits prod.splits sum.splits)

lemma runSequential_errors:
  assumes "\<And>node input ru nr err ru'. node \<in> set ns \<Longrightarrow> invoke node input ru = ((nr, Some err), ru') \<Longrightarrow> P err"
  shows "runSequential invoke ns input nodes ru = ((res, Some err), ru') \<Longrightarrow> P err"
  using assms
proof (induction ns arbitrary: input nodes ru)
  case (Cons n ns)
  obtain nr e ru1 where i: "invoke n input ru = ((nr, e), ru1)" by (metis prod.collapse)
  show ?case
  proof (cases e)
    case None
    have "runSequential invoke ns (node_content nr) (nodes @ [nr]) ru1 = ((res, Some err), ru')" using Cons.prems(1) i None by simp
    then show ?thesis using Cons.IH Cons.prems(2) by (metis list.set_intros(2))
  next
    case (Some x)
    then show ?thesis using Cons.prems(1) Cons.prems(2) [OF _ i [unfolded Some]] i by simp
  qed
qed simp

lemma settle_errors:
  assumes inv: "\<And>n a input r nr err r'. gr_nodes g n = Some a \<Longrightarrow> gr_invoke g a input r = ((nr, Some err), r') \<Longrightarrow> P err"
    and out: "\<And>n e. e \<in> set (gr_outgoing g n) \<Longrightarrow> gr_nodes g (pe_To e) \<noteq> None"
  shows "gr_nodes g n \<noteq> None \<Longrightarrow> settle g fuel n st = Some (Some err, st') \<Longrightarrow> P err"
    and "\<forall>e \<in> set es. gr_nodes g (pe_To e) \<noteq> None \<Longrightarrow> feed g fuel live c fed es st = Some (Some err, st') \<Longrightarrow> P err"
proof -
  have feed: "\<forall>e \<in> set es. gr_nodes g (pe_To e) \<noteq> None \<Longrightarrow> feed g fuel live c fed es st = Some (Some err, st') \<Longrightarrow> P err"
    if IH: "\<And>n st st'. gr_nodes g n \<noteq> None \<Longrightarrow> settle g fuel n st = Some (Some err, st') \<Longrightarrow> P err" for fuel live c fed es st st'
  proof (induction es arbitrary: fed st)
    case (Cons e es)
    show ?case
    proof (cases "pe_From e = pe_To e")
      case True
      then show ?thesis using Cons by simp
    next
      case False
      have known: "gr_nodes g (pe_To e) \<noteq> None" using Cons.prems(1) by simp
      note f = feed_known [OF False known refl refl refl refl, of fuel live c fed es st]
      show ?thesis using Cons.prems Cons.IH IH [OF known] unfolding f by (auto split: if_splits option.splits)
    qed
  qed simp
  have settle: "gr_nodes g n \<noteq> None \<Longrightarrow> settle g fuel n st = Some (Some err, st') \<Longrightarrow> P err" for fuel n st st'
  proof (induction fuel arbitrary: n st st')
    case (Suc fuel)
    have feeds: "P err" if "\<forall>e \<in> set es. gr_nodes g (pe_To e) \<noteq> None" "feed g fuel live c fed es st = Some (Some err, st')"
      for live c fed es st st'
      using feed [of fuel es live c fed st st'] Suc.IH that by blast
    obtain a where a: "gr_nodes g n = Some a" using Suc.prems(1) by auto
    have outs: "\<forall>e \<in> set (gr_outgoing g n). gr_nodes g (pe_To e) \<noteq> None" using out by blast
    show ?case
      using Suc.prems(2) feeds [OF outs] inv [OF a] a
      by (auto simp: Let_def node_of_def split: if_splits option.splits prod.splits)
  qed simp
  show "gr_nodes g n \<noteq> None \<Longrightarrow> settle g fuel n st = Some (Some err, st') \<Longrightarrow> P err" by (rule settle)
  show "\<forall>e \<in> set es. gr_nodes g (pe_To e) \<noteq> None \<Longrightarrow> feed g fuel live c fed es st = Some (Some err, st') \<Longrightarrow> P err"
    using feed [of fuel es live c fed st st'] settle by blast
qed

lemma settle_roots_errors:
  assumes "\<And>n a input r nr err r'. gr_nodes g n = Some a \<Longrightarrow> gr_invoke g a input r = ((nr, Some err), r') \<Longrightarrow> P err"
    and "\<And>n e. e \<in> set (gr_outgoing g n) \<Longrightarrow> gr_nodes g (pe_To e) \<noteq> None" "\<And>a. a \<in> set as \<Longrightarrow> gr_nodes g (pa_ID a) \<noteq> None"
  shows "settle_roots g fuel as st = Some (Some err, st') \<Longrightarrow> P err"
  using assms(3)
proof (induction "as" arbitrary: st)
  case (Cons a "as")
  have "settle g fuel (pa_ID a) st = Some (Some err, st1) \<Longrightarrow> P err" for st1
    using settle_errors(1) [of g P, OF assms(1,2)] Cons.prems(2) [of a] by simp
  then show ?case using Cons by (auto split: if_splits option.splits)
qed simp

lemma runGraph_errors:
  assumes ref: "\<forall>a \<in> set agents. pa_Ref a \<noteq> []" and "acyclic (arcs (ids_of agents) edges)"
    and edges: "\<And>e. e \<in> set edges \<Longrightarrow> pe_To e \<in> ids_of agents"
    and run: "runGraph (invokeNode ex name sid) name agents edges userMsg ru = Some ((nodes, Some err), ru')"
  shows "\<not> structural err"
proof (cases rule: runGraph_cases [where agents = agents and edges = edges and invoke = "invokeNode ex name sid" and name = name
      and userMsg = userMsg and ru = ru])
  case walk
  let ?g = "graph_run_of (invokeNode ex name sid) name agents edges userMsg"
  obtain st st' where s: "settle_roots ?g (Suc (length agents)) agents st = Some (Some err, st')" using run unfolding walk(2) by auto
  have "nodesByID_of agents n = Some a \<Longrightarrow> a \<in> set agents" for n a
    by (induction agents rule: rev_induct) (auto simp: nodesByID_of_snoc split: if_splits, simp add: nodesByID_of_def)
  then have "gr_nodes ?g n = Some a \<Longrightarrow> gr_invoke ?g a input r = ((nr, Some e), r') \<Longrightarrow> \<not> structural e" for n a input r nr e r'
    using ref invokeNode_errors by (simp add: graph_run_of_def) blast
  moreover have "e \<in> set (gr_outgoing ?g n) \<Longrightarrow> gr_nodes ?g (pe_To e) \<noteq> None" for e n
    using edges by (auto simp: graph_run_of_def outgoing_of_eq nodesByID_of_eq)
  moreover have "a \<in> set agents \<Longrightarrow> gr_nodes ?g (pa_ID a) \<noteq> None" for a by (simp add: graph_run_of_def nodesByID_of_eq)
  ultimately show ?thesis using settle_roots_errors [of ?g "\<lambda>e. \<not> structural e", OF _ _ _ s] by blast
qed (use assms in simp)

lemma runParallel_errors:
  assumes "\<forall>a \<in> set agents. pa_Ref a \<noteq> []" "set sched \<subseteq> {..<length agents}"
    and "runParallel (invokeNode ex name sid) sched agents userMsg ru = ((nodes, Some err), ru')"
  shows "\<not> structural err"
proof -
  let ?step = "parallel_node (invokeNode ex name sid) agents userMsg"
  have inv: "\<forall>e. Some e \<in> set (fst (snd (fold ?step sched x))) \<longrightarrow> \<not> structural e"
    if "\<forall>e. Some e \<in> set (fst (snd x)) \<longrightarrow> \<not> structural e" for x
    using that assms(2)
  proof (induction sched arbitrary: x)
    case (Cons i sched)
    obtain rs es ru where x: "x = (rs, es, ru)" by (cases x)
    obtain nr e ru1 where i: "invokeNode ex name sid (agents ! i) userMsg ru = ((nr, e), ru1)" by (metis prod.collapse)
    have "pa_Ref (agents ! i) \<noteq> []" using assms(1) Cons.prems(2) by simp
    then have "e = Some x \<Longrightarrow> \<not> structural x" for x using invokeNode_errors i by blast
    then have "\<forall>x. Some x \<in> set (es[i := e]) \<longrightarrow> \<not> structural x"
      using Cons.prems(1) set_update_subset_insert [of es i e] by (auto simp: x)
    then show ?case using Cons.IH [of "?step i x"] Cons.prems(2) i by (simp add: x parallel_node_def)
  qed simp
  obtain rs es ru2 where f: "fold ?step sched (replicate (length agents) None, replicate (length agents) None, ru) = (rs, es, ru2)"
    by (cases "fold ?step sched (replicate (length agents) None, replicate (length agents) None, ru)")
  have "\<forall>e. Some e \<in> set es \<longrightarrow> \<not> structural e"
    using inv [of "(replicate (length agents) None, replicate (length agents) None, ru)"] f by simp
  moreover have "errors_Join es = Some err" using assms(3) f by (simp add: runParallel_def)
  moreover from this have "err = JoinedErrors (List.map_filter id es)" by (auto simp: errors_Join_def split: list.splits)
  moreover have "set (List.map_filter id es) = {e. Some e \<in> set es}" by (auto simp: List.map_filter_def image_iff) force
  ultimately show ?thesis by (simp add: list_ex_iff)
qed

text \<open>
  C5. A pipeline that passes validation never fails for its shape. Whatever its topology, a run returns a
  result, and an error it reports comes from a node that could not be admitted, could not be resolved
  for the tenant or failed in the engine: never an unknown topology, an empty pipeline, a cycle, an
  unknown node id or a missing agent reference.
\<close>
theorem validated_pipeline_runs:
  assumes "ValidatePipeline unknown def = Some []" "set sched \<subseteq> {..<length (ps_Agents (pd_Spec def))}"
  shows "\<exists>res err ru'. RunContext ex sched newRunID (Some def) userMsg sessionID ru = Some ((Some res, err), ru')
    \<and> (case err of None \<Rightarrow> True | Some e \<Rightarrow> \<not> structural e)"
proof -
  define spec where "spec = pd_Spec def"
  note v = ValidatePipeline_clean [OF assms(1), folded spec_def]
  have ref: "\<forall>a \<in> set (ps_Agents spec). pa_Ref a \<noteq> []" using v(3) by blast
  have ids: "node_ids (ps_Agents spec) = ids_of (ps_Agents spec)" using v(3) by (auto simp: node_ids_def)
  define name where "name = pipeline_name def"
  define invoke where "invoke = invokeNode ex name (if sessionID = [] then newRunID else sessionID)"
  have ok: "case err of None \<Rightarrow> True | Some e \<Rightarrow> \<not> structural e" if "\<And>e. err = Some e \<Longrightarrow> \<not> structural e" for err
    using that by (cases err) auto
  consider "ps_Topology spec = TopologySequential" | "ps_Topology spec = TopologyParallel" | "ps_Topology spec = TopologyGraph"
    using v(1) by (auto simp: validPipelineTopologies_def)
  then show ?thesis
  proof cases
    case 1
    obtain nodes err ru' where r: "runSequential invoke (ps_Agents spec) userMsg [] ru = ((nodes, err), ru')" by (metis prod.collapse)
    have "err = Some e \<Longrightarrow> \<not> structural e" for e
      using runSequential_errors [of "ps_Agents spec" invoke "\<lambda>e. \<not> structural e" userMsg "[]" ru nodes e ru'] r ref invokeNode_errors
      unfolding invoke_def by blast
    then show ?thesis using 1 v(2) r ok
      by (simp add: RunContext_def Let_def spec_def [symmetric] invoke_def [symmetric] name_def [symmetric])
  next
    case 2
    obtain nodes err ru' where r: "runParallel invoke sched (ps_Agents spec) userMsg ru = ((nodes, err), ru')" by (metis prod.collapse)
    have "err = Some e \<Longrightarrow> \<not> structural e" for e
      using runParallel_errors [OF ref assms(2) [folded spec_def]] r unfolding invoke_def by blast
    then show ?thesis using 2 v(2) r ok
      by (simp add: RunContext_def Let_def spec_def [symmetric] invoke_def [symmetric] name_def [symmetric]
          TopologyParallel_def TopologySequential_def)
  next
    case 3
    then have ac: "acyclic (arcs (ids_of (ps_Agents spec)) (ps_Edges spec))" using v(6) ids by simp
    obtain nodes err ru' where r: "runGraph invoke name (ps_Agents spec) (ps_Edges spec) userMsg ru = Some ((nodes, err), ru')"
      unfolding invoke_def by (rule gw_result [OF ac])
    have "err = Some e \<Longrightarrow> \<not> structural e" for e
      using runGraph_errors [OF ref ac] r v(5) ids unfolding invoke_def by blast
    then show ?thesis using 3 v(2) r ok
      by (simp add: RunContext_def Let_def spec_def [symmetric] invoke_def [symmetric] name_def [symmetric]
          TopologyParallel_def TopologySequential_def TopologyGraph_def)
  qed
qed

theorem validated_pipeline_runs_witness:
  "\<exists>res err ru'. RunContext sample_executor [] ''run-1'' (Some (sample_graph [(''a'', ''b'', []), (''b'', ''c'', ''x'')])) ''hi'' [] sample_run
     = Some ((Some res, err), ru') \<and> (case err of None \<Rightarrow> True | Some e \<Rightarrow> \<not> structural e)"
proof -
  have "ValidatePipeline [] (sample_graph [(''a'', ''b'', []), (''b'', ''c'', ''x'')]) = Some []" by code_simp
  then show ?thesis by (rule validated_pipeline_runs) simp
qed

end
