(* ===== verification/Token_Bucket.thy ===== *)
theory Token_Bucket
  imports Go_Base
begin

text \<open>
  The contract of a token bucket and the bound it gives on any run. Two components keep such buckets: the
  request rate of a tenant (theory \<open>Quota\<close>) and the failed authentications of a client address (theory
  \<open>Auth_Limiter\<close>).
\<close>

text \<open>
  A run: requests at growing instants, each admitted or not, between which the rest of the program may do
  anything within \<open>frame\<close>. It counts the admitted ones.
\<close>

inductive admitted ::
  "(instant \<Rightarrow> 's \<Rightarrow> 's \<Rightarrow> bool) \<Rightarrow> (instant \<Rightarrow> 's \<Rightarrow> bool \<times> 's) \<Rightarrow> instant \<Rightarrow> 's \<Rightarrow> nat \<Rightarrow> instant \<Rightarrow> 's \<Rightarrow> bool"
  for frame :: "instant \<Rightarrow> 's \<Rightarrow> 's \<Rightarrow> bool" and attempt :: "instant \<Rightarrow> 's \<Rightarrow> bool \<times> 's" and t0 :: instant and s0 :: 's where
  start: "admitted frame attempt t0 s0 0 t0 s0"
| request: "admitted frame attempt t0 s0 n t s \<Longrightarrow> t \<le> now \<Longrightarrow> attempt now s = (ok, s') \<Longrightarrow>
    admitted frame attempt t0 s0 (n + of_bool ok) now s'"
| other: "admitted frame attempt t0 s0 n t s \<Longrightarrow> t \<le> now \<Longrightarrow> frame now s s' \<Longrightarrow>
    admitted frame attempt t0 s0 n now s'"

locale token_bucket =
  fixes frame :: "instant \<Rightarrow> 's \<Rightarrow> 's \<Rightarrow> bool"
    and attempt :: "instant \<Rightarrow> 's \<Rightarrow> bool \<times> 's"
    and ready :: "instant \<Rightarrow> 's \<Rightarrow> bool"
    and level :: "instant \<Rightarrow> 's \<Rightarrow> rat"
    and capacity rate :: rat
  assumes level_capacity: "ready t s \<Longrightarrow> level t s \<le> capacity"
    and level_refill: "ready t s \<Longrightarrow> t \<le> t' \<Longrightarrow> level t' s \<le> level t s + rate * of_int (t' - t)"
    and ready_later: "ready t s \<Longrightarrow> t \<le> t' \<Longrightarrow> ready t' s"
    and attempt_ready: "ready now s \<Longrightarrow> attempt now s = (ok, s') \<Longrightarrow> ready now s'"
    and attempt_level: "ready now s \<Longrightarrow> attempt now s = (ok, s') \<Longrightarrow> level now s' + of_bool ok \<le> level now s"
    and frame_ready: "ready now s \<Longrightarrow> frame now s s' \<Longrightarrow> ready now s'"
    and frame_level: "ready now s \<Longrightarrow> frame now s s' \<Longrightarrow> level now s' \<le> level now s"
begin

lemma admitted_level:
  assumes "admitted frame attempt t0 s0 n t s" "ready t0 s0"
  shows "t0 \<le> t \<and> ready t s \<and> of_nat n + level t s \<le> level t0 s0 + rate * of_int (t - t0)"
  using assms
proof induction
  case (request n t s now ok s')
  then have run: "t0 \<le> t" "ready t s" "of_nat n + level t s \<le> level t0 s0 + rate * of_int (t - t0)" by auto
  have now: "ready now s" using ready_later [OF run(2) request(2)] .
  have "of_nat (n + of_bool ok) + level now s' = of_nat n + (level now s' + of_bool ok)" by simp
  also have "\<dots> \<le> of_nat n + level t s + rate * of_int (now - t)"
    using attempt_level [OF now request(3)] level_refill [OF run(2) request(2)] by linarith
  also have "\<dots> \<le> level t0 s0 + rate * of_int (t - t0) + rate * of_int (now - t)" using run(3) by linarith
  also have "\<dots> = level t0 s0 + rate * of_int (now - t0)" by (simp add: algebra_simps)
  finally show ?case using attempt_ready [OF now request(3)] run(1) request(2) by auto
next
  case (other n t s now s')
  then have run: "t0 \<le> t" "ready t s" "of_nat n + level t s \<le> level t0 s0 + rate * of_int (t - t0)" by auto
  have now: "ready now s" using ready_later [OF run(2) other(2)] .
  have "of_nat n + level now s' \<le> of_nat n + level t s + rate * of_int (now - t)"
    using frame_level [OF now other(3)] level_refill [OF run(2) other(2)] by linarith
  also have "\<dots> \<le> level t0 s0 + rate * of_int (t - t0) + rate * of_int (now - t)" using run(3) by linarith
  also have "\<dots> = level t0 s0 + rate * of_int (now - t0)" by (simp add: algebra_simps)
  finally show ?case using frame_ready [OF now other(3)] run(1) other(2) by auto
qed simp

text \<open>In a span of time a bucket admits at most its capacity, less what is left, and what flows in during the span.\<close>

lemma admitted_bound:
  assumes "admitted frame attempt t0 s0 n t s" "ready t0 s0"
  shows "of_nat n \<le> capacity - level t s + rate * of_int (t - t0)"
  using admitted_level [OF assms] level_capacity [OF assms(2)] by linarith

end

end
