(* ===== verification/Quota.thy ===== *)
theory Quota
  imports Token_Bucket
begin

text \<open>
  Tenant quotas (\<^verbatim>\<open>internal/quota/quota.go\<close>): the token bucket of the request rate, the monthly spend
  counter with its shared ledger, and the concurrent schedules of \<^verbatim>\<open>AddSpend\<close> and \<^verbatim>\<open>currentSpend\<close> on several
  replicas. The ledger is the upsert of \<^verbatim>\<open>SQLiteStore.AddSpend\<close> in \<^verbatim>\<open>internal/tenancy/store.go\<close>.

  Each reading of the clock is an argument. A call of the ledger has an outcome, chosen by the environment:
  committed, rejected, or committed with the reply lost (the five-second timeout after the row was written).
\<close>

section \<open>Configuration and state\<close>

record quota_config =
  qc_RatePerSec :: rat
  qc_RateBurst :: int
  qc_MonthlySpendUSD :: rat

record quota_bucket =
  qb_tokens :: rat
  qb_last :: instant

record spend_counter =
  sc_month :: string
  sc_usd :: rat
  sc_expiry :: instant
  sc_unsynced :: rat

record enforcer =
  qe_defaults :: quota_config
  qe_overrides :: "string \<rightharpoonup> quota_config"
  qe_buckets :: "string \<rightharpoonup> quota_bucket"
  qe_spendCache :: "string \<rightharpoonup> spend_counter"
  qe_spendBackend :: bool

definition NewEnforcer :: "quota_config \<Rightarrow> enforcer" where
  "NewEnforcer defaults = \<lparr>qe_defaults = defaults, qe_overrides = Map.empty, qe_buckets = Map.empty,
     qe_spendCache = Map.empty, qe_spendBackend = False\<rparr>"

definition SetSpendBackend :: "bool \<Rightarrow> enforcer \<Rightarrow> enforcer" where
  "SetSpendBackend b e = e\<lparr>qe_spendBackend := b\<rparr>"

definition SetOverride :: "string \<Rightarrow> quota_config \<Rightarrow> enforcer \<Rightarrow> enforcer" where
  "SetOverride tenantID c e = (if tenantID = [] then e else e\<lparr>qe_overrides := (qe_overrides e)(tenantID \<mapsto> c)\<rparr>)"

definition Effective :: "string \<Rightarrow> enforcer \<Rightarrow> quota_config" where
  "Effective tenantID e = (case qe_overrides e tenantID of Some c \<Rightarrow> c | None \<Rightarrow> qe_defaults e)"

section \<open>The request rate\<close>

definition capacityFor :: "quota_config \<Rightarrow> rat" where
  "capacityFor c = (if 0 < qc_RateBurst c then of_int (qc_RateBurst c) else max 1 (qc_RatePerSec c))"

text \<open>
  The conversion of a float to \<^verbatim>\<open>time.Duration\<close> truncates; out of range it gives the least integer (the
  language leaves the value open, this is what the amd64 instruction gives).
\<close>

definition duration_of_float :: "rat \<Rightarrow> duration" where
  "duration_of_float x = (let n = (if 0 \<le> x then \<lfloor>x\<rfloor> else \<lceil>x\<rceil>) in if in_int64 n then n else - (2 ^ 63))"

definition seconds :: "duration \<Rightarrow> rat" where
  "seconds d = of_int d / of_int Second"

definition refill_bucket :: "quota_config \<Rightarrow> instant \<Rightarrow> quota_bucket \<Rightarrow> quota_bucket" where
  "refill_bucket cfg now b =
     (let elapsed = seconds (time_Sub now (qb_last b))
      in if 0 < elapsed
         then \<lparr>qb_tokens = min (capacityFor cfg) (qb_tokens b + elapsed * qc_RatePerSec cfg), qb_last = now\<rparr> else b)"

definition AllowRequest :: "instant \<Rightarrow> string \<Rightarrow> enforcer \<Rightarrow> (bool \<times> duration) \<times> enforcer" where
  "AllowRequest now tenantID e =
     (if tenantID = [] then ((True, 0), e)
      else
        let cfg = Effective tenantID e
        in if qc_RatePerSec cfg \<le> 0 then ((True, 0), e)
           else
             let b0 = (case qe_buckets e tenantID of Some b \<Rightarrow> b | None \<Rightarrow> \<lparr>qb_tokens = capacityFor cfg, qb_last = now\<rparr>);
                 b = refill_bucket cfg now b0
             in if 1 \<le> qb_tokens b
                then ((True, 0), e\<lparr>qe_buckets := (qe_buckets e)(tenantID \<mapsto> b\<lparr>qb_tokens := qb_tokens b - 1\<rparr>)\<rparr>)
                else ((False, duration_of_float ((1 - qb_tokens b) / qc_RatePerSec cfg * of_int Second)),
                      e\<lparr>qe_buckets := (qe_buckets e)(tenantID \<mapsto> b)\<rparr>))"

section \<open>The monthly spend\<close>

text \<open>
  \<^verbatim>\<open>t.UTC().Format("2006-01")\<close> on an instant counted from the Unix epoch: the proleptic Gregorian year and
  month of its day.
\<close>

definition utc_year_month :: "instant \<Rightarrow> int \<times> int" where
  "utc_year_month t =
     (let z = t div (86400 * Second) + 719468;
          era = z div 146097; doe = z mod 146097;
          yoe = (doe - doe div 1460 + doe div 36524 - doe div 146096) div 365;
          doy = doe - (365 * yoe + yoe div 4 - yoe div 100);
          mp = (5 * doy + 2) div 153;
          mon = (if mp < 10 then mp + 3 else mp - 9)
      in (yoe + era * 400 + (if mon \<le> 2 then 1 else 0), mon))"

definition pad_zero :: "nat \<Rightarrow> string \<Rightarrow> string" where
  "pad_zero n s = replicate (n - length s) (CHR ''0'') @ s"

definition monthKey :: "instant \<Rightarrow> string" where
  "monthKey now = (case utc_year_month now of (y, mon) \<Rightarrow> pad_zero 4 (itoa (nat y)) @ ''-'' @ pad_zero 2 (itoa (nat mon)))"

abbreviation spendCacheTTL :: duration where "spendCacheTTL \<equiv> 5 * Second"

text \<open>The zero \<^verbatim>\<open>time.Time\<close>, 1 January of the year 1.\<close>

definition zero_time :: instant where
  "zero_time = - 62135596800 * Second"

definition counter_for_month :: "string \<Rightarrow> spend_counter option \<Rightarrow> spend_counter" where
  "counter_for_month month c =
     (case c of
        Some c \<Rightarrow> if sc_month c = month then c
                  else \<lparr>sc_month = month, sc_usd = 0, sc_expiry = zero_time, sc_unsynced = 0\<rparr>
      | None \<Rightarrow> \<lparr>sc_month = month, sc_usd = 0, sc_expiry = zero_time, sc_unsynced = 0\<rparr>)"

definition counterForMonthLocked :: "string \<Rightarrow> string \<Rightarrow> enforcer \<Rightarrow> spend_counter \<times> enforcer" where
  "counterForMonthLocked tenantID month e =
     (let c = counter_for_month month (qe_spendCache e tenantID)
      in (c, e\<lparr>qe_spendCache := (qe_spendCache e)(tenantID \<mapsto> c)\<rparr>))"

definition put_counter :: "string \<Rightarrow> spend_counter \<Rightarrow> enforcer \<Rightarrow> enforcer" where
  "put_counter tenantID c e = e\<lparr>qe_spendCache := (qe_spendCache e)(tenantID \<mapsto> c)\<rparr>"

text \<open>The shared ledger: the rows of \<^verbatim>\<open>tenant_spend\<close> and the two statements on them.\<close>

type_synonym ledger = "string \<times> string \<rightharpoonup> rat"

datatype ledger_outcome = Committed | Rejected | ReplyLost

definition ledger_total :: "ledger \<Rightarrow> string \<Rightarrow> string \<Rightarrow> rat" where
  "ledger_total l tenantID month = (case l (tenantID, month) of Some x \<Rightarrow> x | None \<Rightarrow> 0)"

definition ledger_AddSpend :: "ledger_outcome \<Rightarrow> string \<Rightarrow> string \<Rightarrow> rat \<Rightarrow> ledger \<Rightarrow> rat option \<times> ledger" where
  "ledger_AddSpend out tenantID month usd l =
     (let tot = ledger_total l tenantID month + usd; l' = l((tenantID, month) \<mapsto> tot)
      in case out of Committed \<Rightarrow> (Some tot, l') | Rejected \<Rightarrow> (None, l) | ReplyLost \<Rightarrow> (None, l'))"

definition ledger_GetSpend :: "bool \<Rightarrow> string \<Rightarrow> string \<Rightarrow> ledger \<Rightarrow> rat option" where
  "ledger_GetSpend ok tenantID month l = (if ok then Some (ledger_total l tenantID month) else None)"

text \<open>\<^verbatim>\<open>AddSpend\<close> holds the lock twice, around the call of the ledger: \<open>claim_spend\<close> before it and \<open>settle_spend\<close> after it.\<close>

definition claim_spend :: "string \<Rightarrow> string \<Rightarrow> enforcer \<Rightarrow> rat \<times> enforcer" where
  "claim_spend tenantID month e =
     (case counterForMonthLocked tenantID month e of
        (c, e1) \<Rightarrow> (sc_unsynced c, put_counter tenantID (c\<lparr>sc_unsynced := 0\<rparr>) e1))"

definition settle_spend :: "instant \<Rightarrow> string \<Rightarrow> string \<Rightarrow> rat \<Rightarrow> rat \<Rightarrow> rat option \<Rightarrow> enforcer \<Rightarrow> enforcer" where
  "settle_spend now tenantID month usd pending tot e =
     (case counterForMonthLocked tenantID month e of
        (c, e1) \<Rightarrow>
          (case tot of
             Some tot \<Rightarrow> put_counter tenantID (c\<lparr>sc_usd := tot + sc_unsynced c, sc_expiry := now + spendCacheTTL\<rparr>) e1
           | None \<Rightarrow> put_counter tenantID (c\<lparr>sc_unsynced := sc_unsynced c + (usd + pending), sc_usd := sc_usd c + usd\<rparr>) e1))"

definition accrue_local :: "string \<Rightarrow> string \<Rightarrow> rat \<Rightarrow> enforcer \<Rightarrow> enforcer" where
  "accrue_local tenantID month usd e =
     (case counterForMonthLocked tenantID month e of (c, e1) \<Rightarrow> put_counter tenantID (c\<lparr>sc_usd := sc_usd c + usd\<rparr>) e1)"

definition AddSpend :: "instant \<Rightarrow> ledger_outcome \<Rightarrow> instant \<Rightarrow> string \<Rightarrow> rat \<Rightarrow> enforcer \<times> ledger \<Rightarrow> enforcer \<times> ledger" where
  "AddSpend now out now' tenantID usd el =
     (case el of (e, l) \<Rightarrow>
        if tenantID = [] \<or> usd \<le> 0 then (e, l)
        else
          let month = monthKey now
          in if qe_spendBackend e
             then (case claim_spend tenantID month e of
                     (pending, e1) \<Rightarrow>
                       (case ledger_AddSpend out tenantID month (usd + pending) l of
                          (tot, l') \<Rightarrow> (settle_spend now' tenantID month usd pending tot e1, l')))
             else (accrue_local tenantID month usd e, l))"

text \<open>
  \<^verbatim>\<open>currentSpend\<close>: a cached total where it may be served, and after a miss the store of what the ledger
  answered.
\<close>

definition cached_spend :: "instant \<Rightarrow> string \<Rightarrow> string \<Rightarrow> enforcer \<Rightarrow> rat option \<times> enforcer" where
  "cached_spend now tenantID month e =
     (case counterForMonthLocked tenantID month e of
        (c, e1) \<Rightarrow> (if \<not> qe_spendBackend e \<or> now < sc_expiry c then Some (sc_usd c) else None, e1))"

definition refresh_spend :: "instant \<Rightarrow> string \<Rightarrow> string \<Rightarrow> rat option \<Rightarrow> enforcer \<Rightarrow> rat \<times> enforcer" where
  "refresh_spend now tenantID month tot e =
     (case counterForMonthLocked tenantID month e of
        (c, e1) \<Rightarrow>
          (case tot of
             Some tot \<Rightarrow>
               (let c' = c\<lparr>sc_usd := tot + sc_unsynced c, sc_expiry := now + spendCacheTTL\<rparr>
                in (sc_usd c', put_counter tenantID c' e1))
           | None \<Rightarrow> (sc_usd c, e1)))"

definition currentSpend :: "instant \<Rightarrow> bool \<Rightarrow> instant \<Rightarrow> string \<Rightarrow> enforcer \<Rightarrow> ledger \<Rightarrow> rat \<times> enforcer" where
  "currentSpend now ok now' tenantID e l =
     (let month = monthKey now
      in case cached_spend now tenantID month e of
           (Some v, e1) \<Rightarrow> (v, e1)
         | (None, e1) \<Rightarrow> refresh_spend now' tenantID month (ledger_GetSpend ok tenantID month l) e1)"

definition CheckSpend :: "instant \<Rightarrow> bool \<Rightarrow> instant \<Rightarrow> string \<Rightarrow> enforcer \<Rightarrow> ledger \<Rightarrow> bool \<times> enforcer" where
  "CheckSpend now ok now' tenantID e l =
     (if tenantID = [] \<or> qc_MonthlySpendUSD (Effective tenantID e) \<le> 0 then (True, e)
      else case currentSpend now ok now' tenantID e l of
             (tot, e') \<Rightarrow> (tot < qc_MonthlySpendUSD (Effective tenantID e'), e'))"

definition Usage :: "instant \<Rightarrow> bool \<Rightarrow> instant \<Rightarrow> string \<Rightarrow> enforcer \<Rightarrow> ledger \<Rightarrow> (string \<times> rat) \<times> enforcer" where
  "Usage now ok now' tenantID e l =
     (case currentSpend now ok now' tenantID e l of (tot, e') \<Rightarrow> ((monthKey now, tot), e'))"

section \<open>The rate is a token bucket\<close>

definition rate_attempt :: "string \<Rightarrow> instant \<Rightarrow> enforcer \<Rightarrow> bool \<times> enforcer" where
  "rate_attempt tenantID now e = (case AllowRequest now tenantID e of ((ok, _), e') \<Rightarrow> (ok, e'))"

definition same_rate :: "string \<Rightarrow> instant \<Rightarrow> enforcer \<Rightarrow> enforcer \<Rightarrow> bool" where
  "same_rate tenantID now e e' \<longleftrightarrow> qe_buckets e' tenantID = qe_buckets e tenantID \<and> Effective tenantID e' = Effective tenantID e"

definition rate_ready :: "string \<Rightarrow> quota_config \<Rightarrow> instant \<Rightarrow> enforcer \<Rightarrow> bool" where
  "rate_ready tenantID cfg now e \<longleftrightarrow> tenantID \<noteq> [] \<and> 0 < qc_RatePerSec cfg \<and> Effective tenantID e = cfg \<and>
     (case qe_buckets e tenantID of
        None \<Rightarrow> True
      | Some b \<Rightarrow> qb_last b \<le> now \<and> 0 \<le> qb_tokens b \<and> qb_tokens b \<le> capacityFor cfg)"

definition rate_level :: "string \<Rightarrow> quota_config \<Rightarrow> instant \<Rightarrow> enforcer \<Rightarrow> rat" where
  "rate_level tenantID cfg now e =
     (case qe_buckets e tenantID of None \<Rightarrow> capacityFor cfg | Some b \<Rightarrow> qb_tokens (refill_bucket cfg now b))"

abbreviation rate_per_ns :: "quota_config \<Rightarrow> rat" where
  "rate_per_ns cfg \<equiv> qc_RatePerSec cfg / of_int Second"

lemma Effective_frame [simp]:
  "Effective t (e\<lparr>qe_buckets := bs\<rparr>) = Effective t e" "Effective t (e\<lparr>qe_spendCache := sc\<rparr>) = Effective t e"
  by (simp_all add: Effective_def split: option.split)

lemma capacityFor_ge1: "1 \<le> capacityFor cfg"
proof -
  have "(1 :: rat) \<le> of_int n" if "0 < n" for n :: int using that of_int_le_iff [of 1 n, where ?'a = rat] by simp
  then show ?thesis by (simp add: capacityFor_def)
qed

lemma refill_tokens:
  assumes "qb_last b \<le> now" "qb_tokens b \<le> capacityFor cfg"
  shows "qb_tokens (refill_bucket cfg now b) =
    min (capacityFor cfg) (qb_tokens b + rate_per_ns cfg * of_int (time_Sub now (qb_last b)))"
proof (cases "0 < seconds (time_Sub now (qb_last b))")
  case True
  then show ?thesis by (simp add: refill_bucket_def seconds_def Let_def algebra_simps)
next
  case False
  then have "time_Sub now (qb_last b) = 0"
    using time_Sub_nonneg [OF assms(1)] by (simp add: seconds_def zero_less_divide_iff)
  then show ?thesis using assms(2) False by (simp add: refill_bucket_def Let_def)
qed

lemma refill_last: "qb_last b \<le> now \<Longrightarrow> qb_last (refill_bucket cfg now b) = now"
  by (auto simp: refill_bucket_def seconds_def time_Sub_def zero_less_divide_iff Let_def split: if_splits)

lemma refill_again:
  assumes "qb_last b \<le> now"
  shows "refill_bucket cfg now (refill_bucket cfg now b\<lparr>qb_tokens := x\<rparr>) = refill_bucket cfg now b\<lparr>qb_tokens := x\<rparr>"
proof (cases "0 < seconds (time_Sub now (qb_last b))")
  case True
  then show ?thesis by (simp add: refill_bucket_def Let_def seconds_def)
next
  case False
  then show ?thesis by (simp add: refill_bucket_def Let_def)
qed

lemma refill_bounds:
  assumes "qb_last b \<le> now" "0 \<le> qb_tokens b" "qb_tokens b \<le> capacityFor cfg" "0 < qc_RatePerSec cfg"
  shows "0 \<le> qb_tokens (refill_bucket cfg now b)" "qb_tokens (refill_bucket cfg now b) \<le> capacityFor cfg"
  unfolding refill_tokens [OF assms(1,3)]
  using assms capacityFor_ge1 [of cfg] time_Sub_nonneg [OF assms(1)] by (simp_all add: min_def)

lemma time_Sub_step: "t \<le> t' \<Longrightarrow> time_Sub t' u \<le> time_Sub t u + (t' - t)"
  by (auto simp: time_Sub_def)

text \<open>One request: the bucket it leaves and the answer, in terms of the level at that instant.\<close>

lemma AllowRequest_level:
  assumes "rate_ready tenantID cfg now e"
  obtains b where "rate_level tenantID cfg now e = qb_tokens b" "qb_last b = now" "0 \<le> qb_tokens b" "qb_tokens b \<le> capacityFor cfg"
    "\<And>x. refill_bucket cfg now (b\<lparr>qb_tokens := x\<rparr>) = b\<lparr>qb_tokens := x\<rparr>"
    "AllowRequest now tenantID e =
       (if 1 \<le> qb_tokens b then ((True, 0), e\<lparr>qe_buckets := (qe_buckets e)(tenantID \<mapsto> b\<lparr>qb_tokens := qb_tokens b - 1\<rparr>)\<rparr>)
        else ((False, duration_of_float ((1 - qb_tokens b) / qc_RatePerSec cfg * of_int Second)),
              e\<lparr>qe_buckets := (qe_buckets e)(tenantID \<mapsto> b)\<rparr>))"
proof (cases "qe_buckets e tenantID")
  case None
  define b where "b = \<lparr>qb_tokens = capacityFor cfg, qb_last = now\<rparr>"
  have r: "refill_bucket cfg now (b\<lparr>qb_tokens := x\<rparr>) = b\<lparr>qb_tokens := x\<rparr>" for x
    by (simp add: b_def refill_bucket_def seconds_def)
  have "refill_bucket cfg now b = b" by (simp add: b_def refill_bucket_def seconds_def)
  then show thesis using that [of b] assms None r capacityFor_ge1 [of cfg]
    by (simp add: AllowRequest_def rate_ready_def rate_level_def Let_def b_def [symmetric]) (simp add: b_def)
next
  case (Some b0)
  define b where "b = refill_bucket cfg now b0"
  have ok: "qb_last b0 \<le> now" "0 \<le> qb_tokens b0" "qb_tokens b0 \<le> capacityFor cfg" "0 < qc_RatePerSec cfg"
    using assms Some by (auto simp: rate_ready_def)
  show thesis
  proof (rule that [of b])
    show "AllowRequest now tenantID e =
       (if 1 \<le> qb_tokens b then ((True, 0), e\<lparr>qe_buckets := (qe_buckets e)(tenantID \<mapsto> b\<lparr>qb_tokens := qb_tokens b - 1\<rparr>)\<rparr>)
        else ((False, duration_of_float ((1 - qb_tokens b) / qc_RatePerSec cfg * of_int Second)),
              e\<lparr>qe_buckets := (qe_buckets e)(tenantID \<mapsto> b)\<rparr>))"
      using assms Some by (simp add: AllowRequest_def rate_ready_def Let_def b_def [symmetric])
  qed (use Some refill_bounds [OF ok] refill_last [OF ok(1)] refill_again [OF ok(1)] in \<open>simp_all add: rate_level_def b_def\<close>)
qed

lemma rate_attempt_effect:
  assumes "rate_ready tenantID cfg now e" "rate_attempt tenantID now e = (ok, e')"
  shows "rate_ready tenantID cfg now e'" "rate_level tenantID cfg now e' = rate_level tenantID cfg now e - of_bool ok"
    "ok \<longleftrightarrow> 1 \<le> rate_level tenantID cfg now e"
proof -
  obtain b where b: "rate_level tenantID cfg now e = qb_tokens b" "qb_last b = now" "0 \<le> qb_tokens b" "qb_tokens b \<le> capacityFor cfg"
    "\<And>x. refill_bucket cfg now (b\<lparr>qb_tokens := x\<rparr>) = b\<lparr>qb_tokens := x\<rparr>"
    "AllowRequest now tenantID e =
       (if 1 \<le> qb_tokens b then ((True, 0), e\<lparr>qe_buckets := (qe_buckets e)(tenantID \<mapsto> b\<lparr>qb_tokens := qb_tokens b - 1\<rparr>)\<rparr>)
        else ((False, duration_of_float ((1 - qb_tokens b) / qc_RatePerSec cfg * of_int Second)),
              e\<lparr>qe_buckets := (qe_buckets e)(tenantID \<mapsto> b)\<rparr>))"
    using AllowRequest_level [OF assms(1)] by metis
  have self: "refill_bucket cfg now b = b" using b(5) [of "qb_tokens b"] by simp
  show "rate_ready tenantID cfg now e'" "rate_level tenantID cfg now e' = rate_level tenantID cfg now e - of_bool ok"
    "ok \<longleftrightarrow> 1 \<le> rate_level tenantID cfg now e"
    using assms b self by (auto simp: rate_attempt_def rate_ready_def rate_level_def split: if_splits)
qed

interpretation qb: token_bucket "same_rate tenantID" "rate_attempt tenantID" "rate_ready tenantID cfg" "rate_level tenantID cfg"
    "capacityFor cfg" "rate_per_ns cfg"
  for tenantID cfg
proof (unfold_locales, goal_cases)
  case (1 t s)
  then show ?case using refill_bounds(2) by (auto simp: rate_ready_def rate_level_def split: option.splits)
next
  case (2 t s t')
  show ?case
  proof (cases "qe_buckets s tenantID")
    case None
    have "0 \<le> rate_per_ns cfg * of_int (t' - t)" using 2 by (intro mult_nonneg_nonneg) (auto simp: rate_ready_def)
    then show ?thesis using None by (simp add: rate_level_def)
  next
    case (Some b)
    then have b: "qb_last b \<le> t" "qb_last b \<le> t'" "qb_tokens b \<le> capacityFor cfg" and r: "0 \<le> rate_per_ns cfg"
      using 2 by (auto simp: rate_ready_def)
    have grow: "min c (k + x') \<le> min c (k + x) + d" if "x' \<le> x + d" "0 \<le> d" for c k x x' d :: rat using that by linarith
    have "rate_per_ns cfg * of_int (time_Sub t' (qb_last b)) \<le> rate_per_ns cfg * of_int (time_Sub t (qb_last b) + (t' - t))"
      by (intro mult_left_mono r) (use time_Sub_step [OF 2(2), of "qb_last b"] in \<open>simp only: of_int_le_iff\<close>)
    moreover have "0 \<le> rate_per_ns cfg * of_int (t' - t)" using 2(2) r by (intro mult_nonneg_nonneg) auto
    ultimately show ?thesis
      using Some grow by (simp only: rate_level_def refill_tokens [OF b(1,3)] refill_tokens [OF b(2,3)] option.case of_int_add distrib_left)
  qed
next
  case (4 now s ok s')
  then show ?case by (rule rate_attempt_effect(1))
next
  case (5 now s ok s')
  then show ?case using rate_attempt_effect(2) [OF 5] by simp
qed (auto simp: rate_ready_def rate_level_def same_rate_def split: option.splits)

lemma admitted_capacity:
  assumes "admitted (same_rate t) (rate_attempt t) from e n to e'" "rate_ready t cfg from e"
  shows "of_nat n \<le> capacityFor cfg + rate_per_ns cfg * of_int (to - from)"
proof -
  have "rate_ready t cfg to e'" using qb.admitted_level [OF assms] by blast
  then have "0 \<le> rate_level t cfg to e'"
    using refill_bounds(1) capacityFor_ge1 [of cfg] by (auto simp: rate_ready_def rate_level_def split: option.splits)
  then show ?thesis using qb.admitted_bound [OF assms] by simp
qed

text \<open>
  C13. The rate limit holds over every span of time. Whatever else the server does in between, the number of
  requests of a tenant that are admitted between two instants is at most the capacity of its bucket plus
  the configured rate times the length of the span.
\<close>
theorem AllowRequest_rate_bound:
  assumes "admitted (same_rate t) (rate_attempt t) from e n to e'" "rate_ready t cfg from e"
  shows "of_nat n \<le> capacityFor cfg + qc_RatePerSec cfg * seconds (to - from)"
  using admitted_capacity [OF assms] by (simp add: seconds_def)

definition sample_quota :: enforcer where
  "sample_quota = NewEnforcer \<lparr>qc_RatePerSec = 2, qc_RateBurst = 1, qc_MonthlySpendUSD = 1\<rparr>"

lemma sample_quota_ready: "rate_ready ''t'' (qe_defaults sample_quota) 0 sample_quota"
  by (simp add: sample_quota_def NewEnforcer_def rate_ready_def Effective_def)

lemma sample_quota_first: "fst (rate_attempt ''t'' 0 sample_quota)"
  by code_simp

lemma sample_quota_second: "\<not> fst (rate_attempt ''t'' 1000 (snd (rate_attempt ''t'' 0 sample_quota)))"
  by code_simp

theorem AllowRequest_rate_bound_witness:
  "admitted (same_rate ''t'') (rate_attempt ''t'') 0 sample_quota 1 1000
      (snd (rate_attempt ''t'' 1000 (snd (rate_attempt ''t'' 0 sample_quota))))
    \<and> rate_ready ''t'' (qe_defaults sample_quota) 0 sample_quota
    \<and> (1 :: rat) \<le> capacityFor (qe_defaults sample_quota) + qc_RatePerSec (qe_defaults sample_quota) * seconds (1000 - 0)"
proof -
  let ?run = "admitted (same_rate ''t'') (rate_attempt ''t'') 0 sample_quota"
  obtain e1 where 1: "rate_attempt ''t'' 0 sample_quota = (True, e1)" using sample_quota_first by (metis prod.collapse)
  obtain e2 where 2: "rate_attempt ''t'' 1000 e1 = (False, e2)" using sample_quota_second 1 by (metis prod.collapse snd_conv)
  have "?run (0 + of_bool True) 0 e1" by (rule admitted.request [where attempt = "rate_attempt ''t''", OF admitted.start _ 1]) simp
  then have "?run (0 + of_bool True + of_bool False) 1000 e2" by (rule admitted.request [where attempt = "rate_attempt ''t''", OF _ _ 2]) simp
  then have run: "?run 1 1000 e2" by simp
  show ?thesis using AllowRequest_rate_bound [OF run sample_quota_ready] run sample_quota_ready 1 2 by simp
qed

text \<open>
  The wait that a refused request is told is the right one, up to the nanosecond the conversion truncates.
  When the tenant sends nothing else, a request before the wait is over is refused and one after it is
  admitted (for rates whose wait fits into a duration).
\<close>
theorem AllowRequest_retry_after:
  assumes "rate_ready t cfg now e" "AllowRequest now t e = ((False, d), e')" "of_int Second < qc_RatePerSec cfg * (2 ^ 63 - 1)"
    and "now \<le> later"
  shows "(later < now + d \<longrightarrow> \<not> fst (rate_attempt t later e')) \<and> (now + d < later \<longrightarrow> fst (rate_attempt t later e'))"
proof -
  obtain b where b: "rate_level t cfg now e = qb_tokens b" "qb_last b = now" "0 \<le> qb_tokens b" "qb_tokens b \<le> capacityFor cfg"
    "AllowRequest now t e =
       (if 1 \<le> qb_tokens b then ((True, 0), e\<lparr>qe_buckets := (qe_buckets e)(t \<mapsto> b\<lparr>qb_tokens := qb_tokens b - 1\<rparr>)\<rparr>)
        else ((False, duration_of_float ((1 - qb_tokens b) / qc_RatePerSec cfg * of_int Second)),
              e\<lparr>qe_buckets := (qe_buckets e)(t \<mapsto> b)\<rparr>))"
    by (rule AllowRequest_level [OF assms(1)])
  let ?x = "(1 - qb_tokens b) / qc_RatePerSec cfg * of_int Second" and ?el = "time_Sub later now"
  have r: "0 < qc_RatePerSec cfg" using assms(1) by (simp add: rate_ready_def)
  have low: "qb_tokens b < 1" and d: "d = duration_of_float ?x" and e': "e' = e\<lparr>qe_buckets := (qe_buckets e)(t \<mapsto> b)\<rparr>"
    using assms(2) b(5) by (auto split: if_splits)
  have "?x \<le> 1 / qc_RatePerSec cfg * of_int Second" using b(3) r by (intro mult_right_mono divide_right_mono) auto
  also have "\<dots> < 2 ^ 63 - 1" using assms(3) r by (simp add: field_simps)
  finally have x: "?x < 2 ^ 63 - 1" "0 < ?x" using low r by auto
  have in_range: "0 \<le> \<lfloor>?x\<rfloor>" "\<lfloor>?x\<rfloor> < 2 ^ 63 - 1" using x by (simp_all add: floor_less_iff)
  then have d: "d = \<lfloor>?x\<rfloor>" using x(2) unfolding d duration_of_float_def in_int64_def Let_def by simp
  have ready: "rate_ready t cfg later e'" using assms(1,4) b(2-4) by (simp add: rate_ready_def e')
  have "rate_level t cfg later e' = min (capacityFor cfg) (qb_tokens b + rate_per_ns cfg * of_int ?el)"
    using refill_tokens [of b later cfg] assms(4) b(2,4) by (simp add: rate_level_def e')
  moreover have "fst (rate_attempt t later e') \<longleftrightarrow> 1 \<le> rate_level t cfg later e'"
    using rate_attempt_effect(3) [OF ready] by (metis prod.collapse)
  ultimately have ok: "fst (rate_attempt t later e') \<longleftrightarrow> ?x \<le> of_int ?el"
    using capacityFor_ge1 [of cfg] r by (simp add: field_simps)
  have "of_int ?el < ?x" if "later < now + d"
  proof -
    have "?el < \<lfloor>?x\<rfloor>" using that d in_range assms(4) by (auto simp: time_Sub_def)
    then show ?thesis by (simp add: less_floor_iff)
  qed
  moreover have "?x \<le> of_int ?el" if "now + d < later"
  proof -
    have "\<lfloor>?x\<rfloor> < ?el" using that d in_range assms(4) by (auto simp: time_Sub_def)
    then show ?thesis by (simp add: floor_less_iff)
  qed
  ultimately show ?thesis using ok by auto
qed

definition sample_drained :: enforcer where
  "sample_drained = snd (rate_attempt ''t'' 0 sample_quota)"

lemma sample_refused: "fst (AllowRequest 1000 ''t'' sample_drained) = (False, 499999000)"
  by code_simp

theorem AllowRequest_retry_after_witness:
  "AllowRequest 1000 ''t'' sample_drained = ((False, 499999000), snd (AllowRequest 1000 ''t'' sample_drained))
    \<and> fst (rate_attempt ''t'' 500000001 (snd (AllowRequest 1000 ''t'' sample_drained)))"
proof -
  have "rate_ready ''t'' (qe_defaults sample_quota) 0 sample_drained"
    unfolding sample_drained_def using rate_attempt_effect(1) [OF sample_quota_ready] by (metis prod.collapse)
  then have ready: "rate_ready ''t'' (qe_defaults sample_quota) 1000 sample_drained" by (rule qb.ready_later) simp
  have refused: "AllowRequest 1000 ''t'' sample_drained = ((False, 499999000), snd (AllowRequest 1000 ''t'' sample_drained))"
    using sample_refused by (metis prod.collapse)
  show ?thesis
    using AllowRequest_retry_after [OF ready refused, of 500000001] refused by (simp add: sample_quota_def NewEnforcer_def)
qed

end
