(* ===== verification/Spend_Ledger.thy ===== *)
theory Spend_Ledger
  imports Quota
begin

text \<open>
  Monthly spend across replicas: every schedule of the critical sections of \<^verbatim>\<open>AddSpend\<close> and \<^verbatim>\<open>currentSpend\<close>
  (\<^verbatim>\<open>internal/quota/quota.go\<close>) of several enforcers that share one ledger, within one month. A call in
  flight is between two of its critical sections; \<open>sy_charged\<close> records what was ever charged and
  \<open>sy_doubled\<close> what the ledger committed while its reply was lost.
\<close>

section \<open>Schedules\<close>

datatype spend_call =
    Claimed nat string rat rat
  | Written nat string rat rat "rat option"
  | Reading nat string
  | Answered nat string "rat option"

record spend_system =
  sy_enf :: "nat \<Rightarrow> enforcer"
  sy_ledger :: ledger
  sy_calls :: "spend_call multiset"
  sy_charged :: "string \<Rightarrow> rat"
  sy_doubled :: "string \<Rightarrow> rat"

inductive spend_step :: "nat set \<Rightarrow> string \<Rightarrow> spend_system \<Rightarrow> spend_system \<Rightarrow> bool" for R :: "nat set" and month :: string where
  claim: "r \<in> R \<Longrightarrow> t \<noteq> [] \<Longrightarrow> 0 < usd \<Longrightarrow> claim_spend t month (sy_enf s r) = (pending, e') \<Longrightarrow>
    spend_step R month s (s\<lparr>sy_enf := (sy_enf s)(r := e'), sy_calls := add_mset (Claimed r t usd pending) (sy_calls s),
      sy_charged := (sy_charged s)(t := sy_charged s t + usd)\<rparr>)"
| book: "sy_calls s = add_mset (Claimed r t usd pending) cs \<Longrightarrow>
    ledger_AddSpend out t month (usd + pending) (sy_ledger s) = (tot, l') \<Longrightarrow>
    spend_step R month s (s\<lparr>sy_ledger := l', sy_calls := add_mset (Written r t usd pending tot) cs,
      sy_doubled := (sy_doubled s)(t := sy_doubled s t + (if out = ReplyLost then usd + pending else 0))\<rparr>)"
| settle: "r \<in> R \<Longrightarrow> sy_calls s = add_mset (Written r t usd pending tot) cs \<Longrightarrow>
    spend_step R month s (s\<lparr>sy_enf := (sy_enf s)(r := settle_spend now t month usd pending tot (sy_enf s r)), sy_calls := cs\<rparr>)"
| hit: "r \<in> R \<Longrightarrow> cached_spend now t month (sy_enf s r) = (Some v, e') \<Longrightarrow>
    spend_step R month s (s\<lparr>sy_enf := (sy_enf s)(r := e')\<rparr>)"
| miss: "r \<in> R \<Longrightarrow> cached_spend now t month (sy_enf s r) = (None, e') \<Longrightarrow>
    spend_step R month s (s\<lparr>sy_enf := (sy_enf s)(r := e'), sy_calls := add_mset (Reading r t) (sy_calls s)\<rparr>)"
| read: "sy_calls s = add_mset (Reading r t) cs \<Longrightarrow>
    spend_step R month s (s\<lparr>sy_calls := add_mset (Answered r t (ledger_GetSpend ok t month (sy_ledger s))) cs\<rparr>)"
| refresh: "r \<in> R \<Longrightarrow> sy_calls s = add_mset (Answered r t tot) cs \<Longrightarrow> refresh_spend now t month tot (sy_enf s r) = (v, e') \<Longrightarrow>
    spend_step R month s (s\<lparr>sy_enf := (sy_enf s)(r := e'), sy_calls := cs\<rparr>)"
| other: "r \<in> R \<Longrightarrow> qe_spendCache e' = qe_spendCache (sy_enf s r) \<Longrightarrow>
    spend_step R month s (s\<lparr>sy_enf := (sy_enf s)(r := e')\<rparr>)"

text \<open>The start of a month: nothing in flight and no counter of this month.\<close>

definition spend_start :: "nat set \<Rightarrow> string \<Rightarrow> spend_system \<Rightarrow> bool" where
  "spend_start R month s \<longleftrightarrow> sy_calls s = {#}
     \<and> (\<forall>t. sy_charged s t = ledger_total (sy_ledger s) t month \<and> 0 \<le> sy_charged s t \<and> sy_doubled s t = 0)
     \<and> (\<forall>r \<in> R. \<forall>t c. qe_spendCache (sy_enf s r) t = Some c \<longrightarrow> sc_month c \<noteq> month)"

inductive spend_reachable :: "nat set \<Rightarrow> string \<Rightarrow> spend_system \<Rightarrow> bool" for R month where
  start: "spend_start R month s \<Longrightarrow> spend_reachable R month s"
| step: "spend_reachable R month s \<Longrightarrow> spend_step R month s s' \<Longrightarrow> spend_reachable R month s'"

section \<open>Counters\<close>

definition unsynced :: "string \<Rightarrow> enforcer \<Rightarrow> string \<Rightarrow> rat" where
  "unsynced month e t = sc_unsynced (counter_for_month month (qe_spendCache e t))"

definition counted :: "string \<Rightarrow> enforcer \<Rightarrow> string \<Rightarrow> rat" where
  "counted month e t = sc_usd (counter_for_month month (qe_spendCache e t))"

lemma sc_month_counter [simp]: "sc_month (counter_for_month month c) = month"
  by (simp add: counter_for_month_def split: option.split)

lemma counter_current [simp]: "sc_month c = month \<Longrightarrow> counter_for_month month (Some c) = c"
  by (simp add: counter_for_month_def)

lemmas spend_defs = unsynced_def counted_def counterForMonthLocked_def put_counter_def Let_def

lemma claim_counters:
  assumes "claim_spend t month e = (pending, e')"
  shows "pending = unsynced month e t" "unsynced month e' = (unsynced month e)(t := 0)" "counted month e' = counted month e"
  using assms by (auto simp: claim_spend_def spend_defs fun_eq_iff)

lemma settle_counters:
  "unsynced month (settle_spend now t month usd pending tot e) =
     (unsynced month e)(t := unsynced month e t + (if tot = None then usd + pending else 0))"
  "counted month (settle_spend now t month usd pending tot e) =
     (counted month e)(t := (case tot of None \<Rightarrow> counted month e t + usd | Some x \<Rightarrow> x + unsynced month e t))"
  by (auto simp: settle_spend_def spend_defs fun_eq_iff split: option.splits)

lemma cached_counters:
  assumes "cached_spend now t month e = (v, e')"
  shows "unsynced month e' = unsynced month e" "counted month e' = counted month e" "v \<noteq> None \<longrightarrow> v = Some (counted month e t)"
  using assms by (auto simp: cached_spend_def spend_defs fun_eq_iff split: if_splits)

lemma refresh_counters:
  assumes "refresh_spend now t month tot e = (v, e')"
  shows "unsynced month e' = unsynced month e" "v = counted month e' t"
    "counted month e' = (counted month e)(t := (case tot of None \<Rightarrow> counted month e t | Some x \<Rightarrow> x + unsynced month e t))"
  using assms by (auto simp: refresh_spend_def spend_defs fun_eq_iff split: option.splits)

lemma same_cache_counters:
  assumes "qe_spendCache e' = qe_spendCache e"
  shows "unsynced month e' = unsynced month e" "counted month e' = counted month e"
  using assms by (simp_all add: unsynced_def [abs_def] counted_def [abs_def])

section \<open>Conservation\<close>

text \<open>What a call in flight still owes the ledger, and the part of it that its replica had counted before.\<close>

fun due :: "string \<Rightarrow> spend_call \<Rightarrow> rat" where
  "due t (Claimed r t' usd pending) = (if t' = t then usd + pending else 0)"
| "due t (Written r t' usd pending None) = (if t' = t then usd + pending else 0)"
| "due t _ = 0"

fun held :: "nat \<Rightarrow> string \<Rightarrow> spend_call \<Rightarrow> rat" where
  "held r t (Claimed r' t' usd pending) = (if r' = r \<and> t' = t then pending else 0)"
| "held r t (Written r' t' usd pending None) = (if r' = r \<and> t' = t then pending else 0)"
| "held r t _ = 0"

fun call_ok :: "string \<Rightarrow> ledger \<Rightarrow> spend_call \<Rightarrow> bool" where
  "call_ok month l (Claimed r t usd pending) \<longleftrightarrow> 0 \<le> pending \<and> 0 \<le> usd"
| "call_ok month l (Written r t usd pending tot) \<longleftrightarrow> 0 \<le> pending \<and> 0 \<le> usd \<and> (\<forall>x. tot = Some x \<longrightarrow> x \<le> ledger_total l t month)"
| "call_ok month l (Reading r t) \<longleftrightarrow> True"
| "call_ok month l (Answered r t tot) \<longleftrightarrow> (\<forall>x. tot = Some x \<longrightarrow> x \<le> ledger_total l t month)"

definition in_flight :: "string \<Rightarrow> spend_system \<Rightarrow> rat" where
  "in_flight t s = (\<Sum>c \<in># sy_calls s. due t c)"

definition pending_of :: "nat \<Rightarrow> string \<Rightarrow> spend_system \<Rightarrow> rat" where
  "pending_of r t s = (\<Sum>c \<in># sy_calls s. held r t c)"

definition all_unsynced :: "nat set \<Rightarrow> string \<Rightarrow> string \<Rightarrow> spend_system \<Rightarrow> rat" where
  "all_unsynced R month t s = (\<Sum>r \<in> R. unsynced month (sy_enf s r) t)"

definition spend_inv :: "nat set \<Rightarrow> string \<Rightarrow> spend_system \<Rightarrow> bool" where
  "spend_inv R month s \<longleftrightarrow>
     (\<forall>t. ledger_total (sy_ledger s) t month + all_unsynced R month t s + in_flight t s = sy_charged s t + sy_doubled s t)
     \<and> (\<forall>r \<in> R. \<forall>t. counted month (sy_enf s r) t
          \<le> ledger_total (sy_ledger s) t month + unsynced month (sy_enf s r) t + pending_of r t s)
     \<and> (\<forall>r \<in> R. \<forall>t. 0 \<le> unsynced month (sy_enf s r) t) \<and> (\<forall>c \<in># sy_calls s. call_ok month (sy_ledger s) c)"

lemma sum_replica:
  fixes f :: "enforcer \<Rightarrow> rat"
  assumes "finite R" "r \<in> R"
  shows "(\<Sum>i \<in> R. f ((enf(r := e)) i)) = (\<Sum>i \<in> R. f (enf i)) - f (enf r) + f e"
proof -
  have "(\<Sum>i \<in> R. f ((enf(r := e)) i)) = f e + (\<Sum>i \<in> R - {r}. f (enf i))"
    using assms by (simp add: sum.remove)
  then show ?thesis using assms by (simp add: sum.remove)
qed

lemma held_le_due: "call_ok month l c \<Longrightarrow> held r t c \<le> due t c" "call_ok month l c \<Longrightarrow> 0 \<le> held r t c"
  by (cases "(r, t, c)" rule: held.cases; auto)+

lemma call_ok_grow:
  assumes "call_ok month l c" "\<And>t. ledger_total l t month \<le> ledger_total l' t month"
  shows "call_ok month l' c"
  using assms by (cases c) (auto intro: order_trans)

lemma AddSpend_ledger:
  assumes "ledger_AddSpend out t month x l = (tot, l')"
  shows "ledger_total l' t' month = ledger_total l t' month + (if t' = t \<and> out \<noteq> Rejected then x else 0)"
    "tot = (if out = Committed then Some (ledger_total l t month + x) else None)"
  using assms by (auto simp: ledger_AddSpend_def ledger_total_def Let_def split: ledger_outcome.splits)

lemma all_unsynced_upd:
  assumes "finite R" "r \<in> R" "sy_enf s' = (sy_enf s)(r := e')"
  shows "all_unsynced R month t s' = all_unsynced R month t s - unsynced month (sy_enf s r) t + unsynced month e' t"
  unfolding all_unsynced_def assms(3) by (rule sum_replica [OF assms(1,2)])

text \<open>What one step does to the quantities of the invariant.\<close>

lemma spend_invI:
  assumes "spend_inv R month s" "finite R"
    and enf: "r \<in> R" "sy_enf s' = (sy_enf s)(r := e')"
    and calls: "\<And>c. c \<in># sy_calls s' \<Longrightarrow> call_ok month (sy_ledger s') c"
    and "\<And>t. 0 \<le> unsynced month e' t"
    and ledger: "\<And>t. ledger_total (sy_ledger s') t month = ledger_total (sy_ledger s) t month"
    and balance: "\<And>t. unsynced month e' t + in_flight t s' + sy_charged s t + sy_doubled s t
         = unsynced month (sy_enf s r) t + in_flight t s + sy_charged s' t + sy_doubled s' t"
    and counter: "\<And>t. counted month e' t \<le> ledger_total (sy_ledger s) t month + unsynced month e' t + pending_of r t s'"
    and frame: "\<And>i t. i \<noteq> r \<Longrightarrow> pending_of i t s' = pending_of i t s"
  shows "spend_inv R month s'"
proof -
  have "ledger_total (sy_ledger s') t month + all_unsynced R month t s' + in_flight t s' = sy_charged s' t + sy_doubled s' t" for t
  proof -
    have "ledger_total (sy_ledger s) t month + all_unsynced R month t s + in_flight t s = sy_charged s t + sy_doubled s t"
      using assms(1) by (simp add: spend_inv_def)
    then show ?thesis using balance [of t] all_unsynced_upd [OF assms(2) enf, of month t] ledger by simp
  qed
  moreover have "counted month (sy_enf s' i) t \<le> ledger_total (sy_ledger s') t month + unsynced month (sy_enf s' i) t + pending_of i t s'"
    if "i \<in> R" for i t
    using that assms(1) counter [of t] frame [of i t] ledger enf by (cases "i = r") (simp_all add: spend_inv_def)
  moreover have "0 \<le> unsynced month (sy_enf s' i) t" if "i \<in> R" for i t
    using that assms(1,6) enf by (simp add: spend_inv_def)
  ultimately show ?thesis using calls unfolding spend_inv_def by blast
qed

lemma inv_parts:
  assumes "spend_inv R month s" "r \<in> R"
  shows "counted month (sy_enf s r) t \<le> ledger_total (sy_ledger s) t month + unsynced month (sy_enf s r) t + pending_of r t s"
    and "0 \<le> unsynced month (sy_enf s r) t"
    and "c \<in># sy_calls s \<Longrightarrow> call_ok month (sy_ledger s) c"
  using assms by (auto simp: spend_inv_def)

lemma sum_mset_le:
  fixes f g :: "'a \<Rightarrow> rat"
  shows "\<forall>c \<in># M. f c \<le> g c \<Longrightarrow> (\<Sum>c \<in># M. f c) \<le> (\<Sum>c \<in># M. g c)"
  by (induction M) auto

lemma pending_nonneg:
  assumes "spend_inv R month s" "set_mset (sy_calls s') \<subseteq> set_mset (sy_calls s)"
  shows "0 \<le> pending_of r t s'"
proof -
  have "\<forall>c \<in># sy_calls s'. 0 \<le> held r t c" using assms held_le_due(2) unfolding spend_inv_def by blast
  then show ?thesis using sum_mset_le [of "sy_calls s'" "\<lambda>_. 0" "held r t"] by (simp add: pending_of_def)
qed

lemma spend_inv_book:
  assumes inv: "spend_inv R month s"
    and booked: "sy_calls s = add_mset (Claimed r t usd pending) cs"
      "ledger_AddSpend out t month (usd + pending) (sy_ledger s) = (tot, l')"
      "s' = s\<lparr>sy_ledger := l', sy_calls := add_mset (Written r t usd pending tot) cs,
         sy_doubled := (sy_doubled s)(t := sy_doubled s t + (if out = ReplyLost then usd + pending else 0))\<rparr>"
  shows "spend_inv R month s'"
proof -
  note l = AddSpend_ledger [OF booked(2)]
  have ok: "call_ok month (sy_ledger s) (Claimed r t usd pending)" "\<And>c. c \<in># cs \<Longrightarrow> call_ok month (sy_ledger s) c"
    using inv booked(1) by (auto simp: spend_inv_def)
  have grow: "ledger_total (sy_ledger s) i month \<le> ledger_total l' i month" for i using ok(1) l(1) by simp
  have "call_ok month l' c" if "c \<in># sy_calls s'" for c
    using that ok call_ok_grow [OF _ grow] l by (auto simp: booked(3))
  moreover have "ledger_total l' i month + all_unsynced R month i s' + in_flight i s' = sy_charged s' i + sy_doubled s' i" for i
  proof -
    have "ledger_total l' i month + in_flight i s' = ledger_total (sy_ledger s) i month + in_flight i s + (sy_doubled s' i - sy_doubled s i)"
      using l by (cases out) (auto simp: booked(1,3) in_flight_def)
    moreover have "all_unsynced R month i s' = all_unsynced R month i s" "sy_charged s' i = sy_charged s i"
      by (simp_all add: booked(3) all_unsynced_def)
    moreover have "ledger_total (sy_ledger s) i month + all_unsynced R month i s + in_flight i s = sy_charged s i + sy_doubled s i"
      using inv by (simp add: spend_inv_def)
    ultimately show ?thesis by linarith
  qed
  moreover have "counted month (sy_enf s' j) i \<le> ledger_total l' i month + unsynced month (sy_enf s' j) i + pending_of j i s'" if "j \<in> R" for i j
  proof -
    have "pending_of j i s + ledger_total (sy_ledger s) i month \<le> pending_of j i s' + ledger_total l' i month"
      using l ok(1) by (cases out) (auto simp: booked(1,3) pending_of_def)
    then show ?thesis using inv_parts(1) [OF inv that, of i] by (simp add: booked(3))
  qed
  moreover have "sy_ledger s' = l'" "sy_enf s' = sy_enf s" by (simp_all add: booked(3))
  ultimately show ?thesis using inv unfolding spend_inv_def by auto
qed

lemma spend_inv_step:
  assumes inv: "spend_inv R month s" and fin: "finite R" and step: "spend_step R month s s'"
  shows "spend_inv R month s'"
  using step
proof cases
  case (claim r t usd pending e')
  note c = claim_counters [OF claim(5)]
  show ?thesis
  proof (rule spend_invI [where e' = e', OF inv fin claim(2)])
    fix i
    show "counted month e' i \<le> ledger_total (sy_ledger s) i month + unsynced month e' i + pending_of r i s'"
      using inv_parts(1) [OF inv claim(2), of i] c by (auto simp: claim(1) pending_of_def)
    show "0 \<le> unsynced month e' i" using inv_parts(2) [OF inv claim(2), of i] c by simp
  qed (use claim c inv_parts(2,3) [OF inv claim(2)] in \<open>auto simp: in_flight_def pending_of_def\<close>)
next
  case book
  show ?thesis by (rule spend_inv_book [OF inv book(2,3,1)])
next
  case (settle r t usd pending tot cs now)
  note c = settle_counters [of month now t usd pending tot "sy_enf s r"]
  have ok: "call_ok month (sy_ledger s) (Written r t usd pending tot)" using inv settle(3) by (auto simp: spend_inv_def)
  have nonneg: "0 \<le> pending_of r i s'" for i by (rule pending_nonneg [OF inv]) (auto simp: settle(1,3))
  show ?thesis
  proof (rule spend_invI [OF inv fin settle(2)])
    fix i
    show "counted month (settle_spend now t month usd pending tot (sy_enf s r)) i
        \<le> ledger_total (sy_ledger s) i month + unsynced month (settle_spend now t month usd pending tot (sy_enf s r)) i + pending_of r i s'"
      using inv_parts(1) [OF inv settle(2), of i] c ok nonneg [of i]
      by (auto simp: settle(1,3) pending_of_def split: option.splits)
    show "0 \<le> unsynced month (settle_spend now t month usd pending tot (sy_enf s r)) i"
      using inv_parts(2) [OF inv settle(2), of i] c ok by auto
  qed (use settle c inv_parts(2,3) [OF inv settle(2)] in \<open>auto simp: in_flight_def pending_of_def split: option.splits\<close>)
next
  case (hit r now t v e')
  show ?thesis
    by (rule spend_invI [where e' = e', OF inv fin hit(2)])
      (use hit cached_counters [OF hit(3)] inv_parts [OF inv hit(2)] in \<open>auto simp: in_flight_def pending_of_def\<close>)
next
  case (miss r now t e')
  show ?thesis
    by (rule spend_invI [where e' = e', OF inv fin miss(2)])
      (use miss cached_counters [OF miss(3)] inv_parts [OF inv miss(2)] in \<open>auto simp: in_flight_def pending_of_def\<close>)
next
  case (read r t cs ok)
  then show ?thesis using inv by (auto simp: spend_inv_def in_flight_def pending_of_def all_unsynced_def ledger_GetSpend_def)
next
  case (refresh r t tot cs now v e')
  note c = refresh_counters [OF refresh(4)]
  have ok: "call_ok month (sy_ledger s) (Answered r t tot)" using inv refresh(3) by (auto simp: spend_inv_def)
  have nonneg: "0 \<le> pending_of r i s'" for i by (rule pending_nonneg [OF inv]) (auto simp: refresh(1,3))
  show ?thesis
  proof (rule spend_invI [where e' = e', OF inv fin refresh(2)])
    fix i
    show "counted month e' i \<le> ledger_total (sy_ledger s) i month + unsynced month e' i + pending_of r i s'"
      using inv_parts(1) [OF inv refresh(2), of i] c ok nonneg [of i]
      by (auto simp: refresh(1,3) pending_of_def split: option.splits)
  qed (use refresh c inv_parts(2,3) [OF inv refresh(2)] in \<open>auto simp: in_flight_def pending_of_def\<close>)
next
  case (other r e')
  show ?thesis
    by (rule spend_invI [where e' = e', OF inv fin other(2)])
      (use other same_cache_counters [OF other(3)] inv_parts [OF inv other(2)] in \<open>auto simp: in_flight_def pending_of_def\<close>)
qed

lemma spend_reachable_inv:
  assumes "spend_reachable R month s" "finite R"
  shows "spend_inv R month s"
  using assms
proof induction
  case (start s)
  then have "counter_for_month month (qe_spendCache (sy_enf s r) t) = \<lparr>sc_month = month, sc_usd = 0, sc_expiry = zero_time, sc_unsynced = 0\<rparr>"
    if "r \<in> R" for r t
    using that by (auto simp: counter_for_month_def spend_start_def split: option.split)
  then have "unsynced month (sy_enf s r) t = 0" "counted month (sy_enf s r) t = 0" if "r \<in> R" for r t
    using that by (simp_all add: unsynced_def counted_def)
  then show ?case using start
    by (simp add: spend_inv_def spend_start_def all_unsynced_def in_flight_def pending_of_def) metis
qed (rule spend_inv_step)

lemma spend_balance:
  "spend_inv R month s \<Longrightarrow>
     ledger_total (sy_ledger s) t month + all_unsynced R month t s + in_flight t s = sy_charged s t + sy_doubled s t"
  by (simp add: spend_inv_def)

text \<open>Two replicas; the first charges one dollar and the ledger rejects the write.\<close>

definition sample_replica :: enforcer where
  "sample_replica = SetSpendBackend True (NewEnforcer \<lparr>qc_RatePerSec = 0, qc_RateBurst = 0, qc_MonthlySpendUSD = 1\<rparr>)"

definition sample_month :: "(nat \<Rightarrow> enforcer) \<Rightarrow> spend_call multiset \<Rightarrow> rat \<Rightarrow> spend_system" where
  "sample_month enf calls usd = \<lparr>sy_enf = enf, sy_ledger = Map.empty, sy_calls = calls,
     sy_charged = (\<lambda>_. 0)(''t'' := usd), sy_doubled = \<lambda>_. 0\<rparr>"

definition sample_rejected :: spend_system where
  "sample_rejected = sample_month ((\<lambda>_. sample_replica)(0 :=
     settle_spend 0 ''t'' (monthKey 0) 1 0 None (snd (claim_spend ''t'' (monthKey 0) sample_replica)))) {#} 1"

lemma sample_rejected_reachable: "spend_reachable {0, 1} (monthKey 0) sample_rejected"
proof -
  let ?m = "monthKey 0" and ?e = "snd (claim_spend ''t'' (monthKey 0) sample_replica)"
  let ?s0 = "sample_month (\<lambda>_. sample_replica) {#} 0"
    and ?s1 = "sample_month ((\<lambda>_. sample_replica)(0 := ?e)) {#Claimed 0 ''t'' 1 0#} 1"
    and ?s2 = "sample_month ((\<lambda>_. sample_replica)(0 := ?e)) {#Written 0 ''t'' 1 0 None#} 1"
  have fresh: "qe_spendCache sample_replica = Map.empty" by (simp add: sample_replica_def SetSpendBackend_def NewEnforcer_def)
  have "claim_spend ''t'' ?m sample_replica = (0, ?e)"
    by (simp add: claim_spend_def counterForMonthLocked_def counter_for_month_def fresh Let_def)
  then have 1: "spend_step {0, 1} ?m ?s0 ?s1"
    using spend_step.claim [of 0 "{0, 1}" "''t''" 1 ?m ?s0 0 ?e] by (simp add: sample_month_def)
  have 2: "spend_step {0, 1} ?m ?s1 ?s2"
    using spend_step.book [of ?s1 0 "''t''" 1 0 "{#}" Rejected ?m None Map.empty "{0, 1}"]
    by (simp add: sample_month_def ledger_AddSpend_def Let_def fun_upd_idem)
  have 3: "spend_step {0, 1} ?m ?s2 sample_rejected"
    using spend_step.settle [of 0 "{0, 1}" ?s2 "''t''" 1 0 None "{#}" ?m 0] by (simp add: sample_month_def sample_rejected_def)
  have "spend_reachable {0, 1} ?m ?s0"
    by (rule spend_reachable.start) (simp add: spend_start_def sample_month_def fresh ledger_total_def fun_upd_idem)
  then show ?thesis using 1 2 3 by (meson spend_reachable.step)
qed

text \<open>
  C8. Within a month, with a shared ledger and under every interleaving of the replicas' calls and every
  outcome of the ledger's writes, the ledger's row, what the replicas hold back after failed writes and
  what calls in flight still carry add up to exactly what was charged plus the amounts of the writes
  that were committed although their reply was lost, which are made again. So no charge is lost, and
  only a lost reply counts one twice.
\<close>
theorem spend_conserved:
  assumes "spend_reachable R month s" "finite R"
  shows "ledger_total (sy_ledger s) t month + all_unsynced R month t s + in_flight t s = sy_charged s t + sy_doubled s t"
  by (rule spend_balance [OF spend_reachable_inv [OF assms]])

theorem spend_conserved_witness:
  "spend_reachable {0, 1} (monthKey 0) sample_rejected
    \<and> ledger_total (sy_ledger sample_rejected) ''t'' (monthKey 0) + all_unsynced {0, 1} (monthKey 0) ''t'' sample_rejected = 1"
  using spend_conserved [OF sample_rejected_reachable, of "''t''"] sample_rejected_reachable
  by (simp add: in_flight_def) (simp add: sample_rejected_def sample_month_def)

lemma counted_le_charged:
  assumes "spend_reachable R month s" "finite R" "r \<in> R"
  shows "ledger_total (sy_ledger s) t month + unsynced month (sy_enf s r) t + pending_of r t s \<le> sy_charged s t + sy_doubled s t"
    "counted month (sy_enf s r) t \<le> sy_charged s t + sy_doubled s t"
proof -
  note inv = spend_reachable_inv [OF assms(1,2)]
  have "pending_of r t s \<le> in_flight t s" unfolding pending_of_def in_flight_def
    by (intro sum_mset_le ballI held_le_due(1) [where month = month and l = "sy_ledger s"]) (use inv in \<open>simp add: spend_inv_def\<close>)
  moreover have "unsynced month (sy_enf s r) t \<le> all_unsynced R month t s" unfolding all_unsynced_def
    using inv assms(2,3) by (intro member_le_sum) (auto simp: spend_inv_def)
  ultimately show bound: "ledger_total (sy_ledger s) t month + unsynced month (sy_enf s r) t + pending_of r t s \<le> sy_charged s t + sy_doubled s t"
    using spend_balance [OF inv, of t] by linarith
  then show "counted month (sy_enf s r) t \<le> sy_charged s t + sy_doubled s t"
    using inv_parts(1) [OF inv assms(3), of t] by simp
qed

lemma currentSpend_value:
  assumes "currentSpend now ok now' t e l = (v, e')"
  shows "v = counted (monthKey now) e t \<or> v = ledger_total l t (monthKey now) + unsynced (monthKey now) e t"
    "qe_spendBackend e \<Longrightarrow> ok \<Longrightarrow> sc_expiry (counter_for_month (monthKey now) (qe_spendCache e t)) \<le> now \<Longrightarrow>
       v = ledger_total l t (monthKey now) + unsynced (monthKey now) e t"
    "Effective t' e' = Effective t' e"
  using assms
  by (auto simp: currentSpend_def cached_spend_def refresh_spend_def ledger_GetSpend_def spend_defs split: if_splits)

text \<open>
  C9. The spend check is sound on every replica at every moment of a month in which no reply of the ledger
  to one of the tenant's charges was lost: the tenant is turned away only when what it was charged this
  month has reached its cap. The check is exact when in addition the replica has a ledger that answers,
  its cached view has expired, no call is in flight, and no other replica holds charges back.
\<close>
theorem CheckSpend_sound:
  assumes "spend_reachable R (monthKey now) s" "finite R" "r \<in> R" "sy_doubled s t = 0"
    and "CheckSpend now ok now' t (sy_enf s r) (sy_ledger s) = (admit, e')"
    and "cap = qc_MonthlySpendUSD (Effective t (sy_enf s r))"
  shows "(\<not> admit \<longrightarrow> 0 < cap \<and> cap \<le> sy_charged s t)
    \<and> (t \<noteq> [] \<and> 0 < cap \<and> ok \<and> qe_spendBackend (sy_enf s r) \<and> sy_calls s = {#}
        \<and> sc_expiry (counter_for_month (monthKey now) (qe_spendCache (sy_enf s r) t)) \<le> now
        \<and> (\<forall>r' \<in> R - {r}. unsynced (monthKey now) (sy_enf s r') t = 0)
       \<longrightarrow> (admit \<longleftrightarrow> sy_charged s t < cap))"
proof (cases "t = [] \<or> cap \<le> 0")
  case True
  then show ?thesis using assms(5,6) by (auto simp: CheckSpend_def)
next
  case False
  let ?m = "monthKey now"
  obtain v e1 where v: "currentSpend now ok now' t (sy_enf s r) (sy_ledger s) = (v, e1)" by fastforce
  have admit: "admit \<longleftrightarrow> v < cap" using assms(5,6) False v currentSpend_value(3) [OF v] by (auto simp: CheckSpend_def)
  have "0 \<le> pending_of r t s" by (rule pending_nonneg [OF spend_reachable_inv [OF assms(1,2)]]) simp
  then have "v \<le> sy_charged s t"
    using currentSpend_value(1) [OF v] counted_le_charged [OF assms(1-3), of t] assms(4) by auto
  moreover have "v = sy_charged s t" if "ok" "qe_spendBackend (sy_enf s r)" "sy_calls s = {#}"
    "sc_expiry (counter_for_month ?m (qe_spendCache (sy_enf s r) t)) \<le> now"
    "\<forall>r' \<in> R - {r}. unsynced ?m (sy_enf s r') t = 0"
  proof -
    have "all_unsynced R ?m t s = unsynced ?m (sy_enf s r) t"
      using that(5) assms(2,3) by (simp add: all_unsynced_def sum.remove)
    then show ?thesis
      using currentSpend_value(2) [OF v that(2,1,4)] spend_balance [OF spend_reachable_inv [OF assms(1,2)], of t] that(3) assms(4)
      by (simp add: in_flight_def)
  qed
  ultimately show ?thesis using admit False by auto
qed

theorem CheckSpend_sound_witness:
  "fst (CheckSpend 0 True 0 ''t'' (sy_enf sample_rejected 0) (sy_ledger sample_rejected)) = False
    \<and> qc_MonthlySpendUSD (Effective ''t'' (sy_enf sample_rejected 0)) \<le> sy_charged sample_rejected ''t''"
proof -
  obtain admit e' where c: "CheckSpend 0 True 0 ''t'' (sy_enf sample_rejected 0) (sy_ledger sample_rejected) = (admit, e')" by fastforce
  have "fst (CheckSpend 0 True 0 ''t'' (sy_enf sample_rejected 0) (sy_ledger sample_rejected)) = False" by code_simp
  moreover have "sy_doubled sample_rejected ''t'' = 0" by (simp add: sample_rejected_def sample_month_def)
  ultimately show ?thesis using CheckSpend_sound [OF sample_rejected_reachable _ _ _ c refl] c by simp
qed

text \<open>
  The month's end loses what a replica holds back: a counter of another month is replaced, its unsynced
  spend with it.
\<close>

lemma rollover_drops_unsynced:
  assumes "qe_spendCache e t = Some c" "sc_month c \<noteq> month"
  shows "fst (claim_spend t month e) = 0" "qe_spendCache (snd (claim_spend t month e)) t = Some \<lparr>sc_month = month, sc_usd = 0, sc_expiry = zero_time, sc_unsynced = 0\<rparr>"
  using assms by (simp_all add: claim_spend_def counterForMonthLocked_def counter_for_month_def put_counter_def Let_def)

text \<open>
  A late charge of the old month costs the new month its spend so far, where the local counter is the only
  one.
\<close>

lemma late_charge_loses_spend:
  assumes "jan \<noteq> feb"
  shows "counted feb (accrue_local t feb y (accrue_local t jan z (accrue_local t feb x e))) t = y"
  using assms by (simp add: accrue_local_def counterForMonthLocked_def put_counter_def counted_def counter_for_month_def Let_def)

end
