(* ===== verification/Pricing.thy ===== *)
theory Pricing
  imports Go_Base
begin

text \<open>
  Cost estimation: the price table of \<^verbatim>\<open>internal/pricing/pricing.go\<close>, the usage block of a stored response body
  (\<^verbatim>\<open>extract.go\<close>) and the word-based token estimate of \<^verbatim>\<open>internal/adapter/token.go\<close>.

  Decoding a body into the probe struct, or into an array of raw elements, is \<^verbatim>\<open>encoding/json\<close>: two arguments
  of the extraction. An unreadable or malformed price file is the outcome \<open>None\<close> of reading it.
\<close>

section \<open>The price table\<close>

record price =
  pp_Model :: string
  pp_PromptPer1KUSD :: rat
  pp_CompletionPer1KUSD :: rat

definition price_Estimate :: "int \<Rightarrow> int \<Rightarrow> price \<Rightarrow> rat" where
  "price_Estimate promptTokens completionTokens p =
     of_int (max 0 promptTokens) / 1000 * pp_PromptPer1KUSD p + of_int (max 0 completionTokens) / 1000 * pp_CompletionPer1KUSD p"

record price_table =
  pt_prices :: "string \<rightharpoonup> price"
  pt_Fallback :: price

definition priced :: "string \<Rightarrow> rat \<Rightarrow> rat \<Rightarrow> price" where
  "priced model prompt completion = \<lparr>pp_Model = model, pp_PromptPer1KUSD = prompt, pp_CompletionPer1KUSD = completion\<rparr>"

definition defaultPrices :: "price list" where
  "defaultPrices =
    [priced ''gpt-4o'' (25 / 10000) (10 / 1000),
     priced ''gpt-4o-mini'' (15 / 100000) (60 / 100000),
     priced ''gpt-4-turbo'' (10 / 1000) (30 / 1000),
     priced ''gpt-3.5-turbo'' (5 / 10000) (15 / 10000),
     priced ''text-embedding-3-small'' (2 / 100000) 0,
     priced ''text-embedding-3-large'' (13 / 100000) 0,
     priced ''text-embedding-ada-002'' (10 / 100000) 0,
     priced ''claude-3-5-sonnet-latest'' (3 / 1000) (15 / 1000),
     priced ''claude-3-5-sonnet-20241022'' (3 / 1000) (15 / 1000),
     priced ''claude-3-5-haiku-latest'' (8 / 10000) (4 / 1000),
     priced ''claude-3-opus-20240229'' (15 / 1000) (75 / 1000),
     priced ''claude-3-sonnet-20240229'' (3 / 1000) (15 / 1000),
     priced ''claude-3-haiku-20240307'' (25 / 100000) (125 / 100000),
     priced ''gemini-2.5-pro'' (125 / 100000) (10 / 1000),
     priced ''gemini-2.5-flash'' (3 / 10000) (25 / 10000),
     priced ''gemini-2.0-flash'' (1 / 10000) (4 / 10000),
     priced ''gemini-1.5-pro'' (125 / 100000) (5 / 1000),
     priced ''gemini-1.5-flash'' (75 / 1000000) (3 / 10000)]"

definition Set_price :: "price \<Rightarrow> price_table \<Rightarrow> price_table" where
  "Set_price p t = t\<lparr>pt_prices := (pt_prices t)(strings_ToLower (pp_Model p) \<mapsto> p)\<rparr>"

definition NewDefaultTable :: price_table where
  "NewDefaultTable = fold Set_price defaultPrices \<lparr>pt_prices = Map.empty, pt_Fallback = priced ''(unknown)'' 0 0\<rparr>"

definition Lookup :: "string \<Rightarrow> price_table \<Rightarrow> price \<times> bool" where
  "Lookup model t = (case pt_prices t (strings_ToLower model) of Some p \<Rightarrow> (p, True) | None \<Rightarrow> (pt_Fallback t, False))"

definition table_Estimate :: "string \<Rightarrow> int \<Rightarrow> int \<Rightarrow> price_table \<Rightarrow> rat" where
  "table_Estimate model promptTokens completionTokens t = price_Estimate promptTokens completionTokens (fst (Lookup model t))"

record price_doc =
  fd_Prices :: "price list"
  fd_Fallback :: "price option"

definition LoadYAML :: "price_doc option \<Rightarrow> price_table \<Rightarrow> bool \<times> price_table" where
  "LoadYAML doc t =
     (case doc of
        None \<Rightarrow> (False, t)
      | Some d \<Rightarrow>
          let t1 = fold (\<lambda>p t. if pp_Model p = [] then t else Set_price p t) (fd_Prices d) t
          in (True, case fd_Fallback d of None \<Rightarrow> t1 | Some p \<Rightarrow> t1\<lparr>pt_Fallback := p\<rparr>))"

definition FromEnv :: "string \<Rightarrow> (string \<Rightarrow> price_doc option) \<Rightarrow> bool \<times> price_table" where
  "FromEnv path read_doc = (if path = [] then (True, NewDefaultTable) else LoadYAML (read_doc path) NewDefaultTable)"

section \<open>Token counts\<close>

fun count_words :: "bool \<Rightarrow> string \<Rightarrow> nat" where
  "count_words inWord [] = 0"
| "count_words inWord (r # text) =
     (if r = CHR '' '' \<or> r = CHR 0x0A \<or> r = CHR 0x09 \<or> r = CHR 0x0D then count_words False text
      else (if inWord then 0 else 1) + count_words True text)"

text \<open>\<open>int(float64(wordCount) * 1.3)\<close>; the product is rounded in the code, which can matter at multiples of ten only.\<close>

definition EstimateTokens :: "string \<Rightarrow> int" where
  "EstimateTokens text =
     (if text = [] then 0
      else let wordCount = count_words False text; tokens = int (wordCount * 13 div 10)
           in if tokens = 0 \<and> 0 < wordCount then 1 else tokens)"

record usage =
  us_PromptTokens :: int
  us_CompletionTokens :: int
  us_Model :: string

definition no_usage :: usage where
  "no_usage = \<lparr>us_PromptTokens = 0, us_CompletionTokens = 0, us_Model = []\<rparr>"

definition usage_Total :: "usage \<Rightarrow> int" where
  "usage_Total u = us_PromptTokens u + us_CompletionTokens u"

record usage_probe =
  pb_Model :: string
  pb_ModelVersion :: string
  pb_OpenAI :: "int \<times> int"
  pb_Anthropic :: "int \<times> int"
  pb_Gemini :: "int \<times> int"
  pb_Bedrock :: "int \<times> int"
  pb_Ollama :: "int \<times> int"

definition counted_tokens :: "int \<times> int \<Rightarrow> bool" where
  "counted_tokens n \<longleftrightarrow> 0 < fst n \<or> 0 < snd n"

definition usage_of_probe :: "usage_probe \<Rightarrow> usage" where
  "usage_of_probe p =
     (let model = (if pb_Model p = [] then pb_ModelVersion p else pb_Model p);
          n = (if counted_tokens (pb_OpenAI p) then pb_OpenAI p
               else if counted_tokens (pb_Anthropic p) then pb_Anthropic p
               else if counted_tokens (pb_Gemini p) then pb_Gemini p
               else if counted_tokens (pb_Bedrock p) then pb_Bedrock p
               else pb_Ollama p)
      in \<lparr>us_PromptTokens = fst n, us_CompletionTokens = snd n, us_Model = model\<rparr>)"

definition json_blank :: "char \<Rightarrow> bool" where
  "json_blank c \<longleftrightarrow> c = CHR '' '' \<or> c = CHR 0x09 \<or> c = CHR 0x0D \<or> c = CHR 0x0A"

text \<open>
  The elements of an array are shorter than its text, so the length of the body is fuel enough; \<open>None\<close> is out
  of fuel.
\<close>

fun ExtractUsage_fuel ::
  "(string \<Rightarrow> string list option) \<Rightarrow> (string \<Rightarrow> usage_probe option) \<Rightarrow> nat \<Rightarrow> string \<Rightarrow> usage option"
and extract_last ::
  "(string \<Rightarrow> string list option) \<Rightarrow> (string \<Rightarrow> usage_probe option) \<Rightarrow> nat \<Rightarrow> string list \<Rightarrow> usage option" where
  "ExtractUsage_fuel elements probe 0 body = None"
| "ExtractUsage_fuel elements probe (Suc fuel) body =
     (if body = [] then Some no_usage
      else
        let trimmed = dropWhile json_blank body
        in if trimmed \<noteq> [] \<and> hd trimmed = CHR ''[''
           then (case elements trimmed of
                   None \<Rightarrow> Some no_usage
                 | Some arr \<Rightarrow> extract_last elements probe fuel (rev arr))
           else (case probe body of None \<Rightarrow> Some no_usage | Some p \<Rightarrow> Some (usage_of_probe p)))"
| "extract_last elements probe fuel [] = Some no_usage"
| "extract_last elements probe fuel (x # xs) =
     (case ExtractUsage_fuel elements probe fuel x of
        None \<Rightarrow> None
      | Some u \<Rightarrow> if 0 < usage_Total u \<or> us_Model u \<noteq> [] then Some u else extract_last elements probe fuel xs)"

definition ExtractUsage :: "(string \<Rightarrow> string list option) \<Rightarrow> (string \<Rightarrow> usage_probe option) \<Rightarrow> string \<Rightarrow> usage option" where
  "ExtractUsage elements probe body = ExtractUsage_fuel elements probe (Suc (length body)) body"

definition converse_model :: "string \<Rightarrow> string" where
  "converse_model path =
     (if strings_HasPrefix path ''/model/'' \<and> strings_HasSuffix (drop 7 path) ''/converse''
      then take (length (drop 7 path) - 9) (drop 7 path) else [])"

definition ExtractUsageForPath ::
  "(string \<Rightarrow> string list option) \<Rightarrow> (string \<Rightarrow> usage_probe option) \<Rightarrow> string \<Rightarrow> string \<Rightarrow> usage option" where
  "ExtractUsageForPath elements probe body path =
     (case ExtractUsage elements probe body of
        None \<Rightarrow> None
      | Some u \<Rightarrow>
          Some (if us_Model u = [] \<and> body \<noteq> [] \<and> converse_model path \<noteq> [] then u\<lparr>us_Model := converse_model path\<rparr> else u))"

section \<open>Properties\<close>

text \<open>The extraction returns when the elements of an array are shorter than the array, as in JSON.\<close>

lemma extract_last_returns:
  "\<forall>x \<in> set xs. \<exists>u. ExtractUsage_fuel elements probe fuel x = Some u \<Longrightarrow> \<exists>u. extract_last elements probe fuel xs = Some u"
  by (induction xs) (auto split: if_splits)

lemma ExtractUsage_fuel_enough:
  assumes "\<And>s arr x. elements s = Some arr \<Longrightarrow> x \<in> set arr \<Longrightarrow> length x < length s"
  shows "length body < fuel \<Longrightarrow> \<exists>u. ExtractUsage_fuel elements probe fuel body = Some u"
proof (induction fuel arbitrary: body)
  case (Suc fuel)
  have "\<exists>u. extract_last elements probe fuel (rev arr) = Some u" if "elements (dropWhile json_blank body) = Some arr" for arr
  proof (rule extract_last_returns, rule)
    fix x assume "x \<in> set (rev arr)"
    then have "length x < length (dropWhile json_blank body)" using assms that by simp
    then have "length x < fuel" using Suc.prems length_dropWhile_le [of json_blank body] by linarith
    then show "\<exists>u. ExtractUsage_fuel elements probe fuel x = Some u" by (rule Suc.IH)
  qed
  then show ?case by (auto simp: Let_def split: option.splits)
qed simp

lemma price_Estimate_nonneg:
  assumes "0 \<le> pp_PromptPer1KUSD p" "0 \<le> pp_CompletionPer1KUSD p"
  shows "0 \<le> price_Estimate n m p"
  using assms by (simp add: price_Estimate_def)

end
