(* ===== verification/Metering.thy ===== *)
theory Metering
  imports Pipeline_Walk Spend_Ledger Pricing
begin

text \<open>
  Where quotas meet requests: the HTTP middleware of \<^verbatim>\<open>internal/server/quota_middleware.go\<close> and the metering of
  batched sub-requests and pipeline nodes in \<^verbatim>\<open>internal/server/metering.go\<close>, on top of \<open>Quota\<close>, \<open>Pricing\<close>
  and \<open>Pipeline\<close>. The warning about unpriced models is only logged and left out.
\<close>

section \<open>Which paths are metered\<close>

fun last_index :: "char \<Rightarrow> string \<Rightarrow> nat option" where
  "last_index c [] = None"
| "last_index c (x # xs) = (case last_index c xs of Some i \<Rightarrow> Some (Suc i) | None \<Rightarrow> if x = c then Some 0 else None)"

definition isLLMProviderPath :: "string \<Rightarrow> bool" where
  "isLLMProviderPath path =
     (if path \<in> set [''/v1/chat/completions'', ''/v1/responses'', ''/v1/embeddings'', ''/v1/messages'', ''/api/chat''] then True
      else if path \<in> set [''/openai/v1/chat/completions'', ''/openai/v1/embeddings''] then True
      else if strings_HasPrefix path ''/model/''
      then (let model = drop 7 path
            in case last_index (CHR ''/'') model of
                 None \<Rightarrow> False
               | Some i \<Rightarrow> take i model \<noteq> [] \<and> (drop (Suc i) model = ''converse'' \<or> drop (Suc i) model = ''converse-stream''))
      else if strings_HasPrefix path ''/v1beta/models/''
      then strings_HasSuffix path '':generateContent'' \<or> strings_HasSuffix path '':streamGenerateContent''
      else if strings_HasPrefix path ''/openai/deployments/''
      then strings_HasSuffix path ''/chat/completions'' \<or> strings_HasSuffix path ''/embeddings''
      else False)"

definition isQuotaPath :: "string \<Rightarrow> bool" where
  "isQuotaPath path = isLLMProviderPath path"

section \<open>The enforcer in use\<close>

text \<open>
  The environment answers the readings of the clock and the calls of the ledger, counted by \<open>mt_tick\<close>.
\<close>

record meter_env =
  me_clock :: "nat \<Rightarrow> instant"
  me_reads :: "nat \<Rightarrow> bool"
  me_writes :: "nat \<Rightarrow> ledger_outcome"
  me_prices :: "price_table option"

record meter_state =
  mt_enf :: enforcer
  mt_ledger :: ledger
  mt_tick :: nat

definition meter_AllowRequest :: "meter_env \<Rightarrow> string \<Rightarrow> meter_state \<Rightarrow> (bool \<times> duration) \<times> meter_state" where
  "meter_AllowRequest env tenantID ms =
     (case AllowRequest (me_clock env (mt_tick ms)) tenantID (mt_enf ms) of
        (r, e') \<Rightarrow> (r, ms\<lparr>mt_enf := e', mt_tick := Suc (mt_tick ms)\<rparr>))"

definition meter_CheckSpend :: "meter_env \<Rightarrow> string \<Rightarrow> meter_state \<Rightarrow> bool \<times> meter_state" where
  "meter_CheckSpend env tenantID ms =
     (let n = mt_tick ms
      in case CheckSpend (me_clock env n) (me_reads env n) (me_clock env (Suc n)) tenantID (mt_enf ms) (mt_ledger ms) of
           (b, e') \<Rightarrow> (b, ms\<lparr>mt_enf := e', mt_tick := n + 2\<rparr>))"

definition meter_AddSpend :: "meter_env \<Rightarrow> string \<Rightarrow> rat \<Rightarrow> meter_state \<Rightarrow> meter_state" where
  "meter_AddSpend env tenantID usd ms =
     (let n = mt_tick ms
      in case AddSpend (me_clock env n) (me_writes env n) (me_clock env (Suc n)) tenantID usd (mt_enf ms, mt_ledger ms) of
           (e', l') \<Rightarrow> ms\<lparr>mt_enf := e', mt_ledger := l', mt_tick := n + 2\<rparr>)"

section \<open>The HTTP middleware\<close>

record http_reply =
  hr_status :: int
  hr_retryAfter :: "int option"
  hr_errType :: string
  hr_body :: string

definition retryAfterSeconds :: "duration \<Rightarrow> int" where
  "retryAfterSeconds d = max 1 \<lceil>seconds d\<rceil>"

definition quota_reply :: "int \<Rightarrow> int option \<Rightarrow> string \<Rightarrow> http_reply" where
  "quota_reply status retry errType = \<lparr>hr_status = status, hr_retryAfter = retry, hr_errType = errType, hr_body = []\<rparr>"

type_synonym 's handler = "meter_state \<times> 's \<Rightarrow> http_reply \<times> meter_state \<times> 's"

definition QuotaEnforce :: "meter_env option \<Rightarrow> string \<Rightarrow> string \<Rightarrow> 's handler \<Rightarrow> 's handler" where
  "QuotaEnforce enf path tenantID next st =
     (case enf of
        None \<Rightarrow> next st
      | Some env \<Rightarrow>
          if \<not> isQuotaPath path then next st
          else if tenantID = [] then next st
          else
            (case meter_AllowRequest env tenantID (fst st) of
               ((False, retry), ms1) \<Rightarrow> (quota_reply 429 (Some (retryAfterSeconds retry)) ''rate_limit_exceeded'', ms1, snd st)
             | ((True, _), ms1) \<Rightarrow>
                 (case meter_CheckSpend env tenantID ms1 of
                    (False, ms2) \<Rightarrow> (quota_reply 402 None ''spend_quota_exceeded'', ms2, snd st)
                  | (True, ms2) \<Rightarrow> next (ms2, snd st))))"

text \<open>\<^verbatim>\<open>spendHook\<close>: the cost of one provider response; nil without a price table.\<close>

definition spendHook ::
  "(string \<Rightarrow> string list option) \<Rightarrow> (string \<Rightarrow> usage_probe option) \<Rightarrow> meter_env \<Rightarrow> string \<Rightarrow> string \<Rightarrow> string \<Rightarrow> meter_state \<Rightarrow> meter_state" where
  "spendHook elements probe env tenantID path respBody ms =
     (case me_prices env of
        None \<Rightarrow> ms
      | Some prices \<Rightarrow>
          if tenantID = [] \<or> respBody = [] then ms
          else
            (case ExtractUsageForPath elements probe respBody path of
               None \<Rightarrow> ms
             | Some u \<Rightarrow>
                 let cost = table_Estimate (us_Model u) (us_PromptTokens u) (us_CompletionTokens u) prices
                 in if 0 < cost then meter_AddSpend env tenantID cost ms else ms))"

definition chargeSpend :: "(string \<Rightarrow> string \<Rightarrow> string \<Rightarrow> meter_state \<Rightarrow> meter_state) \<Rightarrow> string \<Rightarrow> string \<Rightarrow> 's handler \<Rightarrow> 's handler" where
  "chargeSpend charge path tenantID next st =
     (case next st of (reply, ms, s) \<Rightarrow> (reply, charge tenantID path (hr_body reply) ms, s))"

definition subrequestMeter ::
  "(string \<Rightarrow> string list option) \<Rightarrow> (string \<Rightarrow> usage_probe option) \<Rightarrow> meter_env option \<Rightarrow> string \<Rightarrow> string \<Rightarrow> 's handler \<Rightarrow> 's handler" where
  "subrequestMeter elements probe enf path tenantID next =
     (case enf of
        None \<Rightarrow> next
      | Some env \<Rightarrow> QuotaEnforce enf path tenantID
          (if me_prices env = None then next else chargeSpend (spendHook elements probe env) path tenantID next))"

section \<open>Pipeline nodes\<close>

record quota_denial =
  qd_status :: int
  qd_retryAfter :: duration
  qd_errType :: string
  qd_message :: string

definition AdmitNode :: "meter_env \<Rightarrow> string \<Rightarrow> meter_state \<Rightarrow> quota_denial option \<times> meter_state" where
  "AdmitNode env tenantID ms =
     (if tenantID = [] then (None, ms)
      else
        (case meter_AllowRequest env tenantID ms of
           ((False, retry), ms1) \<Rightarrow>
             (Some \<lparr>qd_status = 429, qd_retryAfter = retry, qd_errType = ''rate_limit_exceeded'',
                    qd_message = ''tenant request-rate quota exceeded''\<rparr>, ms1)
         | ((True, _), ms1) \<Rightarrow>
             (case meter_CheckSpend env tenantID ms1 of
                (False, ms2) \<Rightarrow>
                  (Some \<lparr>qd_status = 402, qd_retryAfter = 0, qd_errType = ''spend_quota_exceeded'',
                         qd_message = ''tenant monthly spend quota exceeded''\<rparr>, ms2)
              | (True, ms2) \<Rightarrow> (None, ms2))))"

definition node_cost :: "price_table \<Rightarrow> node_interaction \<Rightarrow> rat" where
  "node_cost prices n =
     (case ni_Response n of
        None \<Rightarrow> 0
      | Some resp \<Rightarrow> table_Estimate (rs_Model resp) (EstimateTokens (ni_Input n)) (EstimateTokens (rs_Content resp)) prices)"

definition ChargeNode :: "meter_env \<Rightarrow> node_interaction \<Rightarrow> meter_state \<Rightarrow> meter_state" where
  "ChargeNode env n ms =
     (case me_prices env of
        None \<Rightarrow> ms
      | Some prices \<Rightarrow>
          if ni_TenantID n = [] \<or> ni_Response n = None then ms
          else if 0 < node_cost prices n then meter_AddSpend env (ni_TenantID n) (node_cost prices n) ms else ms)"

definition writeQuotaDenial :: "quota_denial \<Rightarrow> http_reply" where
  "writeQuotaDenial d =
     quota_reply (qd_status d) (if qd_status d = 429 then Some (retryAfterSeconds (qd_retryAfter d)) else None) (qd_errType d)"

definition newPipelineMeter :: "meter_env \<Rightarrow> string \<Rightarrow> meter_state node_meter" where
  "newPipelineMeter env tenantID =
     \<lparr>nm_AdmitNode = (\<lambda>ms. case AdmitNode env tenantID ms of (d, ms') \<Rightarrow> (map_option qd_message d, ms')),
      nm_ChargeNode = ChargeNode env\<rparr>"

section \<open>What every node keeps, a run keeps\<close>

locale run_invariant =
  fixes invoke :: "'r invoker" and I :: "'r \<Rightarrow> bool"
  assumes keeps: "I ru \<Longrightarrow> invoke node input ru = (x, ru') \<Longrightarrow> I ru'"
begin

lemma runSequential_keeps: "I ru \<Longrightarrow> runSequential invoke agents input nodes ru = (x, ru') \<Longrightarrow> I ru'"
proof (induction agents arbitrary: input nodes ru)
  case (Cons a agents)
  obtain nr err ru1 where i: "invoke a input ru = ((nr, err), ru1)" by (metis prod.exhaust)
  have "I ru1" using keeps [OF Cons.prems(1) i] .
  then show ?case using Cons.IH Cons.prems(2) i by (cases err) auto
qed simp

lemma parallel_keeps:
  "I ru \<Longrightarrow> fold (parallel_node invoke agents userMsg) sched (rs, es, ru) = (rs', es', ru') \<Longrightarrow> I ru'"
proof (induction sched arbitrary: rs es ru)
  case (Cons i sched)
  obtain nr err ru1 where i: "invoke (agents ! i) userMsg ru = ((nr, err), ru1)" by (metis prod.exhaust)
  have "I ru1" using keeps [OF Cons.prems(1) i] .
  then show ?case using Cons.IH Cons.prems(2) i by (simp add: parallel_node_def)
qed simp

lemma runParallel_keeps: "I ru \<Longrightarrow> runParallel invoke sched agents userMsg ru = (x, ru') \<Longrightarrow> I ru'"
  using parallel_keeps by (fastforce simp: runParallel_def split: prod.splits)

definition walks :: "'r graph_run \<Rightarrow> nat \<Rightarrow> bool" where
  "walks g fuel \<longleftrightarrow> (\<forall>n st err st'. I (wk_run st) \<longrightarrow> settle g fuel n st = Some (err, st') \<longrightarrow> I (wk_run st'))"

lemma feed_keeps:
  assumes "walks g fuel"
  shows "I (wk_run st) \<Longrightarrow> feed g fuel live c fed es st = Some (err, st') \<Longrightarrow> I (wk_run st')"
proof (induction es arbitrary: fed st)
  case (Cons e es)
  show ?case
  proof (cases "pe_From e = pe_To e \<or> gr_nodes g (pe_To e) = None")
    case True
    then show ?thesis using Cons by (auto simp: Let_def split: if_splits)
  next
    case False
    then have known: "pe_From e \<noteq> pe_To e" "gr_nodes g (pe_To e) \<noteq> None" by auto
    define fresh where "fresh \<longleftrightarrow> edge_fires live c e \<and> pe_To e \<notin> set fed"
    define fed1 where "fed1 = (if fresh then pe_To e # fed else fed)"
    define st1 where "st1 = (if fresh then st\<lparr>wk_inputs := (wk_inputs st)(pe_To e := wk_inputs st (pe_To e) @ [c])\<rparr> else st)"
    define st2 where "st2 = st1\<lparr>wk_waiting := (wk_waiting st1)(pe_To e := wk_waiting st1 (pe_To e) - 1)\<rparr>"
    note f = feed_known [OF known refl fed1_def [unfolded fresh_def] st1_def [unfolded fresh_def] st2_def]
    have st2: "I (wk_run st2)" using Cons.prems(1) by (simp add: st1_def st2_def)
    show ?thesis
    proof (cases "wk_waiting st2 (pe_To e) = 0")
      case True
      then obtain err1 st3 where s: "settle g fuel (pe_To e) st2 = Some (err1, st3)"
        using Cons.prems(2) unfolding f by (cases "settle g fuel (pe_To e) st2") auto
      have st3: "I (wk_run st3)" using assms st2 s unfolding walks_def by blast
      show ?thesis using Cons.prems(2) Cons.IH [OF st3] st3 True s unfolding f by (cases err1) auto
    next
      case False
      then show ?thesis using Cons.prems(2) Cons.IH [OF st2] unfolding f by simp
    qed
  qed
qed simp

lemma settle_keeps: "gr_invoke g = invoke \<Longrightarrow> walks g fuel"
proof (induction fuel)
  case (Suc fuel)
  have "I (wk_run st')" if "I (wk_run st)" "settle g (Suc fuel) n st = Some (err, st')" for n st err st'
  proof (cases "\<not> wk_settled st n \<and> (gr_indegree g n = 0 \<or> wk_inputs st n \<noteq> [])")
    case True
    obtain nr err1 r where i: "gr_invoke g (node_of (gr_nodes g) n)
        (if 0 < gr_indegree g n then strings_Join (wk_inputs st n) blank_line else gr_userMsg g) (wk_run st) = ((nr, err1), r)"
      by (metis prod.exhaust)
    define st2 where "st2 = st\<lparr>wk_settled := (wk_settled st)(n := True), wk_nodes := wk_nodes st @ [nr], wk_run := r\<rparr>"
    have "settle g (Suc fuel) n st = (case err1 of
        Some e \<Rightarrow> Some (Some e, st2) | None \<Rightarrow> feed g fuel True (node_content nr) [] (gr_outgoing g n) st2)"
      using settle_run [OF _ _ i st2_def] True by blast
    moreover have "I r" using keeps [OF that(1)] i Suc.prems by metis
    then have "I (wk_run st2)" by (simp add: st2_def)
    ultimately show ?thesis using that(2) feed_keeps [OF Suc.IH [OF Suc.prems], of st2]
      by (cases err1) (metis option.case(1), simp del: settle.simps)
  next
    case False
    then show ?thesis using that feed_keeps [OF Suc.IH [OF Suc.prems], of "st\<lparr>wk_settled := (wk_settled st)(n := True)\<rparr>"]
      by (auto simp: Let_def split: if_splits)
  qed
  then show ?case unfolding walks_def by blast
qed (simp add: walks_def)

lemma settle_roots_keeps:
  assumes "gr_invoke g = invoke"
  shows "I (wk_run st) \<Longrightarrow> settle_roots g fuel agents st = Some (err, st') \<Longrightarrow> I (wk_run st')"
proof (induction agents arbitrary: st)
  case (Cons a agents)
  show ?case
  proof (cases "gr_indegree g (pa_ID a) = 0")
    case True
    then obtain err1 st1 where s: "settle g fuel (pa_ID a) st = Some (err1, st1)"
      using Cons.prems(2) by (cases "settle g fuel (pa_ID a) st") auto
    have st1: "I (wk_run st1)" using settle_keeps [OF assms] Cons.prems(1) s unfolding walks_def by blast
    show ?thesis using Cons.prems(2) Cons.IH [OF st1] st1 True s by (cases err1) auto
  next
    case False
    then show ?thesis using Cons.prems(2) Cons.IH [OF Cons.prems(1)] by simp
  qed
qed simp

lemma runGraph_keeps:
  assumes "I ru" "runGraph invoke name agents edges userMsg ru = Some (x, ru')"
  shows "I ru'"
proof (cases "cyclicNodes agents (outgoing_of edges) (indegree_of agents edges) = []")
  case True
  let ?g = "graph_run_of invoke name agents edges userMsg"
    and ?st = "\<lparr>wk_waiting = degree (indegree_of agents edges), wk_inputs = (\<lambda>_. []), wk_settled = (\<lambda>_. False), wk_nodes = [], wk_run = ru\<rparr>"
  obtain err st' where s: "settle_roots ?g (Suc (length agents)) agents ?st = Some (err, st')" "ru' = wk_run st'"
    using assms(2) True by (auto simp: runGraph_def Let_def)
  have "gr_invoke ?g = invoke" "I (wk_run ?st)" using assms(1) by (simp_all add: graph_run_of_def)
  then show ?thesis using settle_roots_keeps [OF _ _ s(1)] s(2) by blast
next
  case False
  then show ?thesis using assms by (simp add: runGraph_def Let_def)
qed

end

lemma RunContext_keeps:
  assumes "\<And>name sid. run_invariant (invokeNode ex name sid) I" "I ru"
    and "RunContext ex sched newRunID d userMsg sessionID ru = Some (x, ru')"
  shows "I ru'"
proof (cases d)
  case None
  then show ?thesis using assms by (simp add: RunContext_def)
next
  case (Some def)
  let ?invoke = "invokeNode ex (pipeline_name def) (if sessionID = [] then newRunID else sessionID)"
  have inv: "run_invariant ?invoke I" by (rule assms(1))
  consider "ru' = ru"
    | y where "runSequential ?invoke (ps_Agents (pd_Spec def)) userMsg [] ru = (y, ru')"
    | y where "runParallel ?invoke sched (ps_Agents (pd_Spec def)) userMsg ru = (y, ru')"
    | y where "runGraph ?invoke (pipeline_name def) (ps_Agents (pd_Spec def)) (ps_Edges (pd_Spec def)) userMsg ru = Some (y, ru')"
    using assms(3) Some by (auto simp: RunContext_def Let_def split: if_splits prod.splits)
  then show ?thesis
    using run_invariant.runSequential_keeps [OF inv assms(2)] run_invariant.runParallel_keeps [OF inv assms(2)]
      run_invariant.runGraph_keeps [OF inv assms(2)] assms(2) by cases blast+
qed

section \<open>Metered nodes\<close>

definition metered :: "meter_env \<Rightarrow> ('t, meter_state) executor \<Rightarrow> ('t, meter_state) executor" where
  "metered env ex = ex\<lparr>ex_Meter := Some (newPipelineMeter env (ex_tenant ex))\<rparr>"

definition logged_cost :: "price_table \<Rightarrow> ('t, 'm) run \<Rightarrow> rat" where
  "logged_cost prices ru = (\<Sum>n \<leftarrow> ru_log ru. max 0 (node_cost prices n))"

lemma record_node_frame [simp]:
  "ru_meter (record_node ex name node session input resp err ru) = ru_meter ru"
  "ru_calls (record_node ex name node session input resp err ru) = ru_calls ru"
  by (simp_all add: record_node_def)

lemma record_node_cost:
  "logged_cost prices (record_node ex name node session input resp err ru) = logged_cost prices ru +
     (if ex_records ex then max 0 (case resp of None \<Rightarrow> 0 | Some r \<Rightarrow>
        table_Estimate (rs_Model r) (EstimateTokens input) (EstimateTokens (rs_Content r)) prices) else 0)"
  by (simp add: record_node_def logged_cost_def node_cost_def split: option.split)

lemma record_failed_cost [simp]:
  "logged_cost prices (record_node ex name node session input None err ru) = logged_cost prices ru"
  by (simp add: record_node_cost)

lemma admit_metered:
  "admit_node (metered env ex) ru =
     (case AdmitNode env (ex_tenant ex) (ru_meter ru) of (d, m) \<Rightarrow> (map_option qd_message d, ru\<lparr>ru_meter := m\<rparr>))"
  by (simp add: admit_node_def metered_def newPipelineMeter_def split: prod.splits)

lemma logged_cost_upd [simp]:
  "logged_cost p (ru\<lparr>ru_meter := m\<rparr>) = logged_cost p ru" "logged_cost p (ru\<lparr>ru_Engine := e\<rparr>) = logged_cost p ru"
  "logged_cost p (ru\<lparr>ru_calls := k\<rparr>) = logged_cost p ru"
  by (simp_all add: logged_cost_def)

lemma metered_simps [simp]: "ex_tenant (metered env ex) = ex_tenant ex" "ex_records (metered env ex) = ex_records ex" "ex_envs (metered env ex) = ex_envs ex"
  by (simp_all add: metered_def)

lemma charge_metered: "charge_node (metered env ex) n ru = ru\<lparr>ru_meter := ChargeNode env n (ru_meter ru)\<rparr>"
  by (simp add: charge_node_def metered_def newPipelineMeter_def)

lemma invokeNode_metered:
  assumes "invokeNode (metered env ex) name sid node input ru = (x, ru')"
  obtains (stopped) "ru_meter ru' = ru_meter ru" "ru_calls ru' = ru_calls ru" "\<And>p. logged_cost p ru' = logged_cost p ru"
  | (denied) d where "AdmitNode env (ex_tenant ex) (ru_meter ru) = (Some d, ru_meter ru')" "ru_calls ru' = ru_calls ru"
      "\<And>p. logged_cost p ru' = logged_cost p ru"
  | (failed) "AdmitNode env (ex_tenant ex) (ru_meter ru) = (None, ru_meter ru')" "ru_calls ru' = Suc (ru_calls ru)"
      "\<And>p. logged_cost p ru' = logged_cost p ru"
  | (completed) m n where "AdmitNode env (ex_tenant ex) (ru_meter ru) = (None, m)" "ru_meter ru' = ChargeNode env n m"
      "ru_calls ru' = Suc (ru_calls ru)" "ni_TenantID n = ex_tenant ex" "ni_Response n \<noteq> None"
      "\<And>p. ex_records ex \<Longrightarrow> logged_cost p ru' = logged_cost p ru + max 0 (node_cost p n)"
proof -
  let ?ex = "metered env ex" and ?s = "scoped_session sid name (pa_ID node)"
  show thesis
  proof (cases "pa_Ref node = [] \<or> GetForTenant (pa_Ref node) (ex_tenant ex) (en_Registry (ru_Engine ru)) = None")
    case True
    then show thesis using assms stopped by (auto simp: invokeNode_def Let_def split: if_splits)
  next
    case False
    obtain d m where a: "AdmitNode env (ex_tenant ex) (ru_meter ru) = (d, m)" by fastforce
    show thesis
    proof (cases d)
      case (Some d')
      then show thesis using assms denied [of d'] False a by (auto simp: invokeNode_def Let_def admit_metered)
    next
      case None
      define req where "req = simple_request (pa_Ref node) ?s [user_message input]"
      obtain r e' where p: "ProcessRequestContext (ex_envs ex (ru_calls ru)) (ex_tenant ex) req (ru_Engine ru) = (r, e')" by fastforce
      show thesis
      proof (cases r)
        case (Inl err)
        then show thesis using assms failed False a None p by (auto simp: invokeNode_def Let_def admit_metered req_def)
      next
        case (Inr resp)
        define n where "n = \<lparr>ni_TenantID = ex_tenant ex, ni_PipelineName = name, ni_NodeID = pa_ID node, ni_AgentName = pa_Ref node,
          ni_SessionID = ?s, ni_Protocol = [], ni_Input = input, ni_Response = Some resp, ni_Err = None\<rparr>"
        have "ru' = charge_node ?ex n (record_node ?ex name node ?s input (Some resp) None
            (ru\<lparr>ru_meter := m, ru_Engine := e', ru_calls := Suc (ru_calls ru)\<rparr>))"
          using assms False a None p Inr by (auto simp: invokeNode_def Let_def admit_metered req_def n_def)
        then show thesis using completed [of m n] a None by (simp add: charge_metered record_node_cost n_def node_cost_def)
      qed
    qed
  qed
qed

lemma CheckSpend_frame:
  assumes "CheckSpend now ok now' t e l = (b, e')"
  shows "qe_buckets e' = qe_buckets e" "Effective t' e' = Effective t' e" "qe_spendBackend e' = qe_spendBackend e"
  using assms
  by (auto simp: CheckSpend_def currentSpend_def cached_spend_def refresh_spend_def counterForMonthLocked_def put_counter_def Let_def
      split: if_splits prod.splits option.splits)

lemma AddSpend_frame:
  assumes "AddSpend now out now' t usd (e, l) = (e', l')"
  shows "qe_buckets e' = qe_buckets e" "Effective t' e' = Effective t' e" "qe_spendBackend e' = qe_spendBackend e"
  using assms
  by (auto simp: AddSpend_def claim_spend_def settle_spend_def accrue_local_def counterForMonthLocked_def put_counter_def Let_def
      split: if_splits prod.splits option.splits)

lemma ChargeNode_frame:
  "qe_buckets (mt_enf (ChargeNode env n ms)) = qe_buckets (mt_enf ms)"
  "Effective t (mt_enf (ChargeNode env n ms)) = Effective t (mt_enf ms)"
  "mt_tick ms \<le> mt_tick (ChargeNode env n ms)"
  by (auto simp: ChargeNode_def meter_AddSpend_def Let_def AddSpend_frame split: option.splits prod.splits)

lemma AdmitNode_rate:
  assumes "AdmitNode env t ms = (d, ms')" "t \<noteq> []"
  obtains ok e1 where "rate_attempt t (me_clock env (mt_tick ms)) (mt_enf ms) = (ok, e1)" "\<forall>now. same_rate t now e1 (mt_enf ms')"
    "d = None \<longrightarrow> ok" "mt_tick ms \<le> mt_tick ms'"
proof -
  obtain ok retry e1 where a: "AllowRequest (me_clock env (mt_tick ms)) t (mt_enf ms) = ((ok, retry), e1)" by (metis prod.exhaust)
  show thesis
  proof (rule that [of ok e1])
    show "rate_attempt t (me_clock env (mt_tick ms)) (mt_enf ms) = (ok, e1)" by (simp add: rate_attempt_def a)
  qed (use assms a in \<open>auto simp: AdmitNode_def meter_AllowRequest_def meter_CheckSpend_def same_rate_def Let_def CheckSpend_frame
      split: prod.splits bool.splits\<close>)
qed

definition rate_inv :: "meter_env \<Rightarrow> string \<Rightarrow> instant \<Rightarrow> enforcer \<Rightarrow> nat \<Rightarrow> ('t, meter_state) run \<Rightarrow> bool" where
  "rate_inv env t t0 e calls ru \<longleftrightarrow> mono (me_clock env) \<and> t \<noteq> [] \<and>
     (\<exists>n t1. admitted (same_rate t) (rate_attempt t) t0 e n t1 (mt_enf (ru_meter ru))
        \<and> t1 \<le> me_clock env (mt_tick (ru_meter ru)) \<and> ru_calls ru \<le> calls + n)"

lemma rate_inv_step:
  assumes inv: "rate_inv env t t0 e calls ru"
    and "AdmitNode env t (ru_meter ru) = (d, m)" "\<And>now. same_rate t now (mt_enf m) (mt_enf (ru_meter ru'))"
    and "mt_tick m \<le> mt_tick (ru_meter ru')" "ru_calls ru' \<le> ru_calls ru + of_bool (d = None)"
  shows "rate_inv env t t0 e calls ru'"
proof -
  let ?now = "me_clock env (mt_tick (ru_meter ru))"
  obtain n t1 where run: "mono (me_clock env)" "t \<noteq> []" "admitted (same_rate t) (rate_attempt t) t0 e n t1 (mt_enf (ru_meter ru))"
    "t1 \<le> ?now" "ru_calls ru \<le> calls + n"
    using inv by (auto simp: rate_inv_def)
  obtain ok e1 where a: "rate_attempt t ?now (mt_enf (ru_meter ru)) = (ok, e1)" "\<forall>now. same_rate t now e1 (mt_enf m)" "d = None \<longrightarrow> ok"
    "mt_tick (ru_meter ru) \<le> mt_tick m"
    by (rule AdmitNode_rate [OF assms(2) run(2)])
  have "admitted (same_rate t) (rate_attempt t) t0 e (n + of_bool ok) ?now (mt_enf (ru_meter ru'))"
    using admitted.request [where attempt = "rate_attempt t", OF run(3,4) a(1)] a(2) assms(3) by (meson admitted.other order_refl)
  moreover have "?now \<le> me_clock env (mt_tick (ru_meter ru'))" using run(1) a(4) assms(4) by (auto intro: monoD)
  moreover have "ru_calls ru' \<le> calls + (n + of_bool ok)" using assms(5) run(5) a(3) by (cases "d = None") auto
  ultimately show ?thesis using run(1,2) unfolding rate_inv_def by blast
qed

interpretation rate: run_invariant "invokeNode (metered env ex) name sid" "rate_inv env (ex_tenant ex) t0 e calls"
  for env ex name sid t0 e calls
proof
  fix ru node input x ru'
  assume inv: "rate_inv env (ex_tenant ex) t0 e calls ru" and i: "invokeNode (metered env ex) name sid node input ru = (x, ru')"
  have refl: "same_rate t now a a" for t now a by (simp add: same_rate_def)
  from i show "rate_inv env (ex_tenant ex) t0 e calls ru'"
  proof (cases rule: invokeNode_metered)
    case stopped
    then show ?thesis using inv by (simp add: rate_inv_def)
  next
    case (denied d)
    then show ?thesis using rate_inv_step [OF inv denied(1) refl] by simp
  next
    case failed
    then show ?thesis using rate_inv_step [OF inv failed(1) refl] by simp
  next
    case (completed m n)
    show ?thesis
      by (rule rate_inv_step [OF inv completed(1)]) (use completed ChargeNode_frame in \<open>simp_all add: same_rate_def\<close>)
  qed
qed

text \<open>
  C10. A pipeline cannot outrun its tenant's rate limit. In any topology and under any schedule, the number of
  nodes of a metered run that reach the engine is at most the capacity of the tenant's bucket plus the rate
  times the duration of the run.
\<close>
theorem pipeline_rate_bound:
  assumes "RunContext (metered env ex) sched newRunID d userMsg sessionID ru = Some (x, ru')"
    and "mono (me_clock env)" "t0 = me_clock env (mt_tick (ru_meter ru))" "t1 = me_clock env (mt_tick (ru_meter ru'))"
    and "rate_ready (ex_tenant ex) cfg t0 (mt_enf (ru_meter ru))"
  shows "of_nat (ru_calls ru' - ru_calls ru) \<le> capacityFor cfg + qc_RatePerSec cfg * seconds (t1 - t0)"
proof -
  let ?t = "ex_tenant ex" and ?e = "mt_enf (ru_meter ru)"
  have "rate_inv env ?t t0 ?e (ru_calls ru) ru"
    using assms(2,3,5) admitted.start [of "same_rate ?t" "rate_attempt ?t" t0 ?e] by (auto simp: rate_inv_def rate_ready_def)
  then have "rate_inv env ?t t0 ?e (ru_calls ru) ru'"
    using RunContext_keeps [OF rate.run_invariant_axioms _ assms(1)] by blast
  then obtain n u where run: "admitted (same_rate ?t) (rate_attempt ?t) t0 ?e n u (mt_enf (ru_meter ru'))" "u \<le> t1"
    "ru_calls ru' \<le> ru_calls ru + n"
    using assms(4) by (auto simp: rate_inv_def)
  have "of_nat (ru_calls ru' - ru_calls ru) \<le> (of_nat n :: rat)" using run(3) by simp
  also have "\<dots> \<le> capacityFor cfg + rate_per_ns cfg * of_int (u - t0)"
    using admitted_capacity [OF run(1) assms(5)] .
  also have "\<dots> \<le> capacityFor cfg + qc_RatePerSec cfg * seconds (t1 - t0)"
    using run(2) assms(5) by (simp add: seconds_def rate_ready_def divide_right_mono mult_left_mono)
  finally show ?thesis .
qed

section \<open>Charges\<close>

text \<open>
  What a tenant has spent in a month, as this process can account for it: with a shared ledger its row and
  what is held back after failed writes, without one the local counter.
\<close>

definition spent :: "string \<Rightarrow> enforcer \<Rightarrow> ledger \<Rightarrow> string \<Rightarrow> rat" where
  "spent month e l t = (if qe_spendBackend e then ledger_total l t month + unsynced month e t else counted month e t)"

lemma CheckSpend_spent:
  assumes "CheckSpend now ok now' t e l = (b, e')"
  shows "spent (monthKey now) e' = spent (monthKey now) e"
proof (cases "qe_spendBackend e")
  case True
  obtain v e1 where c: "cached_spend now t (monthKey now) e = (v, e1)" by fastforce
  obtain w e2 where r: "refresh_spend now' t (monthKey now) (ledger_GetSpend ok t (monthKey now) l) e1 = (w, e2)" by fastforce
  have "e' \<in> {e, e1, e2}" using assms c r by (cases v) (auto simp: CheckSpend_def currentSpend_def split: if_splits)
  then show ?thesis
    using True CheckSpend_frame(3) [OF assms] cached_counters(1) [OF c] refresh_counters(1) [OF r] by (auto simp: spent_def fun_eq_iff)
next
  case False
  then obtain v e1 where c: "cached_spend now t (monthKey now) e = (Some v, e1)"
    by (cases "counterForMonthLocked t (monthKey now) e") (simp add: cached_spend_def)
  then have "e' \<in> {e, e1}" using assms by (auto simp: CheckSpend_def currentSpend_def split: if_splits)
  then show ?thesis using False CheckSpend_frame(3) [OF assms] cached_counters(2) [OF c] by (auto simp: spent_def fun_eq_iff)
qed

lemma AllowRequest_spend:
  assumes "AllowRequest now t e = (x, e')"
  shows "qe_spendCache e' = qe_spendCache e" "qe_spendBackend e' = qe_spendBackend e"
  using assms by (auto simp: AllowRequest_def Let_def split: if_splits)

lemma AddSpend_spent:
  assumes "AddSpend now out now' t usd (e, l) = (e', l')" "t \<noteq> []" "0 < usd" "out \<noteq> ReplyLost"
  shows "spent (monthKey now) e' l' t = spent (monthKey now) e l t + usd"
proof (cases "qe_spendBackend e")
  case True
  let ?m = "monthKey now"
  obtain pending e1 where c: "claim_spend t ?m e = (pending, e1)" by fastforce
  obtain tot l1 where b: "ledger_AddSpend out t ?m (usd + pending) l = (tot, l1)" by fastforce
  have e': "e' = settle_spend now' t ?m usd pending tot e1" "l' = l1" "qe_spendBackend e'"
    using assms(1-3) True c b AddSpend_frame(3) [OF assms(1)] by (auto simp: AddSpend_def Let_def)
  show ?thesis
    using claim_counters [OF c] settle_counters(1) [of ?m now' t usd pending tot e1] AddSpend_ledger(1) [OF b, of t] AddSpend_ledger(2) [OF b] True e' assms(4)
    by (cases out) (simp_all add: spent_def)
next
  case False
  then show ?thesis using assms AddSpend_frame(3) [OF assms(1)]
    by (auto simp: spent_def AddSpend_def accrue_local_def counterForMonthLocked_def put_counter_def counted_def Let_def)
qed

definition meter_spent :: "string \<Rightarrow> meter_state \<Rightarrow> string \<Rightarrow> rat" where
  "meter_spent month ms = spent month (mt_enf ms) (mt_ledger ms)"

lemma AdmitNode_spent:
  assumes "AdmitNode env t ms = (d, ms')" "\<forall>n. monthKey (me_clock env n) = month"
  shows "meter_spent month ms' = meter_spent month ms"
proof -
  let ?n = "mt_tick ms"
  obtain ok retry e1 where a: "AllowRequest (me_clock env ?n) t (mt_enf ms) = ((ok, retry), e1)" by (metis prod.exhaust)
  obtain b e2 where c: "CheckSpend (me_clock env (Suc ?n)) (me_reads env (Suc ?n)) (me_clock env (Suc (Suc ?n))) t e1 (mt_ledger ms) = (b, e2)"
    by fastforce
  have e1: "spent month e1 = spent month (mt_enf ms)"
    using AllowRequest_spend(2) [OF a] same_cache_counters [OF AllowRequest_spend(1) [OF a], of month] by (simp add: spent_def fun_eq_iff)
  have e2: "spent month e2 = spent month e1" using CheckSpend_spent [OF c] assms(2) by simp
  have "mt_enf ms' \<in> {mt_enf ms, e1, e2}" "mt_ledger ms' = mt_ledger ms"
    using assms(1) a c by (auto simp: AdmitNode_def meter_AllowRequest_def meter_CheckSpend_def Let_def split: if_splits bool.splits)
  then show ?thesis using e1 e2 by (auto simp: meter_spent_def)
qed

lemma ChargeNode_spent:
  assumes "me_prices env = Some prices" "ni_TenantID n = t" "t \<noteq> []" "ni_Response n \<noteq> None"
    and "\<forall>n. monthKey (me_clock env n) = month" "\<forall>n. me_writes env n \<noteq> ReplyLost"
  shows "meter_spent month (ChargeNode env n ms) t = meter_spent month ms t + max 0 (node_cost prices n)"
proof (cases "0 < node_cost prices n")
  case True
  obtain e' l' where s: "AddSpend (me_clock env (mt_tick ms)) (me_writes env (mt_tick ms)) (me_clock env (Suc (mt_tick ms)))
      t (node_cost prices n) (mt_enf ms, mt_ledger ms) = (e', l')" by fastforce
  have "ChargeNode env n ms = ms\<lparr>mt_enf := e', mt_ledger := l', mt_tick := mt_tick ms + 2\<rparr>"
    using True s assms(1-4) by (auto simp: ChargeNode_def meter_AddSpend_def Let_def)
  then show ?thesis using AddSpend_spent [OF s assms(3) True] True assms(5,6) by (simp add: meter_spent_def)
next
  case False
  then show ?thesis using assms by (simp add: ChargeNode_def split: if_splits)
qed

definition charge_inv :: "meter_env \<Rightarrow> price_table \<Rightarrow> bool \<Rightarrow> string \<Rightarrow> string \<Rightarrow> rat \<Rightarrow> ('t, meter_state) run \<Rightarrow> bool" where
  "charge_inv env prices records month t base ru \<longleftrightarrow> records \<and> t \<noteq> [] \<and> me_prices env = Some prices
     \<and> (\<forall>n. monthKey (me_clock env n) = month) \<and> (\<forall>n. me_writes env n \<noteq> ReplyLost)
     \<and> meter_spent month (ru_meter ru) t = base + logged_cost prices ru"

interpretation charge: run_invariant "invokeNode (metered env ex) name sid" "charge_inv env prices (ex_records ex) month (ex_tenant ex) base"
  for env ex name sid prices month base
proof
  fix ru node input x ru'
  assume inv: "charge_inv env prices (ex_records ex) month (ex_tenant ex) base ru"
    and i: "invokeNode (metered env ex) name sid node input ru = (x, ru')"
  note inv' = inv [unfolded charge_inv_def]
  have admit: "meter_spent month m = meter_spent month (ru_meter ru)"
    if "AdmitNode env (ex_tenant ex) (ru_meter ru) = (d, m)" for d m
    using AdmitNode_spent [OF that] inv' by blast
  from i show "charge_inv env prices (ex_records ex) month (ex_tenant ex) base ru'"
  proof (cases rule: invokeNode_metered)
    case stopped
    then show ?thesis using inv by (simp add: charge_inv_def)
  next
    case (denied d)
    then show ?thesis using inv admit [OF denied(1)] by (simp add: charge_inv_def)
  next
    case failed
    then show ?thesis using inv admit [OF failed(1)] by (simp add: charge_inv_def)
  next
    case (completed m n)
    have "meter_spent month (ChargeNode env n m) (ex_tenant ex) = meter_spent month m (ex_tenant ex) + max 0 (node_cost prices n)"
      by (rule ChargeNode_spent) (use inv' completed(4,5) in simp_all)
    then show ?thesis using inv' admit [OF completed(1)] completed by (simp add: charge_inv_def)
  qed
qed

text \<open>
  C11. What a pipeline run charges is what its record shows. A recorded, metered run that stays within one
  month, and to which no reply of the ledger is lost, raises the tenant's spend by exactly the estimated
  cost of the interactions it recorded, failed nodes costing nothing. With the shared ledger, as the
  server is set up, the spend is the ledger's row together with what is held back after rejected writes;
  without one it is the local counter.
\<close>
theorem pipeline_charges_recorded_cost:
  assumes "RunContext (metered env ex) sched newRunID d userMsg sessionID ru = Some (x, ru')"
    and "ex_records ex" "ex_tenant ex \<noteq> []" "me_prices env = Some prices"
    and "\<forall>n. monthKey (me_clock env n) = month" "\<forall>n. me_writes env n \<noteq> ReplyLost"
  shows "meter_spent month (ru_meter ru') (ex_tenant ex) - meter_spent month (ru_meter ru) (ex_tenant ex)
    = logged_cost prices ru' - logged_cost prices ru"
proof -
  define base where "base = meter_spent month (ru_meter ru) (ex_tenant ex) - logged_cost prices ru"
  have "charge_inv env prices (ex_records ex) month (ex_tenant ex) base ru" using assms by (simp add: charge_inv_def base_def)
  then have "charge_inv env prices (ex_records ex) month (ex_tenant ex) base ru'"
    using RunContext_keeps [OF charge.run_invariant_axioms _ assms(1)] by blast
  then show ?thesis by (simp add: charge_inv_def base_def)
qed

text \<open>
  C12. A pipeline node passes the same gate as a direct call. On a metered path the HTTP middleware lets a
  request through exactly when \<open>AdmitNode\<close> admits a node, changes the enforcer alike, and answers a refused
  request as \<open>writeQuotaDenial\<close> renders the node's denial.
\<close>
theorem QuotaEnforce_as_AdmitNode:
  "isQuotaPath path \<Longrightarrow> QuotaEnforce (Some env) path tenantID next (ms, s) =
     (case AdmitNode env tenantID ms of
        (None, ms') \<Rightarrow> next (ms', s)
      | (Some d, ms') \<Rightarrow> (writeQuotaDenial d, ms', s))"
  by (auto simp: QuotaEnforce_def AdmitNode_def writeQuotaDenial_def split: prod.splits bool.splits)

definition sample_meter_env :: meter_env where
  "sample_meter_env = \<lparr>me_clock = (\<lambda>_. 0), me_reads = (\<lambda>_. True), me_writes = (\<lambda>_. Committed),
     me_prices = Some \<lparr>pt_prices = Map.empty, pt_Fallback = priced ''any'' 1 1\<rparr>\<rparr>"

definition sample_tenant_executor :: "(string, meter_state) executor" where
  "sample_tenant_executor = \<lparr>ex_envs = (\<lambda>_. sample_env), ex_tenant = ''t1'', ex_Meter = None, ex_records = True\<rparr>"

definition sample_tenant_run :: "(string, meter_state) run" where
  "sample_tenant_run = \<lparr>ru_Engine = sample_engine, ru_meter = \<lparr>mt_enf = sample_quota, mt_ledger = Map.empty, mt_tick = 0\<rparr>,
     ru_log = [], ru_calls = 0\<rparr>"

definition sample_pipeline :: pipeline_definition where
  "sample_pipeline = (sample_graph [])\<lparr>pd_Spec := \<lparr>ps_Topology = TopologySequential, ps_Agents = [\<lparr>pa_ID = ''n1'', pa_Ref = ''b''\<rparr>, \<lparr>pa_ID = ''n2'', pa_Ref = ''b''\<rparr>], ps_Edges = []\<rparr>\<rparr>"

definition sample_metered :: "((pipeline_result option \<times> pipeline_error option) \<times> (string, meter_state) run) option" where
  "sample_metered = RunContext (metered sample_meter_env sample_tenant_executor) [] ''run-1'' (Some sample_pipeline) ''hi'' [] sample_tenant_run"

lemma sample_metered_returns: "\<exists>x ru'. sample_metered = Some (x, ru')"
  by (simp add: sample_metered_def RunContext_def sample_pipeline_def Let_def split: prod.split)

theorem pipeline_rate_bound_witness:
  "\<exists>x ru'. sample_metered = Some (x, ru') \<and> ru_calls ru' \<le> 1"
proof -
  obtain x ru' where r: "sample_metered = Some (x, ru')" using sample_metered_returns by blast
  have ready: "rate_ready (ex_tenant sample_tenant_executor) (qe_defaults sample_quota) (me_clock sample_meter_env (mt_tick (ru_meter sample_tenant_run)))
      (mt_enf (ru_meter sample_tenant_run))"
    by (simp add: sample_tenant_executor_def sample_tenant_run_def sample_meter_env_def sample_quota_def NewEnforcer_def rate_ready_def Effective_def)
  have "mono (me_clock sample_meter_env)" by (simp add: sample_meter_env_def mono_def)
  then have "ru_calls ru' \<le> 1"
    using pipeline_rate_bound [OF r [unfolded sample_metered_def] _ refl refl ready]
    by (simp add: sample_meter_env_def sample_tenant_run_def seconds_def sample_quota_def NewEnforcer_def capacityFor_def)
  then show ?thesis using r by blast
qed

definition sample_ledger_run :: "(string, meter_state) run" where
  "sample_ledger_run = sample_tenant_run\<lparr>ru_meter := \<lparr>mt_enf = SetSpendBackend True sample_quota, mt_ledger = Map.empty, mt_tick = 0\<rparr>\<rparr>"

theorem pipeline_charges_recorded_cost_witness:
  "\<exists>x ru'. RunContext (metered sample_meter_env sample_tenant_executor) [] ''run-1'' (Some sample_pipeline) ''hi'' [] sample_ledger_run = Some (x, ru')
    \<and> meter_spent (monthKey 0) (ru_meter ru') ''t1'' = logged_cost \<lparr>pt_prices = Map.empty, pt_Fallback = priced ''any'' 1 1\<rparr> ru'"
proof -
  have "\<exists>x ru'. RunContext (metered sample_meter_env sample_tenant_executor) [] ''run-1'' (Some sample_pipeline) ''hi'' [] sample_ledger_run = Some (x, ru')"
    by (simp add: RunContext_def sample_pipeline_def Let_def split: prod.split)
  then obtain x ru' where r: "RunContext (metered sample_meter_env sample_tenant_executor) [] ''run-1'' (Some sample_pipeline) ''hi'' [] sample_ledger_run = Some (x, ru')"
    by blast
  have "meter_spent (monthKey 0) (ru_meter ru') ''t1'' = logged_cost \<lparr>pt_prices = Map.empty, pt_Fallback = priced ''any'' 1 1\<rparr> ru'"
    using pipeline_charges_recorded_cost [OF r, of _ "monthKey 0"]
    by (simp add: sample_meter_env_def sample_ledger_run_def sample_tenant_run_def sample_tenant_executor_def sample_quota_def NewEnforcer_def
        SetSpendBackend_def meter_spent_def spent_def ledger_total_def unsynced_def counter_for_month_def logged_cost_def)
  then show ?thesis using r by blast
qed

theorem QuotaEnforce_as_AdmitNode_witness:
  "QuotaEnforce (Some sample_meter_env) ''/v1/messages'' ''t1'' (\<lambda>st. (quota_reply 200 None [], st))
      (\<lparr>mt_enf = sample_drained, mt_ledger = Map.empty, mt_tick = 0\<rparr>, ()) =
    (case AdmitNode sample_meter_env ''t1'' \<lparr>mt_enf = sample_drained, mt_ledger = Map.empty, mt_tick = 0\<rparr> of
       (None, ms') \<Rightarrow> (quota_reply 200 None [], ms', ()) | (Some d, ms') \<Rightarrow> (writeQuotaDenial d, ms', ()))"
  by (rule QuotaEnforce_as_AdmitNode) (simp add: isQuotaPath_def isLLMProviderPath_def)

end
