(* ===== verification/Tenancy_Types.thy ===== *)
theory Tenancy_Types
  imports Response_Generator Quota
begin

text \<open>
  Roles, principals and credentials of the multi-tenant mode (\<^verbatim>\<open>internal/tenancy/types.go\<close>, the key helpers at
  the end of \<^verbatim>\<open>internal/tenancy/store.go\<close>, and \<^verbatim>\<open>internal/tenancy/sessions.go\<close>). A read of the system's random
  source is a parameter: the bytes it delivered, or \<^const>\<open>None\<close> where it failed. SHA-256 is a parameter too.
\<close>

section \<open>Roles\<close>

type_synonym role = string

abbreviation RoleViewer :: role where "RoleViewer \<equiv> ''viewer''"
abbreviation RoleEditor :: role where "RoleEditor \<equiv> ''editor''"
abbreviation RoleAdmin :: role where "RoleAdmin \<equiv> ''admin''"
abbreviation RolePlatform :: role where "RolePlatform \<equiv> ''platform''"

definition role_rank :: "role \<Rightarrow> int" where
  "role_rank r =
     (if r = RoleViewer then 1 else if r = RoleEditor then 2 else if r = RoleAdmin then 3
      else if r = RolePlatform then 4 else - 1)"

definition AtLeast :: "role \<Rightarrow> role \<Rightarrow> bool" where
  "AtLeast r required \<longleftrightarrow> role_rank r \<ge> role_rank required \<and> role_rank required > 0"

definition IsValid :: "role \<Rightarrow> bool" where
  "IsValid r \<longleftrightarrow> role_rank r > 0"

definition IsAssignableViaAPI :: "role \<Rightarrow> bool" where
  "IsAssignableViaAPI r \<longleftrightarrow> IsValid r \<and> r \<noteq> RolePlatform"

definition AllRoles :: "role list" where
  "AllRoles = [RoleViewer, RoleEditor, RoleAdmin, RolePlatform]"

lemma IsValid_iff: "IsValid r \<longleftrightarrow> r \<in> set AllRoles"
  by (auto simp: IsValid_def role_rank_def AllRoles_def)

lemma AtLeast_trans: "AtLeast r s \<Longrightarrow> AtLeast s t \<Longrightarrow> AtLeast r t"
  by (auto simp: AtLeast_def)

lemma AtLeast_platform: "AtLeast r RolePlatform \<longleftrightarrow> r = RolePlatform"
  by (simp add: AtLeast_def role_rank_def)

text \<open>An unknown role neither passes a check nor can be required.\<close>

lemma AtLeast_valid: "AtLeast r s \<Longrightarrow> IsValid r \<and> IsValid s"
  by (auto simp: AtLeast_def IsValid_def)

section \<open>Data\<close>

record tenant =
  tn_ID :: string
  tn_Name :: string
  tn_CreatedAt :: instant

record api_key =
  ak_ID :: string
  ak_TenantID :: string
  ak_Name :: string
  ak_Prefix :: string
  ak_Role :: role
  ak_CreatedAt :: instant
  ak_LastUsed :: "instant option"

record new_api_key =
  nk_Key :: api_key
  nk_Plaintext :: string

record principal =
  pl_TenantID :: string
  pl_KeyID :: string
  pl_Role :: role
  pl_CredentialVersion :: int

record sso_user =
  us_ID :: string
  us_Email :: string
  us_TenantID :: string
  us_Role :: role
  us_CreatedAt :: instant

record sso_session =
  ss_UserID :: string
  ss_TenantID :: string
  ss_Role :: role
  ss_CreatedAt :: instant
  ss_ExpiresAt :: instant

text \<open>The errors a caller can tell apart; every other failure of a statement or of the random source is \<open>ErrStore\<close>.\<close>

datatype tenancy_error =
    ErrNotFound
  | ErrConflict
  | ErrForbidden
  | ErrInvalidKey
  | ErrInvalidSession
  | ErrInvalidRole role
  | ErrRequired string
  | ErrPresetKey string
  | ErrStore

definition authorizeKeyTarget :: "principal option \<Rightarrow> string \<Rightarrow> role \<Rightarrow> bool" where
  "authorizeKeyTarget actor tenantID target =
     (case actor of
        None \<Rightarrow> True
      | Some p \<Rightarrow> pl_Role p = RolePlatform \<or> \<not> (pl_TenantID p \<noteq> tenantID \<or> target = RolePlatform))"

section \<open>Keys and tokens\<close>

definition b64_char :: "nat \<Rightarrow> char" where
  "b64_char n = ''ABCDEFGHIJKLMNOPQRSTUVWXYZabcdefghijklmnopqrstuvwxyz0123456789-_'' ! n"

text \<open>\<^verbatim>\<open>base64.RawURLEncoding.EncodeToString\<close>: no padding.\<close>

fun base64_RawURL :: "8 word list \<Rightarrow> string" where
  "base64_RawURL [] = []"
| "base64_RawURL [a] = [b64_char (unat a div 4), b64_char (unat a mod 4 * 16)]"
| "base64_RawURL [a, b] =
     [b64_char (unat a div 4), b64_char (unat a mod 4 * 16 + unat b div 16), b64_char (unat b mod 16 * 4)]"
| "base64_RawURL (a # b # c # bs) =
     [b64_char (unat a div 4), b64_char (unat a mod 4 * 16 + unat b div 16),
      b64_char (unat b mod 16 * 4 + unat c div 64), b64_char (unat c mod 64)] @ base64_RawURL bs"

definition randID :: "string \<Rightarrow> 8 word list option \<Rightarrow> string option" where
  "randID pfx rnd = map_option (\<lambda>b. pfx @ ''_'' @ hex_Encode b) rnd"

definition generateAPIKey :: "8 word list option \<Rightarrow> 8 word list option \<Rightarrow> (string \<times> string) option" where
  "generateAPIKey pfxBytes secret =
     (case pfxBytes of
        None \<Rightarrow> None
      | Some p \<Rightarrow>
          let pfx = ''mak_'' @ hex_Encode p in
          (case secret of
             None \<Rightarrow> None
           | Some s \<Rightarrow> Some (pfx @ ''_'' @ base64_RawURL s, pfx)))"

definition apiKeyPrefixLen :: nat where
  "apiKeyPrefixLen = 12"

text \<open>The shape test that \<^verbatim>\<open>Resolve\<close> and \<^verbatim>\<open>ValidatePresetAPIKey\<close> both start with.\<close>

definition key_shape :: "string \<Rightarrow> bool" where
  "key_shape s \<longleftrightarrow> \<not> (length s \<le> apiKeyPrefixLen \<or> take 4 s \<noteq> ''mak_'' \<or> s ! apiKeyPrefixLen \<noteq> CHR ''_'')"

definition is_hex :: "char \<Rightarrow> bool" where
  "is_hex c \<longleftrightarrow> (CHR ''0'' \<le> c \<and> c \<le> CHR ''9'') \<or> (CHR ''a'' \<le> c \<and> c \<le> CHR ''f'') \<or> (CHR ''A'' \<le> c \<and> c \<le> CHR ''F'')"

text \<open>\<^verbatim>\<open>hex.DecodeString\<close> succeeds on an even number of hexadecimal digits.\<close>

definition hex_decodes :: "string \<Rightarrow> bool" where
  "hex_decodes s \<longleftrightarrow> even (length s) \<and> list_all is_hex s"

definition secret_char :: "char \<Rightarrow> bool" where
  "secret_char c \<longleftrightarrow> (CHR ''a'' \<le> c \<and> c \<le> CHR ''z'') \<or> (CHR ''A'' \<le> c \<and> c \<le> CHR ''Z'') \<or>
     (CHR ''0'' \<le> c \<and> c \<le> CHR ''9'') \<or> c = CHR ''_'' \<or> c = CHR ''-''"

definition ValidatePresetAPIKey :: "string \<Rightarrow> tenancy_error + string" where
  "ValidatePresetAPIKey plaintext =
     (if \<not> key_shape plaintext then Inl (ErrPresetKey ''form'')
      else let pfx = take apiKeyPrefixLen plaintext in
      if \<not> hex_decodes (drop 4 pfx) then Inl (ErrPresetKey ''prefix'')
      else let secret = drop (apiKeyPrefixLen + 1) plaintext in
      if length secret < 24 then Inl (ErrPresetKey ''length'')
      else if \<not> list_all secret_char secret then Inl (ErrPresetKey ''characters'')
      else Inr pfx)"

abbreviation sessionTokenPrefix :: string where
  "sessionTokenPrefix \<equiv> ''mas_''"

definition hashToken :: "(string \<Rightarrow> 8 word list) \<Rightarrow> string \<Rightarrow> string" where
  "hashToken sha256 token = hex_Encode (sha256 token)"

definition generateSessionToken :: "(string \<Rightarrow> 8 word list) \<Rightarrow> 8 word list option \<Rightarrow> (string \<times> string) option" where
  "generateSessionToken sha256 rnd =
     map_option (\<lambda>b. let token = sessionTokenPrefix @ base64_RawURL b in (token, hashToken sha256 token)) rnd"

section \<open>The shape of generated keys\<close>

lemma length_hex_Encode [simp]: "length (hex_Encode bs) = 2 * length bs"
  by (induction bs) (simp_all add: hex_Encode_def)

lemma hex_digit_is_hex: "n < 16 \<Longrightarrow> is_hex (hex_digit n)"
proof -
  have "list_all (\<lambda>n. is_hex (hex_digit n)) [0..<16]" by code_simp
  then show "n < 16 \<Longrightarrow> ?thesis" by (auto simp: list_all_iff)
qed

lemma unat_byte: "unat (b :: 8 word) < 256"
  using unsigned_less [of b] by simp

lemma hex_Encode_hex: "list_all is_hex (hex_Encode bs)"
proof -
  have "unat b div 16 < 16" for b :: "8 word" using unat_byte [of b] by simp
  then show ?thesis by (auto simp: hex_Encode_def list_all_iff hex_digit_is_hex)
qed

lemma b64_char_secret: "n < 64 \<Longrightarrow> secret_char (b64_char n)"
proof -
  have "list_all (\<lambda>n. secret_char (b64_char n)) [0..<64]" by code_simp
  then show "n < 64 \<Longrightarrow> ?thesis" by (auto simp: list_all_iff)
qed

lemma base64_RawURL_secret: "list_all secret_char (base64_RawURL bs)"
proof (induction bs rule: base64_RawURL.induct)
  case (2 a)
  then show ?case using unat_byte [of a] by (auto intro!: b64_char_secret)
next
  case (3 a b)
  then show ?case using unat_byte [of a] unat_byte [of b] by (auto intro!: b64_char_secret)
next
  case (4 a b c bs)
  then show ?case using unat_byte [of a] unat_byte [of b] unat_byte [of c] by (auto intro!: b64_char_secret)
qed simp

lemma length_base64_RawURL: "length (base64_RawURL bs) = (4 * length bs + 2) div 3"
  by (induction bs rule: base64_RawURL.induct) auto

lemma generateAPIKey_parts:
  assumes "length p = 4" "length s = 24" "generateAPIKey (Some p) (Some s) = Some (plaintext, pfx)"
  shows "take apiKeyPrefixLen plaintext = pfx" "key_shape plaintext" "ValidatePresetAPIKey plaintext = Inr pfx"
    "length plaintext = 45"
proof -
  have key: "plaintext = pfx @ ''_'' @ base64_RawURL s" "pfx = ''mak_'' @ hex_Encode p" and len: "length pfx = 12"
    using assms by (auto simp: generateAPIKey_def Let_def)
  show take: "take apiKeyPrefixLen plaintext = pfx" and shape: "key_shape plaintext"
    using len by (simp_all add: key apiKeyPrefixLen_def key_shape_def nth_append assms(1))
  have "drop 4 pfx = hex_Encode p" "drop 13 plaintext = base64_RawURL s" using assms(1) by (simp_all add: key)
  then show "ValidatePresetAPIKey plaintext = Inr pfx"
    using take shape len hex_Encode_hex base64_RawURL_secret
    by (simp add: ValidatePresetAPIKey_def hex_decodes_def apiKeyPrefixLen_def length_base64_RawURL assms(1,2) Let_def)
  show "length plaintext = 45" using assms(1,2) by (simp add: key length_base64_RawURL)
qed

text \<open>
  The floor on the secret of a preset key is below what a generated key has: a secret of 24 characters (18
  bytes) is accepted, where a generated one has 32 (24 bytes).
\<close>

lemma preset_key_weaker_than_generated:
  "ValidatePresetAPIKey (''mak_00000000_'' @ replicate 24 CHR ''a'') = Inr ''mak_00000000''"
  by code_simp

end
