(* ===== verification/Auth_Cache.thy ===== *)
theory Auth_Cache
  imports Tenancy_Types
begin

text \<open>
  The bounded cache of resolved API keys (\<^verbatim>\<open>internal/tenancy/auth_cache.go\<close>). A store without a cache has the nil
  pointer, \<^const>\<open>None\<close>. The two maps are iterated when room must be made, so they are association lists whose
  order stands for the order of the iteration. Each reading of the clock is an argument.
\<close>

record cache_entry =
  ce_principal :: principal
  ce_expiry :: instant

record auth_cache =
  ac_entries :: "(string, cache_entry) gomap"
  ac_negatives :: "(string, instant) gomap"
  ac_ttl :: duration
  ac_maxSize :: nat

type_synonym sha256 = "string \<Rightarrow> 8 word list"

definition newAuthCache :: "duration \<Rightarrow> int \<Rightarrow> auth_cache" where
  "newAuthCache ttl maxSize =
     \<lparr>ac_entries = [], ac_negatives = [], ac_ttl = (if ttl \<le> 0 then 5 * Minute else ttl),
      ac_maxSize = (if maxSize \<le> 0 then 1024 else nat maxSize)\<rparr>"

definition hashKey :: "sha256 \<Rightarrow> string \<Rightarrow> string" where
  "hashKey sha plaintext = hex_Encode (sha plaintext)"

definition authCache_Get :: "sha256 \<Rightarrow> instant \<Rightarrow> instant \<Rightarrow> string \<Rightarrow> auth_cache option \<Rightarrow> principal option \<times> auth_cache option" where
  "authCache_Get sha now now' plaintext c =
     (case c of
        None \<Rightarrow> (None, None)
      | Some ac \<Rightarrow>
          if plaintext = [] then (None, c)
          else let k = hashKey sha plaintext in
          (case gm_get (ac_entries ac) k of
             None \<Rightarrow> (None, c)
           | Some e \<Rightarrow>
               if now > ce_expiry e
               then (None, if now' > ce_expiry e then Some (ac\<lparr>ac_entries := gm_del k (ac_entries ac)\<rparr>) else c)
               else (Some (ce_principal e), c)))"

definition evictOneLocked :: "('v \<Rightarrow> instant) \<Rightarrow> instant \<Rightarrow> (string, 'v) gomap \<Rightarrow> (string, 'v) gomap" where
  "evictOneLocked expiry now m =
     (case find (\<lambda>(key, e). now > expiry e) m of
        Some (key, _) \<Rightarrow> gm_del key m
      | None \<Rightarrow> tl m)"

definition make_room :: "('v \<Rightarrow> instant) \<Rightarrow> instant \<Rightarrow> nat \<Rightarrow> string \<Rightarrow> (string, 'v) gomap \<Rightarrow> (string, 'v) gomap" where
  "make_room expiry now maxSize k m =
     (if gm_get m k = None \<and> length m \<ge> maxSize then evictOneLocked expiry now m else m)"

definition authCache_Set :: "sha256 \<Rightarrow> instant \<Rightarrow> instant \<Rightarrow> string \<Rightarrow> principal \<Rightarrow> auth_cache option \<Rightarrow> auth_cache option" where
  "authCache_Set sha now now' plaintext p c =
     (case c of
        None \<Rightarrow> None
      | Some ac \<Rightarrow>
          if plaintext = [] then c
          else let k = hashKey sha plaintext in
          Some (ac\<lparr>ac_entries := gm_put k \<lparr>ce_principal = p, ce_expiry = now' + ac_ttl ac\<rparr>
                    (make_room ce_expiry now (ac_maxSize ac) k (ac_entries ac))\<rparr>))"

definition authCache_Invalidate :: "auth_cache option \<Rightarrow> auth_cache option" where
  "authCache_Invalidate c = map_option (\<lambda>ac. ac\<lparr>ac_entries := [], ac_negatives := []\<rparr>) c"

definition authCache_Len :: "auth_cache option \<Rightarrow> nat" where
  "authCache_Len c = (case c of None \<Rightarrow> 0 | Some ac \<Rightarrow> length (ac_entries ac))"

abbreviation negativeTTL :: duration where
  "negativeTTL \<equiv> 30 * Second"

definition authCache_IsNegative :: "sha256 \<Rightarrow> instant \<Rightarrow> string \<Rightarrow> auth_cache option \<Rightarrow> bool" where
  "authCache_IsNegative sha now plaintext c =
     (case c of
        None \<Rightarrow> False
      | Some ac \<Rightarrow>
          plaintext \<noteq> [] \<and>
          (case gm_get (ac_negatives ac) (hashKey sha plaintext) of None \<Rightarrow> False | Some expiry \<Rightarrow> now < expiry))"

definition authCache_SetNegative :: "sha256 \<Rightarrow> instant \<Rightarrow> string \<Rightarrow> auth_cache option \<Rightarrow> auth_cache option" where
  "authCache_SetNegative sha now plaintext c =
     (case c of
        None \<Rightarrow> None
      | Some ac \<Rightarrow>
          if plaintext = [] then c
          else let k = hashKey sha plaintext in
          Some (ac\<lparr>ac_negatives := gm_put k (now + negativeTTL) (make_room id now (ac_maxSize ac) k (ac_negatives ac))\<rparr>))"

definition authCache_NegativeLen :: "auth_cache option \<Rightarrow> nat" where
  "authCache_NegativeLen c = (case c of None \<Rightarrow> 0 | Some ac \<Rightarrow> length (ac_negatives ac))"

section \<open>Size\<close>

definition cache_wf :: "auth_cache option \<Rightarrow> bool" where
  "cache_wf c =
     (case c of
        None \<Rightarrow> True
      | Some ac \<Rightarrow> 0 < ac_maxSize ac \<and> gm_wf (ac_entries ac) \<and> gm_wf (ac_negatives ac)
          \<and> length (ac_entries ac) \<le> ac_maxSize ac \<and> length (ac_negatives ac) \<le> ac_maxSize ac)"

lemma gm_del_subset: "set (gm_del k m) \<subseteq> set m"
  by (induction m) auto

lemma gm_wf_tl: "gm_wf m \<Longrightarrow> gm_wf (tl m)"
  by (simp add: gm_wf_def map_tl distinct_tl)

lemma evictOneLocked_wf: "gm_wf m \<Longrightarrow> gm_wf (evictOneLocked expiry now m)"
  by (auto simp: evictOneLocked_def gm_wf_tl split: option.split)

lemma evictOneLocked_subset: "set (evictOneLocked expiry now m) \<subseteq> set m"
proof (cases "find (\<lambda>(key, e). now > expiry e) m")
  case None
  then show ?thesis by (cases m) (auto simp: evictOneLocked_def)
next
  case (Some x)
  then show ?thesis using gm_del_subset [of "fst x" m] by (cases x) (simp add: evictOneLocked_def)
qed

lemma evictOneLocked_length:
  assumes "gm_wf m" "m \<noteq> []"
  shows "Suc (length (evictOneLocked expiry now m)) = length m"
proof (cases "find (\<lambda>(key, e). now > expiry e) m")
  case None
  then show ?thesis using assms(2) by (simp add: evictOneLocked_def)
next
  case (Some x)
  then have "x \<in> set m" by (metis find_Some_iff nth_mem)
  then have "gm_get m (fst x) \<noteq> None" using gm_keys_get by (metis image_eqI)
  then show ?thesis using gm_length_del_mem [OF assms(1)] Some by (cases x) (auto simp: evictOneLocked_def)
qed

lemma make_room_bound:
  assumes "gm_wf m" "0 < n" "length m \<le> n"
  shows "gm_wf (gm_put k v (make_room expiry now n k m))" "length (gm_put k v (make_room expiry now n k m)) \<le> n"
proof -
  let ?r = "make_room expiry now n k m"
  have len: "Suc (length ?r) = length m" if "gm_get m k = None" "length m \<ge> n"
    using evictOneLocked_length [OF assms(1), of expiry now] that assms(2) by (cases "m = []") (auto simp: make_room_def)
  show "gm_wf (gm_put k v ?r)" using assms(1) evictOneLocked_wf [OF assms(1)] by (intro gm_wf_put) (simp add: make_room_def)
  show "length (gm_put k v ?r) \<le> n"
  proof (cases "gm_get m k = None \<and> length m \<ge> n")
    case True
    then show ?thesis using len assms(3) by (simp add: gm_length_put)
  next
    case False
    then have "?r = m" by (auto simp: make_room_def)
    then show ?thesis using False assms(3) by (auto simp: gm_length_put)
  qed
qed

lemma newAuthCache_wf [go_inv]: "cache_wf (Some (newAuthCache ttl maxSize))"
  by (simp add: cache_wf_def newAuthCache_def)

lemma authCache_Set_wf [go_inv]: "cache_wf c \<Longrightarrow> cache_wf (authCache_Set sha now now' pt p c)"
  using make_room_bound by (auto simp: authCache_Set_def cache_wf_def Let_def split: option.splits)

lemma authCache_SetNegative_wf [go_inv]: "cache_wf c \<Longrightarrow> cache_wf (authCache_SetNegative sha now pt c)"
  using make_room_bound by (auto simp: authCache_SetNegative_def cache_wf_def Let_def split: option.splits)

lemma authCache_Invalidate_wf [go_inv]: "cache_wf c \<Longrightarrow> cache_wf (authCache_Invalidate c)"
  by (auto simp: authCache_Invalidate_def cache_wf_def split: option.splits)

lemma authCache_Get_wf [go_inv]: "cache_wf c \<Longrightarrow> authCache_Get sha now now' pt c = (r, c') \<Longrightarrow> cache_wf c'"
  by (auto simp: authCache_Get_def cache_wf_def Let_def intro: le_trans [OF gm_length_del] split: option.splits if_splits)

section \<open>Contents\<close>

text \<open>The proofs a cache holds: digests with the principal each stands for.\<close>

definition cached :: "auth_cache option \<Rightarrow> (string \<times> principal) set" where
  "cached c = (case c of None \<Rightarrow> {} | Some ac \<Rightarrow> (\<lambda>(k, e). (k, ce_principal e)) ` set (ac_entries ac))"

lemma authCache_Get_cached:
  assumes "authCache_Get sha now now' pt c = (r, c')"
  shows "cached c' \<subseteq> cached c"
proof -
  consider "c' = c" | ac where "c = Some ac" "c' = Some (ac\<lparr>ac_entries := gm_del (hashKey sha pt) (ac_entries ac)\<rparr>)"
    using assms by (auto simp: authCache_Get_def Let_def split: option.splits if_splits)
  then show ?thesis
  proof cases
    case 2
    then show ?thesis by (simp add: cached_def image_mono [OF gm_del_subset])
  qed simp
qed

lemma authCache_Get_hit:
  assumes "authCache_Get sha now now' pt c = (Some p, c')"
  shows "(hashKey sha pt, p) \<in> cached c"
  using assms by (force simp: authCache_Get_def cached_def Let_def dest: map_of_SomeD split: option.splits if_splits)

lemma make_room_subset: "set (make_room expiry now n k m) \<subseteq> set m"
  using evictOneLocked_subset [of expiry now m] by (simp add: make_room_def)

lemma gm_put_subset: "set (gm_put k v m) \<subseteq> insert (k, v) (set m)"
  by (induction m) auto

lemma authCache_Set_cached:
  "cached (authCache_Set sha now now' pt p c) \<subseteq> insert (hashKey sha pt, p) (cached c)"
proof (cases c)
  case (Some ac)
  let ?e = "\<lparr>ce_principal = p, ce_expiry = now' + ac_ttl ac\<rparr>"
  have "set (gm_put k ?e (make_room ce_expiry now n k (ac_entries ac))) \<subseteq> insert (k, ?e) (set (ac_entries ac))" for k n
    by (rule order_trans [OF gm_put_subset]) (use make_room_subset in blast)
  from image_mono [OF this [of "hashKey sha pt" "ac_maxSize ac"], of "\<lambda>(k, e). (k, ce_principal e)"]
  show ?thesis using Some by (auto simp: authCache_Set_def cached_def Let_def)
qed (simp add: authCache_Set_def cached_def)

lemma authCache_SetNegative_cached [simp]: "cached (authCache_SetNegative sha now pt c) = cached c"
  by (auto simp: authCache_SetNegative_def cached_def Let_def split: option.splits)

lemma authCache_Invalidate_cached [simp]: "cached (authCache_Invalidate c) = {}"
  by (auto simp: authCache_Invalidate_def cached_def split: option.splits)

lemma authCache_SetNegative_IsNegative:
  assumes "c \<noteq> None" "pt \<noteq> []"
  shows "authCache_IsNegative sha t pt (authCache_SetNegative sha now pt c) \<longleftrightarrow> t < now + negativeTTL"
  using assms by (auto simp: authCache_SetNegative_def authCache_IsNegative_def Let_def)

end
