(* ===== verification/Tenancy_Store.thy ===== *)
theory Tenancy_Store
  imports Auth_Cache "HOL-Library.Product_Lexorder"
begin

text \<open>
  The tenancy store (\<^verbatim>\<open>internal/tenancy/store.go\<close>, \<^verbatim>\<open>internal/tenancy/identity_sqlite.go\<close>): the tables of the SQLite
  database and the operations on them. The one open connection makes a statement, and a transaction, an atomic
  step; the operations that read, hash and then write are given by the phases between which another request may
  run, and by their composition.

  The flag \<open>ok\<close> of an operation tells whether its statements succeed: where one fails the transaction is rolled
  back and the call returns \<open>ErrStore\<close>. The functions of bcrypt are parameters: \<open>gen\<close> hashes a secret (with the
  salt it drew) and may refuse it, \<open>compare\<close> checks a secret against a hash. An instant is written to a column in
  whole seconds (\<open>rfc3339\<close>).
\<close>

section \<open>Tables\<close>

record key_row =
  kr_id :: string
  kr_tenant :: string
  kr_name :: string
  kr_prefix :: string
  kr_hash :: string
  kr_role :: role
  kr_created :: instant
  kr_last_used :: "instant option"
  kr_version :: int

record tenancy_db =
  db_tenants :: "tenant list"
  db_keys :: "key_row list"
  db_users :: "sso_user list"
  db_sessions :: "(string \<times> sso_session) list"
  db_quotas :: "string \<rightharpoonup> quota_config"
  db_spend :: ledger

record tenancy_store =
  ts_db :: tenancy_db
  ts_cache :: "auth_cache option"

definition EnableAuthCache :: "duration \<Rightarrow> int \<Rightarrow> tenancy_store \<Rightarrow> tenancy_store" where
  "EnableAuthCache ttl maxSize s = s\<lparr>ts_cache := Some (newAuthCache ttl maxSize)\<rparr>"

section \<open>Tenants\<close>

definition CreateTenant :: "bool \<Rightarrow> 8 word list option \<Rightarrow> instant \<Rightarrow> string \<Rightarrow> tenancy_store \<Rightarrow> (tenancy_error + tenant) \<times> tenancy_store" where
  "CreateTenant ok rnd now name s =
     (if name = [] then (Inl (ErrRequired ''tenant name''), s)
      else case randID ''ten'' rnd of
        None \<Rightarrow> (Inl ErrStore, s)
      | Some ident \<Rightarrow>
          let t = \<lparr>tn_ID = ident, tn_Name = name, tn_CreatedAt = now\<rparr>; db = ts_db s in
          if \<not> ok then (Inl ErrStore, s)
          else if \<exists>u \<in> set (db_tenants db). tn_ID u = ident \<or> tn_Name u = name then (Inl ErrConflict, s)
          else (Inr t, s\<lparr>ts_db := db\<lparr>db_tenants := db_tenants db @ [t\<lparr>tn_CreatedAt := rfc3339 now\<rparr>]\<rparr>\<rparr>))"

definition GetTenant :: "bool \<Rightarrow> string \<Rightarrow> tenancy_db \<Rightarrow> tenancy_error + tenant" where
  "GetTenant ok ident db =
     (if \<not> ok then Inl ErrStore
      else case find (\<lambda>t. tn_ID t = ident) (db_tenants db) of None \<Rightarrow> Inl ErrNotFound | Some t \<Rightarrow> Inr t)"

definition GetTenantByName :: "bool \<Rightarrow> string \<Rightarrow> tenancy_db \<Rightarrow> tenancy_error + tenant" where
  "GetTenantByName ok name db =
     (if \<not> ok then Inl ErrStore
      else case find (\<lambda>t. tn_Name t = name) (db_tenants db) of None \<Rightarrow> Inl ErrNotFound | Some t \<Rightarrow> Inr t)"

definition ListTenants :: "bool \<Rightarrow> tenancy_db \<Rightarrow> tenancy_error + tenant list" where
  "ListTenants ok db =
     (if \<not> ok then Inl ErrStore else Inr (sort_key (\<lambda>t. (tn_CreatedAt t, tn_ID t)) (db_tenants db)))"

text \<open>The deletion of a tenant cascades to the rows that refer to it.\<close>

definition DeleteTenant :: "bool \<Rightarrow> string \<Rightarrow> tenancy_store \<Rightarrow> (tenancy_error + unit) \<times> tenancy_store" where
  "DeleteTenant ok ident s =
     (let db = ts_db s in
      if \<not> ok then (Inl ErrStore, s)
      else if \<not> (\<exists>t \<in> set (db_tenants db). tn_ID t = ident) then (Inl ErrNotFound, s)
      else let gone = map us_ID (filter (\<lambda>u. us_TenantID u = ident) (db_users db)) in
        (Inr (), \<lparr>ts_db = db\<lparr>db_tenants := filter (\<lambda>t. tn_ID t \<noteq> ident) (db_tenants db),
                            db_keys := filter (\<lambda>k. kr_tenant k \<noteq> ident) (db_keys db),
                            db_users := filter (\<lambda>u. us_TenantID u \<noteq> ident) (db_users db),
                            db_sessions := filter (\<lambda>(_, x). ss_UserID x \<notin> set gone) (db_sessions db),
                            db_quotas := (db_quotas db)(ident := None),
                            db_spend := (\<lambda>(t, m). if t = ident then None else db_spend db (t, m))\<rparr>,
                  ts_cache = authCache_Invalidate (ts_cache s)\<rparr>))"

section \<open>Keys\<close>

text \<open>What the random source and bcrypt deliver to a call that makes a key.\<close>

record key_draws =
  kd_prefix :: "8 word list option"
  kd_secret :: "8 word list option"
  kd_gen :: "string \<Rightarrow> string option"
  kd_id :: "8 word list option"

definition new_row :: "string \<Rightarrow> string \<Rightarrow> string \<Rightarrow> string \<Rightarrow> string \<Rightarrow> role \<Rightarrow> instant \<Rightarrow> key_row" where
  "new_row ident tenantID name pfx hash role now =
     \<lparr>kr_id = ident, kr_tenant = tenantID, kr_name = name, kr_prefix = pfx, kr_hash = hash, kr_role = role,
      kr_created = rfc3339 now, kr_last_used = None, kr_version = 1\<rparr>"

definition insert_key :: "key_row \<Rightarrow> tenancy_store \<Rightarrow> tenancy_store" where
  "insert_key row s = s\<lparr>ts_db := (ts_db s)\<lparr>db_keys := db_keys (ts_db s) @ [row]\<rparr>\<rparr>"

definition has_key :: "string \<Rightarrow> tenancy_db \<Rightarrow> bool" where
  "has_key ident db \<longleftrightarrow> (\<exists>k \<in> set (db_keys db). kr_id k = ident)"

definition CreateAPIKey ::
  "bool \<Rightarrow> key_draws \<Rightarrow> instant \<Rightarrow> string \<Rightarrow> string \<Rightarrow> role \<Rightarrow> tenancy_store \<Rightarrow> (tenancy_error + new_api_key) \<times> tenancy_store" where
  "CreateAPIKey ok d now tenantID name role s =
     (if \<not> IsValid role then (Inl (ErrInvalidRole role), s)
      else case GetTenant ok tenantID (ts_db s) of Inl e \<Rightarrow> (Inl e, s) | Inr _ \<Rightarrow>
        (case generateAPIKey (kd_prefix d) (kd_secret d) of None \<Rightarrow> (Inl ErrStore, s) | Some (plaintext, pfx) \<Rightarrow>
        (case kd_gen d plaintext of None \<Rightarrow> (Inl ErrStore, s) | Some hash \<Rightarrow>
        (case randID ''key'' (kd_id d) of None \<Rightarrow> (Inl ErrStore, s) | Some keyID \<Rightarrow>
          let key = \<lparr>ak_ID = keyID, ak_TenantID = tenantID, ak_Name = name, ak_Prefix = pfx, ak_Role = role,
                     ak_CreatedAt = now, ak_LastUsed = None\<rparr> in
          if has_key keyID (ts_db s) then (Inl ErrStore, s)
          else (Inr \<lparr>nk_Key = key, nk_Plaintext = plaintext\<rparr>, insert_key (new_row keyID tenantID name pfx hash role now) s)))))"

definition CreateAPIKeyWithPlaintext ::
  "bool \<Rightarrow> key_draws \<Rightarrow> instant \<Rightarrow> string \<Rightarrow> string \<Rightarrow> role \<Rightarrow> string \<Rightarrow> tenancy_store \<Rightarrow> (tenancy_error + api_key) \<times> tenancy_store" where
  "CreateAPIKeyWithPlaintext ok d now tenantID name role plaintext s =
     (case ValidatePresetAPIKey plaintext of Inl e \<Rightarrow> (Inl e, s) | Inr pfx \<Rightarrow>
      if \<not> IsValid role then (Inl (ErrInvalidRole role), s)
      else case GetTenant ok tenantID (ts_db s) of Inl e \<Rightarrow> (Inl e, s) | Inr _ \<Rightarrow>
        (case kd_gen d plaintext of None \<Rightarrow> (Inl ErrStore, s) | Some hash \<Rightarrow>
        (case randID ''key'' (kd_id d) of None \<Rightarrow> (Inl ErrStore, s) | Some keyID \<Rightarrow>
          let key = \<lparr>ak_ID = keyID, ak_TenantID = tenantID, ak_Name = name, ak_Prefix = pfx, ak_Role = role,
                     ak_CreatedAt = now, ak_LastUsed = None\<rparr> in
          if has_key keyID (ts_db s) then (Inl ErrStore, s)
          else (Inr key, insert_key (new_row keyID tenantID name pfx hash role now) s))))"

definition api_key_of :: "key_row \<Rightarrow> api_key" where
  "api_key_of k = \<lparr>ak_ID = kr_id k, ak_TenantID = kr_tenant k, ak_Name = kr_name k, ak_Prefix = kr_prefix k,
                   ak_Role = kr_role k, ak_CreatedAt = kr_created k, ak_LastUsed = kr_last_used k\<rparr>"

definition ListAPIKeys :: "bool \<Rightarrow> string \<Rightarrow> tenancy_db \<Rightarrow> tenancy_error + api_key list" where
  "ListAPIKeys ok tenantID db =
     (if \<not> ok then Inl ErrStore
      else Inr (map api_key_of (sort_key (\<lambda>k. (kr_created k, kr_id k)) (filter (\<lambda>k. kr_tenant k = tenantID) (db_keys db)))))"

definition find_key :: "string \<Rightarrow> string \<Rightarrow> tenancy_db \<Rightarrow> key_row option" where
  "find_key ident tenantID db = find (\<lambda>k. kr_id k = ident \<and> kr_tenant k = tenantID) (db_keys db)"

text \<open>An \<^verbatim>\<open>UPDATE\<close> of the rows that satisfy the \<^verbatim>\<open>WHERE\<close> clause, followed by the flush of the cache.\<close>

definition update_keys :: "(key_row \<Rightarrow> bool) \<Rightarrow> (key_row \<Rightarrow> key_row) \<Rightarrow> tenancy_db \<Rightarrow> tenancy_db" where
  "update_keys P f db = db\<lparr>db_keys := map (\<lambda>k. if P k then f k else k) (db_keys db)\<rparr>"

definition flushed :: "tenancy_db \<Rightarrow> tenancy_store \<Rightarrow> tenancy_store" where
  "flushed db s = \<lparr>ts_db = db, ts_cache = authCache_Invalidate (ts_cache s)\<rparr>"

definition UpdateAPIKeyRole ::
  "bool \<Rightarrow> principal option \<Rightarrow> string \<Rightarrow> string \<Rightarrow> role \<Rightarrow> tenancy_store \<Rightarrow> (tenancy_error + role \<times> role) \<times> tenancy_store" where
  "UpdateAPIKeyRole ok actor tenantID ident role s =
     (if \<not> IsValid role then (Inl (ErrInvalidRole role), s)
      else if \<not> ok then (Inl ErrStore, s)
      else case find_key ident tenantID (ts_db s) of
        None \<Rightarrow> (Inl ErrNotFound, s)
      | Some k \<Rightarrow>
          if \<not> authorizeKeyTarget actor tenantID (kr_role k) then (Inl ErrForbidden, s)
          else (Inr (kr_role k, role),
                flushed (update_keys (\<lambda>k. kr_id k = ident \<and> kr_tenant k = tenantID) (\<lambda>k. k\<lparr>kr_role := role\<rparr>) (ts_db s)) s))"

text \<open>\<^verbatim>\<open>RotateAPIKey\<close>: the row is read, a new secret is made, and a transaction swaps it in if the row did not change.\<close>

definition renewed :: "string \<Rightarrow> string \<Rightarrow> key_row \<Rightarrow> key_row" where
  "renewed newPrefix hash k = k\<lparr>kr_prefix := newPrefix, kr_hash := hash, kr_last_used := None, kr_version := kr_version k + 1\<rparr>"

definition rotate_read :: "bool \<Rightarrow> string \<Rightarrow> string \<Rightarrow> tenancy_db \<Rightarrow> tenancy_error + key_row" where
  "rotate_read ok callerTenantID ident db =
     (if \<not> ok then Inl ErrStore
      else case find_key ident callerTenantID db of None \<Rightarrow> Inl ErrNotFound | Some k \<Rightarrow> Inr k)"

definition rotate_commit ::
  "bool \<Rightarrow> principal option \<Rightarrow> string \<Rightarrow> string \<Rightarrow> key_row \<Rightarrow> string \<Rightarrow> string \<Rightarrow> tenancy_store \<Rightarrow> (tenancy_error + unit) \<times> tenancy_store" where
  "rotate_commit ok actor callerTenantID ident seen newPrefix hash s =
     (if \<not> ok then (Inl ErrStore, s)
      else case find_key ident callerTenantID (ts_db s) of
        None \<Rightarrow> (Inl ErrNotFound, s)
      | Some k \<Rightarrow>
          if \<not> authorizeKeyTarget actor (kr_tenant seen) (kr_role k) then (Inl ErrForbidden, s)
          else if kr_role k \<noteq> kr_role seen \<or> kr_version k \<noteq> kr_version seen then (Inl ErrConflict, s)
          else let P = (\<lambda>k. kr_id k = ident \<and> kr_tenant k = callerTenantID \<and> kr_prefix k = kr_prefix seen
                           \<and> kr_role k = kr_role seen \<and> kr_version k = kr_version seen) in
            if \<not> list_ex P (db_keys (ts_db s)) then (Inl ErrConflict, s)
            else (Inr (), flushed (update_keys P (renewed newPrefix hash) (ts_db s)) s))"

definition rotated_key :: "string \<Rightarrow> string \<Rightarrow> key_row \<Rightarrow> new_api_key" where
  "rotated_key newPrefix plaintext k =
     \<lparr>nk_Key = \<lparr>ak_ID = kr_id k, ak_TenantID = kr_tenant k, ak_Name = kr_name k, ak_Prefix = newPrefix, ak_Role = kr_role k,
                ak_CreatedAt = kr_created k, ak_LastUsed = None\<rparr>, nk_Plaintext = plaintext\<rparr>"

definition RotateAPIKey ::
  "bool \<Rightarrow> bool \<Rightarrow> key_draws \<Rightarrow> principal option \<Rightarrow> string \<Rightarrow> string \<Rightarrow> tenancy_store \<Rightarrow>
     (tenancy_error + new_api_key \<times> string) \<times> tenancy_store" where
  "RotateAPIKey ok ok' d actor callerTenantID ident s =
     (case rotate_read ok callerTenantID ident (ts_db s) of Inl e \<Rightarrow> (Inl e, s) | Inr k \<Rightarrow>
      (case generateAPIKey (kd_prefix d) (kd_secret d) of None \<Rightarrow> (Inl ErrStore, s) | Some (plaintext, newPrefix) \<Rightarrow>
      (case kd_gen d plaintext of None \<Rightarrow> (Inl ErrStore, s) | Some hash \<Rightarrow>
      (case rotate_commit ok' actor callerTenantID ident k newPrefix hash s of
         (Inl e, s') \<Rightarrow> (Inl e, s')
       | (Inr _, s') \<Rightarrow> (Inr (rotated_key newPrefix plaintext k, kr_prefix k), s')))))"

text \<open>
  \<^verbatim>\<open>BulkRotateTenantKeys\<close>: the keys are read and all new secrets made; one transaction checks every key and then
  updates every key, or nothing.
\<close>

record rotation =
  ro_row :: key_row
  ro_prefix :: string
  ro_plaintext :: string
  ro_hash :: string

definition bulk_read :: "string \<Rightarrow> string list \<Rightarrow> tenancy_db \<Rightarrow> key_row list" where
  "bulk_read tenantID excludeKeyIDs db =
     (let excludeSet = filter (\<lambda>kid. kid \<noteq> []) excludeKeyIDs in
      sort_key (\<lambda>k. (kr_created k, kr_id k)) (filter (\<lambda>k. kr_tenant k = tenantID \<and> kr_id k \<notin> set excludeSet) (db_keys db)))"

fun bulk_rotations :: "(nat \<Rightarrow> key_draws) \<Rightarrow> nat \<Rightarrow> key_row list \<Rightarrow> rotation list option" where
  "bulk_rotations d i [] = Some []"
| "bulk_rotations d i (k # ks) =
     (case generateAPIKey (kd_prefix (d i)) (kd_secret (d i)) of None \<Rightarrow> None | Some (plaintext, newPrefix) \<Rightarrow>
      (case kd_gen (d i) plaintext of None \<Rightarrow> None | Some hash \<Rightarrow>
         map_option (Cons \<lparr>ro_row = k, ro_prefix = newPrefix, ro_plaintext = plaintext, ro_hash = hash\<rparr>)
           (bulk_rotations d (Suc i) ks)))"

fun bulk_verify :: "principal option \<Rightarrow> string \<Rightarrow> tenancy_db \<Rightarrow> rotation list \<Rightarrow> tenancy_error option" where
  "bulk_verify actor tenantID db [] = None"
| "bulk_verify actor tenantID db (r # rs) =
     (case find_key (kr_id (ro_row r)) tenantID db of
        None \<Rightarrow> Some ErrConflict
      | Some k \<Rightarrow>
          if \<not> authorizeKeyTarget actor tenantID (kr_role k) then Some ErrForbidden
          else if kr_role k \<noteq> kr_role (ro_row r) \<or> kr_version k \<noteq> kr_version (ro_row r) then Some ErrConflict
          else bulk_verify actor tenantID db rs)"

fun bulk_apply :: "string \<Rightarrow> rotation list \<Rightarrow> tenancy_db \<Rightarrow> tenancy_db option" where
  "bulk_apply tenantID [] db = Some db"
| "bulk_apply tenantID (r # rs) db =
     (let P = (\<lambda>k. kr_id k = kr_id (ro_row r) \<and> kr_tenant k = tenantID \<and> kr_role k = kr_role (ro_row r)
                \<and> kr_version k = kr_version (ro_row r)) in
      if \<not> list_ex P (db_keys db) then None
      else bulk_apply tenantID rs (update_keys P (renewed (ro_prefix r) (ro_hash r)) db))"

definition bulk_commit ::
  "bool \<Rightarrow> principal option \<Rightarrow> string \<Rightarrow> rotation list \<Rightarrow> tenancy_store \<Rightarrow> (tenancy_error + unit) \<times> tenancy_store" where
  "bulk_commit ok actor tenantID rs s =
     (if \<not> ok then (Inl ErrStore, s)
      else case bulk_verify actor tenantID (ts_db s) rs of
        Some e \<Rightarrow> (Inl e, s)
      | None \<Rightarrow>
          (case bulk_apply tenantID rs (ts_db s) of
             None \<Rightarrow> (Inl ErrConflict, s)
           | Some db \<Rightarrow> (Inr (), flushed db s)))"

definition BulkRotateTenantKeys ::
  "bool \<Rightarrow> bool \<Rightarrow> (nat \<Rightarrow> key_draws) \<Rightarrow> principal option \<Rightarrow> string \<Rightarrow> string list \<Rightarrow> tenancy_store \<Rightarrow>
     (tenancy_error + new_api_key list \<times> string list) \<times> tenancy_store" where
  "BulkRotateTenantKeys ok ok' d actor tenantID excludeKeyIDs s =
     (case GetTenant ok tenantID (ts_db s) of Inl e \<Rightarrow> (Inl e, s) | Inr _ \<Rightarrow>
      let existingKeys = bulk_read tenantID excludeKeyIDs (ts_db s) in
      if existingKeys = [] then (Inr ([], []), s)
      else case bulk_rotations d 0 existingKeys of None \<Rightarrow> (Inl ErrStore, s) | Some rs \<Rightarrow>
        (case bulk_commit ok' actor tenantID rs s of
           (Inl e, s') \<Rightarrow> (Inl e, s')
         | (Inr _, s') \<Rightarrow> (Inr (map (\<lambda>r. rotated_key (ro_prefix r) (ro_plaintext r) (ro_row r)) rs,
                              map (\<lambda>r. kr_prefix (ro_row r)) rs), s')))"

definition DeleteAPIKey ::
  "bool \<Rightarrow> principal option \<Rightarrow> string \<Rightarrow> string \<Rightarrow> tenancy_store \<Rightarrow> (tenancy_error + unit) \<times> tenancy_store" where
  "DeleteAPIKey ok actor tenantID ident s =
     (if \<not> ok then (Inl ErrStore, s)
      else case find_key ident tenantID (ts_db s) of
        None \<Rightarrow> (Inl ErrNotFound, s)
      | Some k \<Rightarrow>
          if \<not> authorizeKeyTarget actor tenantID (kr_role k) then (Inl ErrForbidden, s)
          else let db = ts_db s in
            (Inr (), flushed (db\<lparr>db_keys := filter (\<lambda>k. \<not> (kr_id k = ident \<and> kr_tenant k = tenantID)) (db_keys db)\<rparr>) s))"

section \<open>Resolving a key\<close>

text \<open>
  \<^verbatim>\<open>Resolve\<close> in its phases: the look-up in the cache; on a hit the check against the key's row; on a miss the
  \<^verbatim>\<open>SELECT\<close> by prefix and then the comparisons and the update of the cache. \<open>tm\<close> gives the readings of the clock.
\<close>

datatype resolve_phase = ResolveDone tenancy_error | CacheHit principal | CacheMiss

definition resolve_lookup :: "sha256 \<Rightarrow> (nat \<Rightarrow> instant) \<Rightarrow> string \<Rightarrow> auth_cache option \<Rightarrow> resolve_phase \<times> auth_cache option" where
  "resolve_lookup sha tm plaintext c =
     (if \<not> key_shape plaintext then (ResolveDone ErrInvalidKey, c)
      else case authCache_Get sha (tm 0) (tm 1) plaintext c of
        (Some p, c') \<Rightarrow> (CacheHit p, c')
      | (None, c') \<Rightarrow> (if authCache_IsNegative sha (tm 2) plaintext c' then ResolveDone ErrInvalidKey else CacheMiss, c'))"

definition has_tenant :: "string \<Rightarrow> tenancy_db \<Rightarrow> bool" where
  "has_tenant ident db \<longleftrightarrow> (\<exists>t \<in> set (db_tenants db). tn_ID t = ident)"

definition resolve_recheck :: "bool \<Rightarrow> principal \<Rightarrow> tenancy_store \<Rightarrow> (tenancy_error + principal) \<times> tenancy_store" where
  "resolve_recheck ok p s =
     (if \<not> ok then (Inl ErrStore, s)
      else case find (\<lambda>k. kr_id k = pl_KeyID p \<and> has_tenant (kr_tenant k) (ts_db s)) (db_keys (ts_db s)) of
        None \<Rightarrow> (Inl ErrInvalidKey, flushed (ts_db s) s)
      | Some k \<Rightarrow>
          if kr_tenant k \<noteq> pl_TenantID p \<or> kr_version k \<noteq> pl_CredentialVersion p
          then (Inl ErrInvalidKey, flushed (ts_db s) s)
          else (Inr (p\<lparr>pl_Role := kr_role k\<rparr>), s))"

definition resolve_select :: "bool \<Rightarrow> string \<Rightarrow> tenancy_db \<Rightarrow> tenancy_error + key_row list" where
  "resolve_select ok plaintext db =
     (if \<not> ok then Inl ErrStore
      else Inr (filter (\<lambda>k. kr_prefix k = take apiKeyPrefixLen plaintext) (db_keys db)))"

definition shouldBumpLastUsed :: "instant option \<Rightarrow> instant \<Rightarrow> bool" where
  "shouldBumpLastUsed lastUsed now = (case lastUsed of None \<Rightarrow> True | Some prev \<Rightarrow> time_Sub now prev \<ge> Minute)"

definition principal_of :: "key_row \<Rightarrow> principal" where
  "principal_of k = \<lparr>pl_TenantID = kr_tenant k, pl_KeyID = kr_id k, pl_Role = kr_role k, pl_CredentialVersion = kr_version k\<rparr>"

definition resolve_finish ::
  "sha256 \<Rightarrow> (string \<Rightarrow> string \<Rightarrow> bool) \<Rightarrow> bool \<Rightarrow> (nat \<Rightarrow> instant) \<Rightarrow> string \<Rightarrow> key_row list \<Rightarrow> tenancy_store \<Rightarrow>
     (tenancy_error + principal) \<times> tenancy_store" where
  "resolve_finish sha compare ok tm plaintext candidates s =
     (case find (\<lambda>c. compare (kr_hash c) plaintext) candidates of
        None \<Rightarrow> (Inl ErrInvalidKey, s\<lparr>ts_cache := authCache_SetNegative sha (tm 4) plaintext (ts_cache s)\<rparr>)
      | Some c \<Rightarrow>
          (Inr (principal_of c),
           \<lparr>ts_db = (if ok \<and> shouldBumpLastUsed (kr_last_used c) (tm 3)
                    then update_keys (\<lambda>k. kr_id k = kr_id c) (\<lambda>k. k\<lparr>kr_last_used := Some (rfc3339 (tm 3))\<rparr>) (ts_db s)
                    else ts_db s),
            ts_cache = authCache_Set sha (tm 4) (tm 5) plaintext (principal_of c) (ts_cache s)\<rparr>))"

definition Resolve ::
  "sha256 \<Rightarrow> (string \<Rightarrow> string \<Rightarrow> bool) \<Rightarrow> bool \<Rightarrow> bool \<Rightarrow> (nat \<Rightarrow> instant) \<Rightarrow> string \<Rightarrow> tenancy_store \<Rightarrow>
     (tenancy_error + principal) \<times> tenancy_store" where
  "Resolve sha compare ok ok' tm plaintext s =
     (case resolve_lookup sha tm plaintext (ts_cache s) of
        (ResolveDone e, c) \<Rightarrow> (Inl e, s\<lparr>ts_cache := c\<rparr>)
      | (CacheHit p, c) \<Rightarrow> resolve_recheck ok p (s\<lparr>ts_cache := c\<rparr>)
      | (CacheMiss, c) \<Rightarrow>
          (case resolve_select ok plaintext (ts_db s) of
             Inl e \<Rightarrow> (Inl e, s\<lparr>ts_cache := c\<rparr>)
           | Inr candidates \<Rightarrow> resolve_finish sha compare ok' tm plaintext candidates (s\<lparr>ts_cache := c\<rparr>)))"

section \<open>Quota overrides\<close>

definition GetTenantQuota :: "bool \<Rightarrow> string \<Rightarrow> tenancy_db \<Rightarrow> tenancy_error + quota_config option" where
  "GetTenantQuota ok tenantID db = (if \<not> ok then Inl ErrStore else Inr (db_quotas db tenantID))"

definition SetTenantQuota :: "bool \<Rightarrow> string \<Rightarrow> quota_config \<Rightarrow> tenancy_store \<Rightarrow> (tenancy_error + unit) \<times> tenancy_store" where
  "SetTenantQuota ok tenantID c s =
     (case GetTenant ok tenantID (ts_db s) of
        Inl e \<Rightarrow> (Inl e, s)
      | Inr _ \<Rightarrow> (Inr (), s\<lparr>ts_db := (ts_db s)\<lparr>db_quotas := (db_quotas (ts_db s))(tenantID \<mapsto> c)\<rparr>\<rparr>))"

section \<open>Users and sessions\<close>

definition GetUserByEmail :: "bool \<Rightarrow> string \<Rightarrow> tenancy_db \<Rightarrow> tenancy_error + sso_user" where
  "GetUserByEmail ok email db =
     (if \<not> ok then Inl ErrStore
      else case find (\<lambda>u. us_Email u = email) (db_users db) of None \<Rightarrow> Inl ErrNotFound | Some u \<Rightarrow> Inr u)"

definition CreateUser ::
  "bool \<Rightarrow> 8 word list option \<Rightarrow> instant \<Rightarrow> string \<Rightarrow> string \<Rightarrow> role \<Rightarrow> tenancy_store \<Rightarrow> (tenancy_error + sso_user) \<times> tenancy_store" where
  "CreateUser ok rnd now email tenantID role s =
     (if email = [] then (Inl (ErrRequired ''user email''), s)
      else if \<not> IsValid role then (Inl (ErrInvalidRole role), s)
      else case GetTenant ok tenantID (ts_db s) of Inl e \<Rightarrow> (Inl e, s) | Inr _ \<Rightarrow>
        (case randID ''usr'' rnd of None \<Rightarrow> (Inl ErrStore, s) | Some uid \<Rightarrow>
          let db = ts_db s;
              u = \<lparr>us_ID = uid, us_Email = email, us_TenantID = tenantID, us_Role = role, us_CreatedAt = now\<rparr> in
          if \<exists>v \<in> set (db_users db). us_ID v = uid \<or> us_Email v = email then (Inl ErrConflict, s)
          else (Inr u, s\<lparr>ts_db := db\<lparr>db_users := db_users db @ [u\<lparr>us_CreatedAt := rfc3339 now\<rparr>]\<rparr>\<rparr>)))"

definition CreateSession ::
  "sha256 \<Rightarrow> bool \<Rightarrow> 8 word list option \<Rightarrow> instant \<Rightarrow> string \<Rightarrow> string \<Rightarrow> role \<Rightarrow> duration \<Rightarrow> tenancy_store \<Rightarrow>
     (tenancy_error + string \<times> sso_session) \<times> tenancy_store" where
  "CreateSession sha ok rnd now userID tenantID role ttl s =
     (case generateSessionToken sha rnd of None \<Rightarrow> (Inl ErrStore, s) | Some (token, hash) \<Rightarrow>
      let db = ts_db s;
          sess = \<lparr>ss_UserID = userID, ss_TenantID = tenantID, ss_Role = role, ss_CreatedAt = now, ss_ExpiresAt = now + ttl\<rparr> in
      if \<not> ok \<or> \<not> (\<exists>u \<in> set (db_users db). us_ID u = userID) \<or> hash \<in> fst ` set (db_sessions db) then (Inl ErrStore, s)
      else (Inr (token, sess),
            s\<lparr>ts_db := db\<lparr>db_sessions := db_sessions db @
              [(hash, sess\<lparr>ss_CreatedAt := rfc3339 now, ss_ExpiresAt := rfc3339 (now + ttl)\<rparr>)]\<rparr>\<rparr>))"

definition ResolveSession ::
  "sha256 \<Rightarrow> bool \<Rightarrow> bool \<Rightarrow> instant \<Rightarrow> string \<Rightarrow> tenancy_store \<Rightarrow> (tenancy_error + principal) \<times> tenancy_store" where
  "ResolveSession sha ok ok' now token s =
     (if \<not> strings_HasPrefix token sessionTokenPrefix then (Inl ErrInvalidSession, s)
      else let hash = hashToken sha token; db = ts_db s in
      if \<not> ok then (Inl ErrStore, s)
      else case map_of (db_sessions db) hash of
        None \<Rightarrow> (Inl ErrInvalidSession, s)
      | Some x \<Rightarrow>
          if now > ss_ExpiresAt x
          then (Inl ErrInvalidSession,
                if ok' then s\<lparr>ts_db := db\<lparr>db_sessions := filter (\<lambda>(h, _). h \<noteq> hash) (db_sessions db)\<rparr>\<rparr> else s)
          else (Inr \<lparr>pl_TenantID = ss_TenantID x, pl_KeyID = ss_UserID x, pl_Role = ss_Role x, pl_CredentialVersion = 0\<rparr>, s))"

definition store_DeleteSession :: "sha256 \<Rightarrow> bool \<Rightarrow> string \<Rightarrow> tenancy_store \<Rightarrow> (tenancy_error + unit) \<times> tenancy_store" where
  "store_DeleteSession sha ok token s =
     (let db = ts_db s in
      if \<not> ok then (Inl ErrStore, s)
      else (Inr (), s\<lparr>ts_db := db\<lparr>db_sessions := filter (\<lambda>(h, _). h \<noteq> hashToken sha token) (db_sessions db)\<rparr>\<rparr>))"

section \<open>Round trips\<close>

lemma find_SomeD: "find P xs = Some x \<Longrightarrow> x \<in> set xs \<and> P x"
  by (induction xs) (auto split: if_splits)

text \<open>A cache that knows nothing of a secret.\<close>

definition forgotten :: "sha256 \<Rightarrow> string \<Rightarrow> auth_cache option \<Rightarrow> bool" where
  "forgotten sha pt c =
     (case c of
        None \<Rightarrow> True
      | Some ac \<Rightarrow> gm_get (ac_entries ac) (hashKey sha pt) = None \<and> gm_get (ac_negatives ac) (hashKey sha pt) = None)"

lemma forgotten_miss: "key_shape pt \<Longrightarrow> forgotten sha pt c \<Longrightarrow> resolve_lookup sha tm pt c = (CacheMiss, c)"
  by (auto simp: forgotten_def resolve_lookup_def authCache_Get_def authCache_IsNegative_def Let_def split: option.splits)

lemma find_append_last: "\<forall>x \<in> set xs. \<not> P x \<Longrightarrow> P y \<Longrightarrow> find P (xs @ [y]) = Some y"
  by (induction xs) auto

lemma Resolve_new_row:
  assumes "key_shape pt" "forgotten sha pt (ts_cache s)" "kr_prefix row = take apiKeyPrefixLen pt" "compare (kr_hash row) pt"
    "\<forall>k \<in> set (db_keys (ts_db s)). \<not> compare (kr_hash k) pt"
  shows "fst (Resolve sha compare True ok tm pt (insert_key row s)) = Inr (principal_of row)"
proof -
  let ?cs = "filter (\<lambda>k. kr_prefix k = take apiKeyPrefixLen pt) (db_keys (ts_db s))"
  have "find (\<lambda>c. compare (kr_hash c) pt) (?cs @ [row]) = Some row"
    using assms(4,5) by (intro find_append_last) auto
  then show ?thesis
    using forgotten_miss [OF assms(1,2)] assms(3) by (simp add: Resolve_def insert_key_def resolve_select_def resolve_finish_def)
qed

text \<open>
  C17. A created key resolves, with the tenant and the role it was created with, given that its random source
  delivered whole blocks, that bcrypt accepts the secret it has hashed, and that the new secret is unknown: no
  other key accepts it, and the cache has not seen it.
\<close>

theorem CreateAPIKey_Resolve:
  assumes "kd_prefix d = Some p" "length p = 4" "kd_secret d = Some x" "length x = 24"
    and "CreateAPIKey ok d now tid name role s = (Inr nk, s')"
    and "\<forall>hash. kd_gen d (nk_Plaintext nk) = Some hash \<longrightarrow> compare hash (nk_Plaintext nk)"
    and "\<forall>k \<in> set (db_keys (ts_db s)). \<not> compare (kr_hash k) (nk_Plaintext nk)"
    and "forgotten sha (nk_Plaintext nk) (ts_cache s)"
  shows "fst (Resolve sha compare True ok' tm (nk_Plaintext nk) s') =
    Inr \<lparr>pl_TenantID = tid, pl_KeyID = ak_ID (nk_Key nk), pl_Role = role, pl_CredentialVersion = 1\<rparr>"
proof -
  obtain plaintext pfx hash keyID where g: "generateAPIKey (Some p) (Some x) = Some (plaintext, pfx)" "kd_gen d plaintext = Some hash"
    and nk: "nk_Plaintext nk = plaintext" "ak_ID (nk_Key nk) = keyID" and s': "s' = insert_key (new_row keyID tid name pfx hash role now) s"
    using assms(1,3,5) by (auto simp: CreateAPIKey_def Let_def split: if_splits sum.splits option.splits)
  note parts = generateAPIKey_parts [OF assms(2,4) g(1)]
  have "fst (Resolve sha compare True ok' tm plaintext s') = Inr (principal_of (new_row keyID tid name pfx hash role now))"
    unfolding s' using parts(1) assms(6-8) g(2) by (intro Resolve_new_row parts(2)) (auto simp: nk new_row_def)
  then show ?thesis by (simp add: nk principal_of_def new_row_def)
qed

definition sample_key_draws :: key_draws where
  "sample_key_draws = \<lparr>kd_prefix = Some [0, 0, 0, 1], kd_secret = Some (replicate 24 7), kd_gen = Some, kd_id = Some (replicate 8 1)\<rparr>"

definition sample_tenancy :: tenancy_store where
  "sample_tenancy =
     \<lparr>ts_db = \<lparr>db_tenants = [\<lparr>tn_ID = ''ten_1'', tn_Name = ''acme'', tn_CreatedAt = 0\<rparr>], db_keys = [], db_users = [], db_sessions = [],
               db_quotas = Map.empty, db_spend = Map.empty\<rparr>,
      ts_cache = Some (newAuthCache 0 0)\<rparr>"

definition sample_created :: "(tenancy_error + new_api_key) \<times> tenancy_store" where
  "sample_created = CreateAPIKey True sample_key_draws 0 ''ten_1'' ''ci'' RoleAdmin sample_tenancy"

theorem CreateAPIKey_Resolve_witness:
  "\<exists>nk. fst sample_created = Inr nk \<and> fst (Resolve (\<lambda>_. []) (=) True True (\<lambda>_. 0) (nk_Plaintext nk) (snd sample_created)) =
    Inr \<lparr>pl_TenantID = ''ten_1'', pl_KeyID = ak_ID (nk_Key nk), pl_Role = RoleAdmin, pl_CredentialVersion = 1\<rparr>"
proof -
  have "\<not> isl (fst sample_created)" by code_simp
  then obtain nk where nk: "fst sample_created = Inr nk" by (cases "fst sample_created") auto
  then have created: "CreateAPIKey True sample_key_draws 0 ''ten_1'' ''ci'' RoleAdmin sample_tenancy = (Inr nk, snd sample_created)"
    by (metis prod.collapse sample_created_def)
  show ?thesis
    using nk CreateAPIKey_Resolve [OF _ _ _ _ created, of "[0, 0, 0, 1]" "replicate 24 7" "(=)" "\<lambda>_. []" True "\<lambda>_. 0"]
    by (simp add: sample_key_draws_def sample_tenancy_def forgotten_def newAuthCache_def)
qed

text \<open>
  The creation of a key does not flush the cache: a preset key whose secret was tried before is refused as long
  as the failure is remembered.
\<close>

definition sample_preset :: string where
  "sample_preset = ''mak_00000000_'' @ replicate 24 CHR ''a''"

lemma preset_key_refused_after_attempt:
  "let s1 = snd (Resolve (\<lambda>_. []) (=) True True (\<lambda>_. 0) sample_preset sample_tenancy);
       (r, s2) = CreateAPIKeyWithPlaintext True sample_key_draws 0 ''ten_1'' ''boot'' RolePlatform sample_preset s1
   in (\<not> isl r, fst (Resolve (\<lambda>_. []) (=) True True (\<lambda>_. 29 * Second) sample_preset s2)) = (True, Inl ErrInvalidKey)"
  by code_simp

section \<open>Bulk rotation\<close>

text \<open>The key a rotation is about, still as it was read.\<close>

definition targets :: "string \<Rightarrow> rotation \<Rightarrow> key_row \<Rightarrow> bool" where
  "targets tid r k \<longleftrightarrow> kr_id k = kr_id (ro_row r) \<and> kr_tenant k = tid \<and> kr_role k = kr_role (ro_row r) \<and> kr_version k = kr_version (ro_row r)"

definition rotate_one :: "string \<Rightarrow> rotation list \<Rightarrow> key_row \<Rightarrow> key_row" where
  "rotate_one tid rs k = (case find (\<lambda>r. targets tid r k) rs of Some r \<Rightarrow> renewed (ro_prefix r) (ro_hash r) k | None \<Rightarrow> k)"

lemma bulk_apply_rotates:
  assumes "distinct (map (\<lambda>r. kr_id (ro_row r)) rs)" "bulk_apply tid rs db = Some db'"
  shows "db' = db\<lparr>db_keys := map (rotate_one tid rs) (db_keys db)\<rparr>"
  using assms
proof (induction rs arbitrary: db)
  case Nil
  then show ?case by (simp add: rotate_one_def)
next
  case (Cons r rs)
  let ?f = "\<lambda>k. if targets tid r k then renewed (ro_prefix r) (ro_hash r) k else k"
  have other: "find (\<lambda>r. targets tid r k) rs = None" if "kr_id k = kr_id (ro_row r)" for k
    using Cons.prems(1) that by (auto simp: find_None_iff targets_def)
  have "bulk_apply tid rs (db\<lparr>db_keys := map ?f (db_keys db)\<rparr>) = Some db'"
    using Cons.prems(2) by (auto simp: Let_def update_keys_def targets_def split: if_splits)
  then have "db' = db\<lparr>db_keys := map (rotate_one tid rs \<circ> ?f) (db_keys db)\<rparr>"
    using Cons.IH [of "db\<lparr>db_keys := map ?f (db_keys db)\<rparr>"] Cons.prems(1) by simp
  moreover have "rotate_one tid rs (?f k) = rotate_one tid (r # rs) k" for k
    using other [of "?f k"] by (auto simp: rotate_one_def targets_def renewed_def)
  ultimately show ?case by (simp add: comp_def)
qed

lemma bulk_rotations_rows:
  assumes "bulk_rotations d i ks = Some rs"
  shows "map ro_row rs = ks" "\<forall>r \<in> set rs. \<exists>j. kd_gen (d j) (ro_plaintext r) = Some (ro_hash r)"
  using assms by (induction d i ks arbitrary: rs rule: bulk_rotations.induct) (force split: option.splits prod.splits)+

lemma bulk_read_set: "set (bulk_read tid ex db) = {k \<in> set (db_keys db). kr_tenant k = tid \<and> (kr_id k = [] \<or> kr_id k \<notin> set ex)}"
  by (auto simp: bulk_read_def)

lemma bulk_read_distinct:
  assumes "distinct (map kr_id (db_keys db))"
  shows "distinct (map kr_id (bulk_read tid ex db))"
proof -
  have "mset (map kr_id (bulk_read tid ex db)) = mset (map kr_id (filter (\<lambda>k. kr_tenant k = tid \<and> kr_id k \<notin> set (filter (\<lambda>kid. kid \<noteq> []) ex)) (db_keys db)))"
    by (simp add: bulk_read_def)
  moreover have "distinct (map kr_id (filter (\<lambda>k. kr_tenant k = tid \<and> kr_id k \<notin> set (filter (\<lambda>kid. kid \<noteq> []) ex)) (db_keys db)))"
    using assms by (simp only: distinct_map_filter)
  ultimately show ?thesis using mset_eq_imp_distinct_iff by blast
qed

lemma rotate_one_row:
  assumes db: "distinct (map kr_id (db_keys db))" "[] \<notin> kr_id ` set (db_keys db)"
    and rows: "map ro_row rs = bulk_read tid ex db" and k: "k \<in> set (db_keys db)"
  shows "if kr_tenant k = tid \<and> kr_id k \<notin> set ex
    then \<exists>r \<in> set rs. ro_row r = k \<and> rotate_one tid rs k = renewed (ro_prefix r) (ro_hash r) k
    else rotate_one tid rs k = k"
proof (cases "kr_tenant k = tid \<and> kr_id k \<notin> set ex")
  case True
  then have "k \<in> ro_row ` set rs" using k bulk_read_set [of tid ex db] rows by (metis (mono_tags, lifting) list.set_map mem_Collect_eq)
  then obtain r where r: "r \<in> set rs" "ro_row r = k" by auto
  then have "find (\<lambda>r. targets tid r k) rs \<noteq> None" using True by (auto simp: find_None_iff targets_def)
  then obtain r' where r': "find (\<lambda>r. targets tid r k) rs = Some r'" by auto
  then have "r' \<in> set rs" "kr_id (ro_row r') = kr_id (ro_row r)" using r find_SomeD by (fastforce simp: targets_def)+
  moreover have "distinct (map (\<lambda>r. kr_id (ro_row r)) rs)"
    using bulk_read_distinct [OF db(1), of tid ex] by (simp add: rows [symmetric] comp_def)
  ultimately have "r' = r" using r(1) by (auto simp: distinct_map dest: inj_onD)
  then show ?thesis using True r r' by (auto simp: rotate_one_def)
next
  case False
  have "\<not> targets tid r k" if "r \<in> set rs" for r
  proof
    assume t: "targets tid r k"
    have row: "ro_row r \<in> set (bulk_read tid ex db)" using that rows by (metis image_eqI list.set_map)
    then have "ro_row r = k" using t k db(1) bulk_read_set [of tid ex db] by (auto simp: targets_def distinct_map dest: inj_onD)
    then show False using False row k db(2) bulk_read_set [of tid ex db] by (metis (mono_tags, lifting) image_eqI mem_Collect_eq)
  qed
  then have "find (\<lambda>r. targets tid r k) rs = None" by (auto simp: find_None_iff)
  then show ?thesis using False by (auto simp: rotate_one_def)
qed

text \<open>
  C18. A bulk rotation is all or nothing. Where it fails the store is as before; where it succeeds every key of
  the tenant that is not excluded has the prefix and the hash of a secret that is handed out for it and the next
  version, and every other row is as before.
\<close>

theorem BulkRotateTenantKeys_all_or_nothing:
  assumes "distinct (map kr_id (db_keys (ts_db s)))" "[] \<notin> kr_id ` set (db_keys (ts_db s))"
    and "BulkRotateTenantKeys ok ok' d actor tid ex s = (res, s')"
  shows "case res of
      Inl e \<Rightarrow> s' = s
    | Inr (results, _) \<Rightarrow>
        list_all2 (\<lambda>k k'. if kr_tenant k = tid \<and> kr_id k \<notin> set ex
            then \<exists>nk \<in> set results. \<exists>j hash. ak_ID (nk_Key nk) = kr_id k \<and> kd_gen (d j) (nk_Plaintext nk) = Some hash \<and>
                   k' = renewed (ak_Prefix (nk_Key nk)) hash k
            else k' = k) (db_keys (ts_db s)) (db_keys (ts_db s'))"
proof -
  let ?ks = "bulk_read tid ex (ts_db s)"
  consider e where "res = Inl e" "s' = s"
    | olds where "res = Inr ([], olds)" "s' = s" "?ks = []"
    | rs db' olds where "res = Inr (map (\<lambda>r. rotated_key (ro_prefix r) (ro_plaintext r) (ro_row r)) rs, olds)"
        "bulk_rotations d 0 ?ks = Some rs" "bulk_apply tid rs (ts_db s) = Some db'" "ts_db s' = db'"
    using assms(3) by (auto simp: BulkRotateTenantKeys_def bulk_commit_def flushed_def Let_def split: sum.splits if_splits option.splits prod.splits)
  then show ?thesis
  proof cases
    case 2
    then have "\<forall>k \<in> set (db_keys (ts_db s)). \<not> (kr_tenant k = tid \<and> kr_id k \<notin> set ex)" using bulk_read_set [of tid ex "ts_db s"] by auto
    then show ?thesis using 2 by (auto simp: list_all2_same)
  next
    case (3 rs db' olds)
    note rows = bulk_rotations_rows [OF 3(2)]
    have ids: "distinct (map (\<lambda>r. kr_id (ro_row r)) rs)"
      using bulk_read_distinct [OF assms(1), of tid ex] by (simp add: rows(1) [symmetric] comp_def)
    have keys: "db_keys (ts_db s') = map (rotate_one tid rs) (db_keys (ts_db s))"
      using bulk_apply_rotates [OF ids 3(3)] 3(4) by simp
    have "if kr_tenant k = tid \<and> kr_id k \<notin> set ex
        then \<exists>r \<in> set rs. ro_row r = k \<and> rotate_one tid rs k = renewed (ro_prefix r) (ro_hash r) k
        else rotate_one tid rs k = k" if "k \<in> set (db_keys (ts_db s))" for k
      by (rule rotate_one_row [OF assms(1,2) rows(1) that])
    then show ?thesis unfolding 3(1) keys using rows(2)
      by (fastforce simp: list_all2_map2 list_all2_same rotated_key_def)
  qed simp
qed

definition sample_bulk :: "(tenancy_error + new_api_key list \<times> string list) \<times> tenancy_store" where
  "sample_bulk = BulkRotateTenantKeys True True (\<lambda>_. sample_key_draws\<lparr>kd_secret := Some (replicate 24 9)\<rparr>) None ''ten_1'' [] (snd sample_created)"

theorem BulkRotateTenantKeys_all_or_nothing_witness:
  "map kr_version (db_keys (ts_db (snd sample_created))) = [1] \<and>
   (case fst sample_bulk of
      Inl e \<Rightarrow> snd sample_bulk = snd sample_created
    | Inr (results, _) \<Rightarrow>
        list_all2 (\<lambda>k k'. if kr_tenant k = ''ten_1'' \<and> kr_id k \<notin> set []
            then \<exists>nk \<in> set results. \<exists>(j :: nat) hash. ak_ID (nk_Key nk) = kr_id k \<and>
                   kd_gen (sample_key_draws\<lparr>kd_secret := Some (replicate 24 9)\<rparr>) (nk_Plaintext nk) = Some hash \<and>
                   k' = renewed (ak_Prefix (nk_Key nk)) hash k
            else k' = k) (db_keys (ts_db (snd sample_created))) (db_keys (ts_db (snd sample_bulk))))"
proof
  show "map kr_version (db_keys (ts_db (snd sample_created))) = [1]" by code_simp
  have wf: "distinct (map kr_id (db_keys (ts_db (snd sample_created))))" "[] \<notin> kr_id ` set (db_keys (ts_db (snd sample_created)))"
    by code_simp+
  have run: "BulkRotateTenantKeys True True (\<lambda>_. sample_key_draws\<lparr>kd_secret := Some (replicate 24 9)\<rparr>) None ''ten_1'' []
      (snd sample_created) = (fst sample_bulk, snd sample_bulk)"
    by (simp only: prod.collapse sample_bulk_def)
  show "case fst sample_bulk of
      Inl e \<Rightarrow> snd sample_bulk = snd sample_created
    | Inr (results, _) \<Rightarrow>
        list_all2 (\<lambda>k k'. if kr_tenant k = ''ten_1'' \<and> kr_id k \<notin> set []
            then \<exists>nk \<in> set results. \<exists>(j :: nat) hash. ak_ID (nk_Key nk) = kr_id k \<and>
                   kd_gen (sample_key_draws\<lparr>kd_secret := Some (replicate 24 9)\<rparr>) (nk_Plaintext nk) = Some hash \<and>
                   k' = renewed (ak_Prefix (nk_Key nk)) hash k
            else k' = k) (db_keys (ts_db (snd sample_created))) (db_keys (ts_db (snd sample_bulk)))"
    by (rule BulkRotateTenantKeys_all_or_nothing [OF wf run])
qed

section \<open>Referential integrity\<close>

definition tenancy_wf :: "tenancy_db \<Rightarrow> bool" where
  "tenancy_wf db \<longleftrightarrow>
     distinct (map tn_ID (db_tenants db)) \<and> distinct (map kr_id (db_keys db)) \<and> distinct (map us_ID (db_users db)) \<and>
     distinct (map fst (db_sessions db)) \<and>
     kr_tenant ` set (db_keys db) \<subseteq> tn_ID ` set (db_tenants db) \<and>
     us_TenantID ` set (db_users db) \<subseteq> tn_ID ` set (db_tenants db) \<and>
     ss_UserID ` snd ` set (db_sessions db) \<subseteq> us_ID ` set (db_users db)"

lemma GetTenant_exists: "GetTenant ok tid db = Inr t \<Longrightarrow> tid \<in> tn_ID ` set (db_tenants db)"
  by (auto simp: GetTenant_def split: if_splits option.splits dest!: find_SomeD)

lemma tenancy_wf_update:
  assumes "tenancy_wf db" "\<And>k. kr_id (f k) = kr_id k" "\<And>k. kr_tenant (f k) = kr_tenant k"
  shows "tenancy_wf (update_keys P f db)"
proof -
  have ids: "map kr_id (db_keys (update_keys P f db)) = map kr_id (db_keys db)"
    and "map kr_tenant (db_keys (update_keys P f db)) = map kr_tenant (db_keys db)"
    using assms(2,3) by (simp_all add: update_keys_def)
  then have "kr_tenant ` set (db_keys (update_keys P f db)) = kr_tenant ` set (db_keys db)" by (metis list.set_map)
  with ids show ?thesis using assms(1) by (simp add: tenancy_wf_def) (simp add: update_keys_def)
qed

lemma tenancy_wf_renew: "tenancy_wf db \<Longrightarrow> tenancy_wf (update_keys P (renewed pfx hash) db)"
  by (rule tenancy_wf_update) (simp_all add: renewed_def)

lemma bulk_apply_wf: "bulk_apply tid rs db = Some db' \<Longrightarrow> tenancy_wf db \<Longrightarrow> tenancy_wf db'"
  by (induction rs arbitrary: db) (auto simp: Let_def tenancy_wf_renew split: if_splits)

lemma tenancy_wf_filter_keys: "tenancy_wf db \<Longrightarrow> tenancy_wf (db\<lparr>db_keys := filter P (db_keys db)\<rparr>)"
  by (auto simp: tenancy_wf_def distinct_map_filter)

lemma tenancy_wf_insert_key:
  assumes "tenancy_wf (ts_db s)" "\<not> has_key (kr_id k) (ts_db s)" "kr_tenant k \<in> tn_ID ` set (db_tenants (ts_db s))"
  shows "tenancy_wf (ts_db (insert_key k s))"
  using assms by (auto simp: tenancy_wf_def insert_key_def has_key_def)

lemma cascade_image:
  assumes "f ` set xs \<subseteq> g ` set ys"
  shows "f ` set (filter (\<lambda>x. f x \<noteq> v) xs) \<subseteq> g ` set (filter (\<lambda>y. g y \<noteq> v) ys)"
proof
  fix w assume "w \<in> f ` set (filter (\<lambda>x. f x \<noteq> v) xs)"
  then have "w \<in> f ` set xs" "w \<noteq> v" by auto
  moreover from this(1) have "w \<in> g ` set ys" using assms by blast
  ultimately show "w \<in> g ` set (filter (\<lambda>y. g y \<noteq> v) ys)" by auto
qed

lemma cascade_sessions:
  assumes "ss_UserID ` snd ` set ss \<subseteq> us_ID ` set us"
  shows "ss_UserID ` snd ` set (filter (\<lambda>(_, x). ss_UserID x \<notin> us_ID ` set (filter (\<lambda>u. us_TenantID u = tid) us)) ss)
    \<subseteq> us_ID ` set (filter (\<lambda>u. us_TenantID u \<noteq> tid) us)"
proof
  fix i assume "i \<in> ss_UserID ` snd ` set (filter (\<lambda>(_, x). ss_UserID x \<notin> us_ID ` set (filter (\<lambda>u. us_TenantID u = tid) us)) ss)"
  then obtain h x where x: "(h, x) \<in> set ss" "i = ss_UserID x" "i \<notin> us_ID ` set (filter (\<lambda>u. us_TenantID u = tid) us)" by auto
  then have "i \<in> us_ID ` set us" using assms by force
  then show "i \<in> us_ID ` set (filter (\<lambda>u. us_TenantID u \<noteq> tid) us)" using x(3) by force
qed

lemma DeleteTenant_wf:
  assumes "DeleteTenant ok tid s = (r, s')" "tenancy_wf (ts_db s)"
  shows "tenancy_wf (ts_db s')"
proof (cases "ok \<and> (\<exists>t \<in> set (db_tenants (ts_db s)). tn_ID t = tid)")
  case True
  let ?db = "ts_db s"
  have "db_tenants (ts_db s') = filter (\<lambda>t. tn_ID t \<noteq> tid) (db_tenants ?db)"
    "db_keys (ts_db s') = filter (\<lambda>k. kr_tenant k \<noteq> tid) (db_keys ?db)"
    "db_users (ts_db s') = filter (\<lambda>u. us_TenantID u \<noteq> tid) (db_users ?db)"
    "db_sessions (ts_db s') =
       filter (\<lambda>(_, x). ss_UserID x \<notin> us_ID ` set (filter (\<lambda>u. us_TenantID u = tid) (db_users ?db))) (db_sessions ?db)"
    using assms(1) True by (auto simp: DeleteTenant_def Let_def simp del: set_filter split: if_splits)
  note tables = this
  show ?thesis
    using assms(2) unfolding tenancy_wf_def tables
    by (intro conjI cascade_image cascade_sessions) (simp_all add: distinct_map_filter del: set_filter)
next
  case False
  then have "s' = s" using assms(1) by (auto simp: DeleteTenant_def Let_def split: if_splits)
  then show ?thesis using assms(2) by simp
qed

lemma tenancy_wf_insert_tenant:
  "tenancy_wf db \<Longrightarrow> \<forall>u \<in> set (db_tenants db). tn_ID u \<noteq> tn_ID t \<Longrightarrow>
   tenancy_wf (db\<lparr>db_tenants := db_tenants db @ [t]\<rparr>)"
  by (simp add: tenancy_wf_def subset_insertI2) force

lemma tenancy_wf_insert_user:
  "tenancy_wf db \<Longrightarrow> \<forall>v \<in> set (db_users db). us_ID v \<noteq> us_ID u \<Longrightarrow> us_TenantID u \<in> tn_ID ` set (db_tenants db) \<Longrightarrow>
   tenancy_wf (db\<lparr>db_users := db_users db @ [u]\<rparr>)"
  by (simp add: tenancy_wf_def subset_insertI2) force

lemma tenancy_wf_insert_session:
  "tenancy_wf db \<Longrightarrow> h \<notin> fst ` set (db_sessions db) \<Longrightarrow> ss_UserID x \<in> us_ID ` set (db_users db) \<Longrightarrow>
   tenancy_wf (db\<lparr>db_sessions := db_sessions db @ [(h, x)]\<rparr>)"
  by (simp add: tenancy_wf_def)

lemma CreateTenant_wf: "CreateTenant ok rnd now name s = (r, s') \<Longrightarrow> tenancy_wf (ts_db s) \<Longrightarrow> tenancy_wf (ts_db s')"
  by (auto simp: CreateTenant_def Let_def split: if_splits option.splits intro!: tenancy_wf_insert_tenant)

lemma CreateAPIKey_wf: "CreateAPIKey ok d now tid name role s = (r, s') \<Longrightarrow> tenancy_wf (ts_db s) \<Longrightarrow> tenancy_wf (ts_db s')"
  by (auto simp: CreateAPIKey_def Let_def new_row_def split: if_splits sum.splits option.splits dest!: GetTenant_exists
      intro!: tenancy_wf_insert_key)

lemma CreateAPIKeyWithPlaintext_wf:
  "CreateAPIKeyWithPlaintext ok d now tid name role pt s = (r, s') \<Longrightarrow> tenancy_wf (ts_db s) \<Longrightarrow> tenancy_wf (ts_db s')"
  by (auto simp: CreateAPIKeyWithPlaintext_def Let_def new_row_def split: if_splits sum.splits option.splits dest!: GetTenant_exists
      intro!: tenancy_wf_insert_key)

lemma UpdateAPIKeyRole_wf: "UpdateAPIKeyRole ok a tid kid role s = (r, s') \<Longrightarrow> tenancy_wf (ts_db s) \<Longrightarrow> tenancy_wf (ts_db s')"
  by (auto simp: UpdateAPIKeyRole_def flushed_def split: if_splits option.splits intro!: tenancy_wf_update)

lemma rotate_commit_wf: "rotate_commit ok a tid kid seen pfx hash s = (r, s') \<Longrightarrow> tenancy_wf (ts_db s) \<Longrightarrow> tenancy_wf (ts_db s')"
  by (auto simp: rotate_commit_def flushed_def Let_def tenancy_wf_renew split: if_splits option.splits)

lemma bulk_commit_wf: "bulk_commit ok a tid rs s = (r, s') \<Longrightarrow> tenancy_wf (ts_db s) \<Longrightarrow> tenancy_wf (ts_db s')"
  by (auto simp: bulk_commit_def flushed_def bulk_apply_wf split: if_splits option.splits)

lemma DeleteAPIKey_wf: "DeleteAPIKey ok a tid kid s = (r, s') \<Longrightarrow> tenancy_wf (ts_db s) \<Longrightarrow> tenancy_wf (ts_db s')"
  by (auto simp: DeleteAPIKey_def flushed_def Let_def tenancy_wf_filter_keys split: if_splits option.splits)

lemma tenancy_wf_quota: "tenancy_wf db \<Longrightarrow> tenancy_wf (db\<lparr>db_quotas := q\<rparr>)"
  by (simp add: tenancy_wf_def)

lemma SetTenantQuota_wf: "SetTenantQuota ok tid c s = (r, s') \<Longrightarrow> tenancy_wf (ts_db s) \<Longrightarrow> tenancy_wf (ts_db s')"
  by (auto simp: SetTenantQuota_def tenancy_wf_quota split: sum.splits)

lemma CreateUser_wf: "CreateUser ok rnd now email tid role s = (r, s') \<Longrightarrow> tenancy_wf (ts_db s) \<Longrightarrow> tenancy_wf (ts_db s')"
  by (auto simp: CreateUser_def Let_def split: if_splits sum.splits option.splits dest!: GetTenant_exists intro!: tenancy_wf_insert_user)

lemma CreateSession_wf: "CreateSession sha ok rnd now uid tid role ttl s = (r, s') \<Longrightarrow> tenancy_wf (ts_db s) \<Longrightarrow> tenancy_wf (ts_db s')"
  by (auto simp: CreateSession_def Let_def split: if_splits option.splits intro!: tenancy_wf_insert_session)

lemma tenancy_wf_filter_sessions:
  assumes "tenancy_wf db"
  shows "tenancy_wf (db\<lparr>db_sessions := filter P (db_sessions db)\<rparr>)"
proof -
  have "ss_UserID ` snd ` set (filter P (db_sessions db)) \<subseteq> us_ID ` set (db_users db)"
    using assms unfolding tenancy_wf_def by (meson filter_is_subset image_mono order_trans)
  then show ?thesis using assms by (simp add: tenancy_wf_def distinct_map_filter del: set_filter)
qed

lemma ResolveSession_wf: "ResolveSession sha ok ok' now token s = (r, s') \<Longrightarrow> tenancy_wf (ts_db s) \<Longrightarrow> tenancy_wf (ts_db s')"
  by (auto simp: ResolveSession_def Let_def tenancy_wf_filter_sessions split: if_splits option.splits)

lemma store_DeleteSession_wf: "store_DeleteSession sha ok token s = (r, s') \<Longrightarrow> tenancy_wf (ts_db s) \<Longrightarrow> tenancy_wf (ts_db s')"
  by (auto simp: store_DeleteSession_def Let_def tenancy_wf_filter_sessions split: if_splits)

lemma resolve_finish_wf:
  assumes "resolve_finish sha compare ok tm pt cs s = (r, s')" "tenancy_wf (ts_db s)"
  shows "tenancy_wf (ts_db s')"
proof -
  have "tenancy_wf (update_keys P (\<lambda>k. k\<lparr>kr_last_used := t\<rparr>) (ts_db s))" for P t
    using assms(2) by (rule tenancy_wf_update) simp_all
  then show ?thesis using assms by (auto simp: resolve_finish_def split: option.splits)
qed

lemmas store_wf_intros = CreateTenant_wf DeleteTenant_wf CreateAPIKey_wf CreateAPIKeyWithPlaintext_wf UpdateAPIKeyRole_wf rotate_commit_wf
  bulk_commit_wf DeleteAPIKey_wf SetTenantQuota_wf CreateUser_wf CreateSession_wf ResolveSession_wf store_DeleteSession_wf

end
