(* ===== verification/Tenancy_Replicas.thy ===== *)
theory Tenancy_Replicas
  imports Tenancy_Store "HOL-Library.Multiset"
begin

text \<open>
  Several server processes on one tenancy database, each with its own cache of resolved keys (theories
  \<open>Auth_Cache\<close> and \<open>Tenancy_Store\<close>). Calls interleave at the statements and transactions. The main result: a
  cached proof of a key is never worth more than the key's row, whatever the other processes did to it.
\<close>

section \<open>Operations as steps\<close>

text \<open>
  One operation of the store. The identifier drawn for a new key is not one that was drawn before (\<open>used\<close>). The
  commit of a rotation may come long after the read, so the rows it has seen are arbitrary.
\<close>

inductive tenancy_step :: "string set \<Rightarrow> tenancy_store \<Rightarrow> tenancy_store \<Rightarrow> bool" for used :: "string set" where
  create_tenant: "CreateTenant ok rnd now name s = (r, s') \<Longrightarrow> tenancy_step used s s'"
| delete_tenant: "DeleteTenant ok tid s = (r, s') \<Longrightarrow> tenancy_step used s s'"
| create_key: "(\<forall>i. randID ''key'' (kd_id d) = Some i \<longrightarrow> i \<notin> used) \<Longrightarrow>
    CreateAPIKey ok d now tid name role s = (r, s') \<Longrightarrow> tenancy_step used s s'"
| create_preset: "(\<forall>i. randID ''key'' (kd_id d) = Some i \<longrightarrow> i \<notin> used) \<Longrightarrow>
    CreateAPIKeyWithPlaintext ok d now tid name role pt s = (r, s') \<Longrightarrow> tenancy_step used s s'"
| update_role: "UpdateAPIKeyRole ok actor tid kid role s = (r, s') \<Longrightarrow> tenancy_step used s s'"
| rotate: "rotate_commit ok actor tid kid seen pfx hash s = (r, s') \<Longrightarrow> tenancy_step used s s'"
| bulk_rotate: "bulk_commit ok actor tid rs s = (r, s') \<Longrightarrow> tenancy_step used s s'"
| delete_key: "DeleteAPIKey ok actor tid kid s = (r, s') \<Longrightarrow> tenancy_step used s s'"
| set_quota: "SetTenantQuota ok tid c s = (r, s') \<Longrightarrow> tenancy_step used s s'"
| create_user: "CreateUser ok rnd now email tid role s = (r, s') \<Longrightarrow> tenancy_step used s s'"
| create_session: "CreateSession sha ok rnd now uid tid role ttl s = (r, s') \<Longrightarrow> tenancy_step used s s'"
| resolve_session: "ResolveSession sha ok ok' now token s = (r, s') \<Longrightarrow> tenancy_step used s s'"
| delete_session: "store_DeleteSession sha ok token s = (r, s') \<Longrightarrow> tenancy_step used s s'"

section \<open>How the rows of the key table evolve\<close>

text \<open>A row of the new table belongs to a new key, or to an old one with the same secret or with a later version.\<close>

definition later :: "key_row \<Rightarrow> key_row \<Rightarrow> bool" where
  "later k k' \<longleftrightarrow> kr_id k' = kr_id k \<and>
     (kr_version k' = kr_version k \<and> kr_hash k' = kr_hash k \<or> kr_version k < kr_version k')"

definition evolves :: "string set \<Rightarrow> key_row list \<Rightarrow> key_row list \<Rightarrow> bool" where
  "evolves used ks ks' \<longleftrightarrow>
     (distinct (map kr_id ks) \<longrightarrow> distinct (map kr_id ks')) \<and>
     (\<forall>k' \<in> set ks'. kr_id k' \<notin> used \<or> (\<exists>k \<in> set ks. later k k'))"

lemma later_refl [simp]: "later k k"
  by (simp add: later_def)

lemma later_self: "k \<in> set ks \<Longrightarrow> \<exists>k' \<in> set ks. later k' k"
  using later_refl by blast

lemma later_trans: "later k k' \<Longrightarrow> later k' k'' \<Longrightarrow> later k k''"
  by (auto simp: later_def)

lemma evolves_refl [simp]: "evolves used ks ks"
  unfolding evolves_def using later_refl by blast

lemma evolves_trans:
  assumes "evolves used ks ks'" "evolves used ks' ks''"
  shows "evolves used ks ks''"
  unfolding evolves_def
proof (intro conjI ballI)
  fix k'' assume "k'' \<in> set ks''"
  then consider "kr_id k'' \<notin> used" | k' where "k' \<in> set ks'" "later k' k''"
    using assms(2) by (auto simp: evolves_def)
  then show "kr_id k'' \<notin> used \<or> (\<exists>k \<in> set ks. later k k'')"
  proof cases
    case 2
    then have "kr_id k' \<notin> used \<or> (\<exists>k \<in> set ks. later k k')" using assms(1) by (auto simp: evolves_def)
    then show ?thesis using 2(2) later_trans by (metis later_def)
  qed simp
qed (use assms in \<open>auto simp: evolves_def\<close>)

lemma evolves_filter: "evolves used ks (filter P ks)"
  by (auto simp: evolves_def distinct_map_filter intro: later_self)

lemma evolves_map:
  assumes "\<And>k. later k (f k)"
  shows "evolves used ks (map f ks)"
proof -
  have "map kr_id (map f ks) = map kr_id ks" using assms by (auto simp: later_def)
  then show ?thesis using assms unfolding evolves_def by (metis (no_types, lifting) image_iff list.set_map)
qed

lemma evolves_update:
  assumes "\<And>k. later k (f k)"
  shows "evolves used (db_keys db) (db_keys (update_keys P f db))"
  unfolding update_keys_def by (simp, rule evolves_map) (simp add: assms)

lemma evolves_insert:
  assumes "kr_id k \<notin> used" "kr_id k \<notin> kr_id ` set ks"
  shows "evolves used ks (ks @ [k])"
  using assms by (auto simp: evolves_def intro: later_self)

lemma has_key_iff: "has_key i db \<longleftrightarrow> i \<in> kr_id ` set (db_keys db)"
  by (auto simp: has_key_def)

lemma evolves_renew: "evolves used (db_keys db) (db_keys (update_keys P (renewed pfx hash) db))"
  by (rule evolves_update) (simp add: renewed_def later_def)

lemma bulk_apply_evolves: "bulk_apply tid rs db = Some db' \<Longrightarrow> evolves used (db_keys db) (db_keys db')"
proof (induction rs arbitrary: db)
  case (Cons r rs)
  then show ?case by (auto simp: Let_def split: if_splits intro: evolves_trans [OF evolves_renew])
qed simp

lemmas keys_unchanged_defs = CreateTenant_def SetTenantQuota_def CreateUser_def CreateSession_def ResolveSession_def
  store_DeleteSession_def Let_def

lemma tenancy_step_evolves:
  assumes "tenancy_step used s s'"
  shows "evolves used (db_keys (ts_db s)) (db_keys (ts_db s'))"
  using assms
proof cases
  case (delete_tenant ok tid r)
  then show ?thesis by (auto simp: DeleteTenant_def Let_def evolves_filter split: if_splits)
next
  case (create_key d ok now tid name role r)
  then show ?thesis
    by (auto simp: CreateAPIKey_def Let_def insert_key_def new_row_def has_key_iff intro!: evolves_insert
        split: if_splits sum.splits option.splits)
next
  case (create_preset d ok now tid name role pt r)
  then show ?thesis
    by (auto simp: CreateAPIKeyWithPlaintext_def Let_def insert_key_def new_row_def has_key_iff intro!: evolves_insert
        split: if_splits sum.splits option.splits)
next
  case (update_role ok actor tid kid role r)
  then show ?thesis
    by (auto simp: UpdateAPIKeyRole_def flushed_def later_def intro!: evolves_update split: if_splits option.splits)
next
  case (rotate ok actor tid kid seen pfx hash r)
  then show ?thesis
    by (auto simp: rotate_commit_def Let_def flushed_def evolves_renew split: if_splits option.splits)
next
  case (bulk_rotate ok actor tid rs r)
  then show ?thesis
    by (auto simp: bulk_commit_def flushed_def bulk_apply_evolves split: if_splits option.splits)
next
  case (delete_key ok actor tid kid r)
  then show ?thesis
    by (auto simp: DeleteAPIKey_def Let_def flushed_def evolves_filter split: if_splits option.splits)
qed (auto simp: keys_unchanged_defs split: if_splits option.splits sum.splits)

text \<open>No operation leaves a row without the row it refers to, or two rows with one identifier.\<close>

lemma tenancy_step_wf:
  assumes "tenancy_step used s s'" "tenancy_wf (ts_db s)"
  shows "tenancy_wf (ts_db s')"
  using assms(1) by cases (erule store_wf_intros [OF _ assms(2)])+

section \<open>The replicated system\<close>

text \<open>
  The database, the cache of each replica, and the calls of \<^verbatim>\<open>Resolve\<close> that wait: for the check of a cached
  principal, or for the comparisons with the rows they selected. The history is auxiliary: the hash that each
  version of each key had.
\<close>

datatype resolve_call = Recheck nat string principal | Compare nat string "key_row list"

type_synonym key_history = "string \<times> int \<rightharpoonup> string"

record replicas =
  rp_db :: tenancy_db
  rp_caches :: "nat \<Rightarrow> auth_cache option"
  rp_calls :: "resolve_call multiset"
  rp_history :: key_history

definition remember :: "key_row list \<Rightarrow> key_history \<Rightarrow> key_history" where
  "remember ks h = h ++ map_of (map (\<lambda>k. ((kr_id k, kr_version k), kr_hash k)) ks)"

definition replica :: "replicas \<Rightarrow> nat \<Rightarrow> tenancy_store" where
  "replica y r = \<lparr>ts_db = rp_db y, ts_cache = rp_caches y r\<rparr>"

definition put_replica :: "nat \<Rightarrow> tenancy_store \<Rightarrow> replicas \<Rightarrow> replicas" where
  "put_replica r s y =
     y\<lparr>rp_db := ts_db s, rp_caches := (rp_caches y)(r := ts_cache s), rp_history := remember (db_keys (ts_db s)) (rp_history y)\<rparr>"

definition no_keys :: "replicas \<Rightarrow> bool" where
  "no_keys y \<longleftrightarrow> db_keys (rp_db y) = [] \<and> rp_calls y = {#} \<and> rp_history y = Map.empty \<and> (\<forall>r. cached (rp_caches y r) = {})"

text \<open>\<open>presented\<close> holds the keys that callers present in the run.\<close>

inductive replicas_step :: "sha256 \<Rightarrow> (string \<Rightarrow> string \<Rightarrow> bool) \<Rightarrow> string set \<Rightarrow> replicas \<Rightarrow> replicas \<Rightarrow> bool"
  for sha :: sha256 and compare :: "string \<Rightarrow> string \<Rightarrow> bool" and presented :: "string set" where
  operation: "tenancy_step (fst ` dom (rp_history y)) (replica y r) s \<Longrightarrow> replicas_step sha compare presented y (put_replica r s y)"
| restart: "cached c = {} \<Longrightarrow> replicas_step sha compare presented y (y\<lparr>rp_caches := (rp_caches y)(r := c)\<rparr>)"
| lookup: "pt \<in> presented \<Longrightarrow> resolve_lookup sha tm pt (rp_caches y r) = (phase, c) \<Longrightarrow>
    replicas_step sha compare presented y
      (y\<lparr>rp_caches := (rp_caches y)(r := c),
         rp_calls := rp_calls y + (case phase of CacheHit p \<Rightarrow> {#Recheck r pt p#} | _ \<Rightarrow> {#})\<rparr>)"
| recheck: "Recheck r pt p \<in># rp_calls y \<Longrightarrow> resolve_recheck ok p (replica y r) = (res, s) \<Longrightarrow>
    replicas_step sha compare presented y (put_replica r s (y\<lparr>rp_calls := rp_calls y - {#Recheck r pt p#}\<rparr>))"
| select: "pt \<in> presented \<Longrightarrow> resolve_select ok pt (rp_db y) = Inr candidates \<Longrightarrow>
    replicas_step sha compare presented y (y\<lparr>rp_calls := rp_calls y + {#Compare r pt candidates#}\<rparr>)"
| finish: "Compare r pt candidates \<in># rp_calls y \<Longrightarrow>
    resolve_finish sha compare ok tm pt candidates (replica y r) = (res, s) \<Longrightarrow>
    replicas_step sha compare presented y (put_replica r s (y\<lparr>rp_calls := rp_calls y - {#Compare r pt candidates#}\<rparr>))"

inductive replicas_reachable :: "sha256 \<Rightarrow> (string \<Rightarrow> string \<Rightarrow> bool) \<Rightarrow> string set \<Rightarrow> replicas \<Rightarrow> bool"
  for sha :: sha256 and compare :: "string \<Rightarrow> string \<Rightarrow> bool" and presented :: "string set" where
  start: "no_keys y \<Longrightarrow> replicas_reachable sha compare presented y"
| step: "replicas_reachable sha compare presented y \<Longrightarrow> replicas_step sha compare presented y y' \<Longrightarrow>
    replicas_reachable sha compare presented y'"

section \<open>The invariant\<close>

definition key_history_ok :: "key_row list \<Rightarrow> key_history \<Rightarrow> bool" where
  "key_history_ok ks h \<longleftrightarrow> distinct (map kr_id ks) \<and>
     (\<forall>k \<in> set ks. h (kr_id k, kr_version k) = Some (kr_hash k) \<and> (\<forall>v. h (kr_id k, v) \<noteq> None \<longrightarrow> v \<le> kr_version k))"

definition proved :: "(string \<Rightarrow> string \<Rightarrow> bool) \<Rightarrow> key_history \<Rightarrow> string \<Rightarrow> principal \<Rightarrow> bool" where
  "proved compare h pt p \<longleftrightarrow> (\<exists>hash. h (pl_KeyID p, pl_CredentialVersion p) = Some hash \<and> compare hash pt)"

fun replica_call_ok :: "(string \<Rightarrow> string \<Rightarrow> bool) \<Rightarrow> string set \<Rightarrow> key_history \<Rightarrow> resolve_call \<Rightarrow> bool" where
  "replica_call_ok compare presented h (Recheck r pt p) \<longleftrightarrow> pt \<in> presented \<and> proved compare h pt p"
| "replica_call_ok compare presented h (Compare r pt cs) \<longleftrightarrow>
     pt \<in> presented \<and> (\<forall>c \<in> set cs. h (kr_id c, kr_version c) = Some (kr_hash c))"

definition proofs_ok :: "sha256 \<Rightarrow> (string \<Rightarrow> string \<Rightarrow> bool) \<Rightarrow> string set \<Rightarrow> key_history \<Rightarrow> auth_cache option \<Rightarrow> bool" where
  "proofs_ok sha compare presented h c \<longleftrightarrow>
     (\<forall>(digest, p) \<in> cached c. \<exists>pt \<in> presented. digest = hashKey sha pt \<and> proved compare h pt p)"

definition replicas_inv :: "sha256 \<Rightarrow> (string \<Rightarrow> string \<Rightarrow> bool) \<Rightarrow> string set \<Rightarrow> replicas \<Rightarrow> bool" where
  "replicas_inv sha compare presented y \<longleftrightarrow> key_history_ok (db_keys (rp_db y)) (rp_history y) \<and>
     (\<forall>r. proofs_ok sha compare presented (rp_history y) (rp_caches y r)) \<and>
     (\<forall>c \<in># rp_calls y. replica_call_ok compare presented (rp_history y) c)"

lemma remember_get:
  assumes "distinct (map kr_id ks)"
  shows "remember ks h (i, v) =
    (case find (\<lambda>k. kr_id k = i \<and> kr_version k = v) ks of Some k \<Rightarrow> Some (kr_hash k) | None \<Rightarrow> h (i, v))"
  unfolding remember_def map_add_def by (induction ks) auto

lemma remember_cases:
  assumes "distinct (map kr_id ks)"
  obtains k where "k \<in> set ks" "kr_id k = i" "kr_version k = v" "remember ks h (i, v) = Some (kr_hash k)"
  | "\<forall>k \<in> set ks. \<not> (kr_id k = i \<and> kr_version k = v)" "remember ks h (i, v) = h (i, v)"
proof (cases "find (\<lambda>k. kr_id k = i \<and> kr_version k = v) ks")
  case None
  then have "remember ks h (i, v) = h (i, v)" by (simp add: remember_get [OF assms])
  moreover have "\<forall>k \<in> set ks. \<not> (kr_id k = i \<and> kr_version k = v)" using None by (auto simp: find_None_iff)
  ultimately show thesis using that(2) by blast
next
  case (Some k)
  then have "remember ks h (i, v) = Some (kr_hash k)" by (simp add: remember_get [OF assms])
  moreover have "k \<in> set ks" "kr_id k = i" "kr_version k = v" using Some by (auto simp: find_Some_iff)
  ultimately show thesis using that(1) by blast
qed

lemma history_evolves:
  assumes ok: "key_history_ok ks h" and ev: "evolves (fst ` dom h) ks ks'"
  shows "key_history_ok ks' (remember ks' h)" "h \<subseteq>\<^sub>m remember ks' h"
proof -
  have distinct: "distinct (map kr_id ks')" using ok ev by (simp add: key_history_ok_def evolves_def)
  have same: "k = k'" if "k \<in> set ks'" "k' \<in> set ks'" "kr_id k = kr_id k'" for k k'
    using distinct that by (auto simp: distinct_map dest: inj_onD)
  have old: "h (kr_id k', v) = None \<or> v < kr_version k' \<or> v = kr_version k' \<and> h (kr_id k', v) = Some (kr_hash k')"
    if mem: "k' \<in> set ks'" for k' v
  proof (cases "kr_id k' \<in> fst ` dom h")
    case True
    then obtain k where k: "k \<in> set ks" "later k k'" using ev mem unfolding evolves_def by blast
    have "h (kr_id k, kr_version k) = Some (kr_hash k)" "h (kr_id k, v) \<noteq> None \<longrightarrow> v \<le> kr_version k"
      using ok k(1) by (auto simp: key_history_ok_def)
    then show ?thesis using k(2) by (auto simp: later_def)
  next
    case False
    then show ?thesis by (force simp: image_iff)
  qed
  show "h \<subseteq>\<^sub>m remember ks' h"
  proof (unfold map_le_def, intro ballI)
    fix x assume x: "x \<in> dom h"
    obtain i v where [simp]: "x = (i, v)" by fastforce
    have "h (i, v) \<noteq> None" using x by auto
    then show "h x = remember ks' h x"
      by (cases rule: remember_cases [OF distinct, of i v h]) (use old in force)+
  qed
  show "key_history_ok ks' (remember ks' h)"
    unfolding key_history_ok_def
  proof (intro conjI ballI distinct allI impI)
    fix k v assume k: "k \<in> set ks'"
    show "remember ks' h (kr_id k, kr_version k) = Some (kr_hash k)"
      by (rule remember_cases [OF distinct, of "kr_id k" "kr_version k" h]) (use k same in auto)
    assume some: "remember ks' h (kr_id k, v) \<noteq> None"
    show "v \<le> kr_version k"
      by (rule remember_cases [OF distinct, of "kr_id k" v h]) (use k same old [OF k, of v] some in auto)
  qed
qed

lemma proved_mono: "proved compare h pt p \<Longrightarrow> h \<subseteq>\<^sub>m h' \<Longrightarrow> proved compare h' pt p"
  unfolding proved_def map_le_def by (metis domI)

lemma proofs_ok_mono: "proofs_ok sha compare P h c \<Longrightarrow> h \<subseteq>\<^sub>m h' \<Longrightarrow> cached c' \<subseteq> cached c \<Longrightarrow> proofs_ok sha compare P h' c'"
  unfolding proofs_ok_def using proved_mono by fastforce

lemma replica_call_ok_mono: "replica_call_ok compare P h c \<Longrightarrow> h \<subseteq>\<^sub>m h' \<Longrightarrow> replica_call_ok compare P h' c"
  by (cases c) (auto simp: proved_mono map_le_def, metis domI)

lemma key_history_remember: "key_history_ok ks h \<Longrightarrow> remember ks h = h"
proof -
  assume "key_history_ok ks h"
  then have "distinct (map kr_id ks)" "\<forall>k \<in> set ks. h (kr_id k, kr_version k) = Some (kr_hash k)"
    by (auto simp: key_history_ok_def)
  then have "remember ks h (i, v) = h (i, v)" for i v
    by (cases rule: remember_cases [of ks i v h]) auto
  then show ?thesis by auto
qed

text \<open>No operation adds a proof to a cache, and \<^verbatim>\<open>Resolve\<close> adds the one it made.\<close>

lemma tenancy_step_cached: "tenancy_step used s s' \<Longrightarrow> cached (ts_cache s') \<subseteq> cached (ts_cache s)"
  by (cases rule: tenancy_step.cases, assumption)
    (auto simp: CreateTenant_def DeleteTenant_def CreateAPIKey_def CreateAPIKeyWithPlaintext_def UpdateAPIKeyRole_def
      rotate_commit_def bulk_commit_def DeleteAPIKey_def SetTenantQuota_def CreateUser_def CreateSession_def
      ResolveSession_def store_DeleteSession_def flushed_def insert_key_def Let_def split: if_splits option.splits sum.splits)

lemma resolve_recheck_frame:
  "resolve_recheck ok p s = (res, s') \<Longrightarrow> ts_db s' = ts_db s \<and> cached (ts_cache s') \<subseteq> cached (ts_cache s)"
  by (auto simp: resolve_recheck_def flushed_def split: if_splits option.splits)

lemma resolve_finish_frame:
  assumes "resolve_finish sha compare ok tm pt cs s = (res, s')"
  shows "evolves used (db_keys (ts_db s)) (db_keys (ts_db s'))"
    "cached (ts_cache s') \<subseteq> cached (ts_cache s) \<union>
       {(hashKey sha pt, principal_of c) | c. c \<in> set cs \<and> compare (kr_hash c) pt}"
proof -
  have bump: "evolves used (db_keys db) (db_keys (update_keys Q (\<lambda>k. k\<lparr>kr_last_used := t\<rparr>) db))" for Q t db
    by (rule evolves_update) (simp add: later_def)
  consider "ts_db s' = ts_db s" "cached (ts_cache s') = cached (ts_cache s)"
    | c where "find (\<lambda>c. compare (kr_hash c) pt) cs = Some c"
      "evolves used (db_keys (ts_db s)) (db_keys (ts_db s'))"
      "cached (ts_cache s') \<subseteq> insert (hashKey sha pt, principal_of c) (cached (ts_cache s))"
    using assms authCache_Set_cached [of sha "tm 4" "tm 5" pt _ "ts_cache s"] bump
    by (cases "find (\<lambda>c. compare (kr_hash c) pt) cs") (auto simp: resolve_finish_def split: if_splits)
  note frame = this
  show "evolves used (db_keys (ts_db s)) (db_keys (ts_db s'))" by (rule frame) simp_all
  show "cached (ts_cache s') \<subseteq> cached (ts_cache s) \<union>
       {(hashKey sha pt, principal_of c) | c. c \<in> set cs \<and> compare (kr_hash c) pt}"
    by (rule frame) (auto simp: find_Some_iff)
qed

lemma put_replica_inv:
  assumes inv: "replicas_inv sha compare P y"
    and ev: "evolves (fst ` dom (rp_history y)) (db_keys (rp_db y)) (db_keys (ts_db s))"
    and proofs: "\<And>h. rp_history y \<subseteq>\<^sub>m h \<Longrightarrow> proofs_ok sha compare P h (ts_cache s)"
    and calls: "rp_calls y' \<subseteq># rp_calls y" and same: "rp_db y' = rp_db y" "rp_caches y' = rp_caches y" "rp_history y' = rp_history y"
  shows "replicas_inv sha compare P (put_replica r s y')"
proof -
  let ?h = "remember (db_keys (ts_db s)) (rp_history y)"
  have ok: "key_history_ok (db_keys (rp_db y)) (rp_history y)" using inv by (simp add: replicas_inv_def)
  note h = history_evolves [OF ok ev]
  have "proofs_ok sha compare P ?h (rp_caches y r')" for r'
    using inv by (intro proofs_ok_mono [OF _ h(2) order_refl]) (simp add: replicas_inv_def)
  moreover have "replica_call_ok compare P ?h c" if "c \<in># rp_calls y'" for c
    using inv that calls replica_call_ok_mono [OF _ h(2)] by (auto simp: replicas_inv_def dest: mset_subset_eqD)
  ultimately show ?thesis using h(1) proofs [OF h(2)] by (simp add: replicas_inv_def put_replica_def same)
qed

lemma replicas_step_inv:
  assumes inj: "inj_on (hashKey sha) presented"
    and "replicas_step sha compare presented y y'" "replicas_inv sha compare presented y"
  shows "replicas_inv sha compare presented y'"
  using assms(2)
proof cases
  case (operation r s)
  show ?thesis unfolding operation(1)
    by (rule put_replica_inv [OF assms(3)])
      (use tenancy_step_evolves [OF operation(2)] tenancy_step_cached [OF operation(2)] assms(3)
        in \<open>auto simp: replica_def replicas_inv_def intro: proofs_ok_mono\<close>)
next
  case (restart c r)
  then show ?thesis using assms(3) by (auto simp: replicas_inv_def proofs_ok_def)
next
  case (lookup pt tm r phase c)
  have sub: "cached c \<subseteq> cached (rp_caches y r)"
    using lookup(3) authCache_Get_cached by (auto simp: resolve_lookup_def split: if_splits prod.splits option.splits)
  have hit: "proved compare (rp_history y) pt p" if "phase = CacheHit p" for p
  proof -
    have "(hashKey sha pt, p) \<in> cached (rp_caches y r)"
      using lookup(3) that authCache_Get_hit by (auto simp: resolve_lookup_def split: if_splits prod.splits option.splits)
    then obtain pt' where "pt' \<in> presented" "hashKey sha pt = hashKey sha pt'" "proved compare (rp_history y) pt' p"
      using assms(3) by (fastforce simp: replicas_inv_def proofs_ok_def)
    then show ?thesis using inj lookup(2) by (auto dest: inj_onD)
  qed
  show ?thesis using assms(3) lookup(2) sub hit
    by (auto simp: lookup(1) replicas_inv_def split: resolve_phase.splits intro: proofs_ok_mono)
next
  case (recheck r pt p ok res s)
  show ?thesis unfolding recheck(1)
    by (rule put_replica_inv [OF assms(3)])
      (use resolve_recheck_frame [OF recheck(3)] assms(3) in \<open>auto simp: replica_def replicas_inv_def intro: proofs_ok_mono\<close>)
next
  case (select pt ok candidates r)
  then show ?thesis using assms(3)
    by (auto simp: replicas_inv_def resolve_select_def key_history_ok_def split: if_splits)
next
  case (finish r pt candidates ok tm res s)
  have call: "pt \<in> presented" "\<forall>c \<in> set candidates. rp_history y (kr_id c, kr_version c) = Some (kr_hash c)"
    using assms(3) finish(2) by (auto simp: replicas_inv_def)
  show ?thesis unfolding finish(1)
  proof (rule put_replica_inv [OF assms(3)])
    fix h assume le: "rp_history y \<subseteq>\<^sub>m h"
    have "proved compare h pt (principal_of c)" if "c \<in> set candidates" "compare (kr_hash c) pt" for c
      using that call(2) by (intro proved_mono [OF _ le]) (auto simp: proved_def principal_of_def)
    moreover have "proofs_ok sha compare presented h (rp_caches y r)"
      using assms(3) by (intro proofs_ok_mono [OF _ le order_refl]) (simp add: replicas_inv_def)
    ultimately show "proofs_ok sha compare presented h (ts_cache s)"
      using resolve_finish_frame(2) [OF finish(3)] call(1) by (fastforce simp: proofs_ok_def replica_def)
  qed (use resolve_finish_frame(1) [OF finish(3)] in \<open>auto simp: replica_def\<close>)
qed

lemma replicas_reachable_inv:
  assumes "replicas_reachable sha compare presented y" "inj_on (hashKey sha) presented"
  shows "replicas_inv sha compare presented y"
  using assms
proof induction
  case (start y)
  then show ?case by (simp add: no_keys_def replicas_inv_def key_history_ok_def proofs_ok_def)
next
  case (step y y')
  then show ?case using replicas_step_inv by blast
qed

section \<open>A proof is worth the row\<close>

text \<open>The check of a cached principal, whenever it runs: the version pins the hash that the proof was about.\<close>

lemma resolve_recheck_sound:
  assumes inv: "key_history_ok (db_keys (ts_db s)) h" and "proved compare h pt p"
    and res: "resolve_recheck ok p s = (Inr q, s')"
  shows "\<exists>k \<in> set (db_keys (ts_db s)). principal_of k = q \<and> compare (kr_hash k) pt"
proof -
  obtain k where k: "k \<in> set (db_keys (ts_db s))" "kr_id k = pl_KeyID p" "kr_tenant k = pl_TenantID p"
    "kr_version k = pl_CredentialVersion p" "q = p\<lparr>pl_Role := kr_role k\<rparr>"
    using res by (auto simp: resolve_recheck_def split: if_splits option.splits dest!: find_SomeD)
  moreover have "h (kr_id k, kr_version k) = Some (kr_hash k)" using inv k(1) by (auto simp: key_history_ok_def)
  ultimately show ?thesis using assms(2) by (intro bexI [of _ k]) (auto simp: proved_def principal_of_def)
qed

lemma resolve_finish_sound:
  assumes "resolve_finish sha compare ok tm pt cs s = (Inr q, s')"
  shows "\<exists>k \<in> set cs. principal_of k = q \<and> compare (kr_hash k) pt"
  using assms by (auto simp: resolve_finish_def find_Some_iff split: option.splits)

lemma lookup_hit_proved:
  assumes "resolve_lookup sha tm pt (rp_caches y r) = (CacheHit p, c)" "pt \<in> presented" "inj_on (hashKey sha) presented"
    "replicas_inv sha compare presented y"
  shows "proved compare (rp_history y) pt p"
proof -
  have "(hashKey sha pt, p) \<in> cached (rp_caches y r)"
    using assms(1) authCache_Get_hit by (auto simp: resolve_lookup_def split: if_splits prod.splits option.splits)
  then obtain pt' where "pt' \<in> presented" "hashKey sha pt = hashKey sha pt'" "proved compare (rp_history y) pt' p"
    using assms(4) by (fastforce simp: replicas_inv_def proofs_ok_def)
  then show ?thesis using assms(2,3) by (auto dest: inj_onD)
qed

lemma Resolve_current:
  assumes inj: "inj_on (hashKey sha) presented" and run: "replicas_reachable sha compare presented y" "pt \<in> presented"
    and res: "Resolve sha compare ok ok' tm pt (replica y r) = (Inr p, s')"
  shows "\<exists>k \<in> set (db_keys (rp_db y)). principal_of k = p \<and> compare (kr_hash k) pt"
proof -
  have inv: "replicas_inv sha compare presented y" by (rule replicas_reachable_inv [OF run(1) inj])
  obtain phase c where l: "resolve_lookup sha tm pt (rp_caches y r) = (phase, c)" by fastforce
  show ?thesis
  proof (cases phase)
    case (ResolveDone e)
    then show ?thesis using res l by (simp add: Resolve_def replica_def)
  next
    case (CacheHit q)
    then have "proved compare (rp_history y) pt q" using lookup_hit_proved l run(2) inj inv by blast
    moreover have "resolve_recheck ok q (replica y r\<lparr>ts_cache := c\<rparr>) = (Inr p, s')"
      using res l CacheHit by (simp add: Resolve_def replica_def)
    ultimately show ?thesis
      using resolve_recheck_sound [of "replica y r\<lparr>ts_cache := c\<rparr>" "rp_history y"] inv by (simp add: replica_def replicas_inv_def)
  next
    case CacheMiss
    then show ?thesis
      using res l by (auto simp: Resolve_def replica_def resolve_select_def split: sum.splits if_splits dest!: resolve_finish_sound)
  qed
qed

text \<open>
  Whatever the replicas did to the shared database and to their caches, and in whatever order: a key that
  \<^verbatim>\<open>Resolve\<close> accepts has a row at that moment, whose hash accepts the presented secret and whose tenant, role and
  version are those of the principal. (No two of the secrets presented have the same SHA-256 digest.)
\<close>

theorem Resolve_sound:
  assumes "inj_on (hashKey sha) presented" "replicas_reachable sha compare presented y" "pt \<in> presented"
    "Resolve sha compare ok ok' tm pt (replica y r) = (Inr p, s')"
  shows "\<exists>k \<in> set (db_keys (rp_db y)). principal_of k = p \<and> compare (kr_hash k) pt"
  by (rule Resolve_current [OF assms])

section \<open>Revocation\<close>

lemma RotateAPIKey_commit:
  assumes "RotateAPIKey ok ok' d actor tid kid s = (Inr (nk, old), s')"
  obtains seen pfx hash where "generateAPIKey (kd_prefix d) (kd_secret d) = Some (nk_Plaintext nk, pfx)"
    "kd_gen d (nk_Plaintext nk) = Some hash" "rotate_commit ok' actor tid kid seen pfx hash s = (Inr (), s')"
    "find_key kid tid (ts_db s) = Some seen"
  using assms by (auto simp: RotateAPIKey_def rotate_read_def rotated_key_def split: sum.splits option.splits prod.splits if_splits)

lemma find_key_unique:
  assumes "distinct (map kr_id (db_keys db))" "find_key kid tid db = Some k" "k' \<in> set (db_keys db)" "kr_id k' = kid"
  shows "k' = k"
proof -
  have "k \<in> set (db_keys db)" "kr_id k = kid" using assms(2) by (auto simp: find_key_def find_Some_iff)
  then show ?thesis using assms(1,3,4) by (auto simp: distinct_map dest: inj_onD)
qed

lemma rotate_commit_renews:
  assumes "distinct (map kr_id (db_keys (ts_db s)))" "rotate_commit ok actor tid kid seen pfx hash s = (Inr (), s')"
    "find_key kid tid (ts_db s) = Some seen" "k \<in> set (db_keys (ts_db s'))" "kr_id k = kid"
  shows "k = renewed pfx hash seen"
proof -
  have seen: "seen \<in> set (db_keys (ts_db s))" "kr_id seen = kid" "kr_tenant seen = tid"
    using assms(3) by (auto simp: find_key_def find_Some_iff)
  let ?P = "\<lambda>k. kr_id k = kid \<and> kr_tenant k = tid \<and> kr_prefix k = kr_prefix seen \<and> kr_role k = kr_role seen \<and> kr_version k = kr_version seen"
  have "ts_db s' = update_keys ?P (renewed pfx hash) (ts_db s)"
    using assms(2,3) by (auto simp: rotate_commit_def flushed_def Let_def split: if_splits)
  then obtain k0 where k0: "k0 \<in> set (db_keys (ts_db s))" "k = (if ?P k0 then renewed pfx hash k0 else k0)"
    using assms(4) by (auto simp: update_keys_def)
  then have "kr_id k0 = kid" using assms(5) by (auto simp: renewed_def split: if_splits)
  then have "k0 = seen" using find_key_unique [OF assms(1,3) k0(1)] by simp
  then show ?thesis using k0(2) seen by simp
qed

text \<open>
  C16. After a rotation has returned, no replica resolves the old secret to that key, not even one that has it in
  its cache. (The old secret is one that the hash of the new secret does not accept.)
\<close>

theorem RotateAPIKey_revokes:
  assumes "inj_on (hashKey sha) presented" "replicas_reachable sha compare presented y" "pt \<in> presented"
    and "RotateAPIKey ok ok' d actor tid kid (replica y r) = (Inr (nk, old), s)"
    and "\<forall>hash. kd_gen d (nk_Plaintext nk) = Some hash \<longrightarrow> \<not> compare hash pt"
  shows "\<nexists>p s'. Resolve sha compare ok1 ok2 tm pt (replica (put_replica r s y) r') = (Inr p, s') \<and> pl_KeyID p = kid"
proof
  assume "\<exists>p s'. Resolve sha compare ok1 ok2 tm pt (replica (put_replica r s y) r') = (Inr p, s') \<and> pl_KeyID p = kid"
  then obtain p s' where res: "Resolve sha compare ok1 ok2 tm pt (replica (put_replica r s y) r') = (Inr p, s')" and kid: "pl_KeyID p = kid"
    by blast
  obtain seen pfx hash where c: "kd_gen d (nk_Plaintext nk) = Some hash"
    "rotate_commit ok' actor tid kid seen pfx hash (replica y r) = (Inr (), s)" "find_key kid tid (rp_db y) = Some seen"
    by (rule RotateAPIKey_commit [OF assms(4)]) (simp add: replica_def)
  have step: "replicas_step sha compare presented y (put_replica r s y)"
    by (rule replicas_step.operation [OF tenancy_step.rotate [OF c(2)]])
  have distinct: "distinct (map kr_id (db_keys (rp_db y)))"
    using replicas_reachable_inv [OF assms(2,1)] by (simp add: replicas_inv_def key_history_ok_def)
  obtain k where k: "k \<in> set (db_keys (ts_db s))" "principal_of k = p" "compare (kr_hash k) pt"
    using Resolve_current [OF assms(1) replicas_reachable.step [OF assms(2) step] assms(3) res] by (auto simp: put_replica_def)
  then have "k = renewed pfx hash seen"
    using rotate_commit_renews [OF _ c(2), of k] c(3) distinct kid by (auto simp: replica_def principal_of_def)
  then show False using k(3) c(1) assms(5) by (simp add: renewed_def)
qed

section \<open>A run\<close>

definition sample_replicas :: replicas where
  "sample_replicas = \<lparr>rp_db = ts_db sample_tenancy, rp_caches = (\<lambda>r. ts_cache sample_tenancy), rp_calls = {#}, rp_history = Map.empty\<rparr>"

definition sample_keyed :: replicas where
  "sample_keyed = put_replica 0 (snd (CreateAPIKey True sample_key_draws 0 ''ten_1'' ''ci'' RoleAdmin (replica sample_replicas 0))) sample_replicas"

definition sample_key :: string where
  "sample_key = fst (the (generateAPIKey (Some [0, 0, 0, 1]) (Some (replicate 24 7))))"

lemma sample_keyed_reachable: "replicas_reachable (\<lambda>_. []) (=) {sample_key} sample_keyed"
proof -
  have 0: "replicas_reachable (\<lambda>_. []) (=) {sample_key} sample_replicas"
    by (rule replicas_reachable.start) (simp add: no_keys_def sample_replicas_def sample_tenancy_def newAuthCache_def cached_def)
  have "tenancy_step {} (replica sample_replicas 0) (snd (CreateAPIKey True sample_key_draws 0 ''ten_1'' ''ci'' RoleAdmin (replica sample_replicas 0)))"
    by (rule tenancy_step.create_key [OF _ prod.collapse [symmetric]]) simp
  then have "replicas_step (\<lambda>_. []) (=) {sample_key} sample_replicas sample_keyed"
    unfolding sample_keyed_def by (intro replicas_step.operation) (simp add: sample_replicas_def)
  with 0 show ?thesis by (rule replicas_reachable.step)
qed

lemma sample_resolves:
  "Resolve (\<lambda>_. []) (=) True True (\<lambda>_. 0) sample_key (replica sample_keyed 1) =
     (Inr \<lparr>pl_TenantID = ''ten_1'', pl_KeyID = ''key_0101010101010101'', pl_Role = RoleAdmin, pl_CredentialVersion = 1\<rparr>,
      snd (Resolve (\<lambda>_. []) (=) True True (\<lambda>_. 0) sample_key (replica sample_keyed 1)))"
proof -
  have "fst (Resolve (\<lambda>_. []) (=) True True (\<lambda>_. 0) sample_key (replica sample_keyed 1)) =
     Inr \<lparr>pl_TenantID = ''ten_1'', pl_KeyID = ''key_0101010101010101'', pl_Role = RoleAdmin, pl_CredentialVersion = 1\<rparr>"
    by code_simp
  then show ?thesis by (metis prod.collapse)
qed

theorem Resolve_sound_witness:
  "\<exists>k \<in> set (db_keys (rp_db sample_keyed)).
     principal_of k = \<lparr>pl_TenantID = ''ten_1'', pl_KeyID = ''key_0101010101010101'', pl_Role = RoleAdmin, pl_CredentialVersion = 1\<rparr>
     \<and> kr_hash k = sample_key"
  by (rule Resolve_sound [OF _ sample_keyed_reachable _ sample_resolves]) simp_all

definition sample_rotated :: "(tenancy_error + new_api_key \<times> string) \<times> tenancy_store" where
  "sample_rotated = RotateAPIKey True True (sample_key_draws\<lparr>kd_secret := Some (replicate 24 9)\<rparr>) None ''ten_1'' ''key_0101010101010101''
     (replica sample_keyed 0)"

theorem RotateAPIKey_revokes_witness:
  "\<nexists>p s'. Resolve (\<lambda>_. []) (=) True True (\<lambda>_. 0) sample_key (replica (put_replica 0 (snd sample_rotated) sample_keyed) 1) = (Inr p, s')
      \<and> pl_KeyID p = ''key_0101010101010101''"
proof -
  have "case fst sample_rotated of Inr (nk, old) \<Rightarrow> nk_Plaintext nk \<noteq> sample_key | Inl e \<Rightarrow> False" by code_simp
  then obtain nk old where nk: "fst sample_rotated = Inr (nk, old)" "nk_Plaintext nk \<noteq> sample_key" by (auto split: sum.splits)
  have rotated: "RotateAPIKey True True (sample_key_draws\<lparr>kd_secret := Some (replicate 24 9)\<rparr>) None ''ten_1'' ''key_0101010101010101''
     (replica sample_keyed 0) = (Inr (nk, old), snd sample_rotated)"
    using nk(1) by (metis prod.collapse sample_rotated_def)
  show ?thesis
    by (rule RotateAPIKey_revokes [OF _ sample_keyed_reachable _ rotated]) (use nk(2) in \<open>simp_all add: sample_key_draws_def\<close>)
qed

end
