(* ===== verification/Auth_Limiter.thy ===== *)
theory Auth_Limiter
  imports Quota
begin

text \<open>
  The budget of failed authentications of a client address (\<^verbatim>\<open>internal/tenancy/auth_limiter.go\<close>). A request asks
  for leave when it begins and pays when it has failed, so requests in flight at the same time all pass on one
  token: the bound that holds has their number as a factor. The map of buckets is iterated when room is needed
  and is an association list.
\<close>

section \<open>The limiter\<close>

record fail_bucket =
  fb_tokens :: rat
  fb_last :: instant

record failure_limiter =
  fl_buckets :: "(string, fail_bucket) gomap"
  fl_perMinute :: rat

definition newFailureLimiter :: "int \<Rightarrow> failure_limiter" where
  "newFailureLimiter perMinute = \<lparr>fl_buckets = [], fl_perMinute = of_int perMinute\<rparr>"

definition minutes :: "duration \<Rightarrow> rat" where
  "minutes d = of_int d / of_int Minute"

definition refillLocked :: "rat \<Rightarrow> instant \<Rightarrow> fail_bucket \<Rightarrow> fail_bucket" where
  "refillLocked perMinute now b =
     (let tokens = fb_tokens b + minutes (time_Sub now (fb_last b)) * perMinute
      in \<lparr>fb_tokens = (if tokens > perMinute then perMinute else tokens), fb_last = now\<rparr>)"

definition limiter_allow :: "instant \<Rightarrow> string \<Rightarrow> failure_limiter \<Rightarrow> (bool \<times> duration) \<times> failure_limiter" where
  "limiter_allow now ip l =
     (case gm_get (fl_buckets l) ip of
        None \<Rightarrow> ((True, 0), l)
      | Some b0 \<Rightarrow>
          let b = refillLocked (fl_perMinute l) now b0; l' = l\<lparr>fl_buckets := gm_put ip b (fl_buckets l)\<rparr> in
          if fb_tokens b \<ge> 1 then ((True, 0), l')
          else ((False, duration_of_float ((1 - fb_tokens b) / fl_perMinute l * of_int Minute)), l'))"

abbreviation maxTrackedSources :: nat where
  "maxTrackedSources \<equiv> 10000"

definition discard_full :: "instant \<Rightarrow> failure_limiter \<Rightarrow> failure_limiter" where
  "discard_full now l =
     l\<lparr>fl_buckets := filter (\<lambda>(_, b). \<not> fb_tokens b \<ge> fl_perMinute l)
                       (map (\<lambda>(k, b). (k, refillLocked (fl_perMinute l) now b)) (fl_buckets l))\<rparr>"

definition limiter_fail :: "instant \<Rightarrow> string \<Rightarrow> failure_limiter \<Rightarrow> failure_limiter" where
  "limiter_fail now ip l =
     (let (b0, l1) =
        (case gm_get (fl_buckets l) ip of
           Some b \<Rightarrow> (b, l)
         | None \<Rightarrow> (\<lparr>fb_tokens = fl_perMinute l, fb_last = now\<rparr>,
                    if length (fl_buckets l) \<ge> maxTrackedSources then discard_full now l else l));
        b = refillLocked (fl_perMinute l) now b0;
        b' = (if fb_tokens b > 0 then b\<lparr>fb_tokens := fb_tokens b - 1\<rparr> else b)
      in l1\<lparr>fl_buckets := gm_put ip b' (fl_buckets l1)\<rparr>)"

text \<open>The process-wide limiter, absent when the limit is not positive.\<close>

abbreviation DefaultAuthFailuresPerMinute :: int where
  "DefaultAuthFailuresPerMinute \<equiv> 30"

definition SetAuthFailureLimit :: "int \<Rightarrow> failure_limiter option" where
  "SetAuthFailureLimit perMinute = (if perMinute \<le> 0 then None else Some (newFailureLimiter perMinute))"

definition authFailureAllowed :: "instant \<Rightarrow> string \<Rightarrow> failure_limiter option \<Rightarrow> (bool \<times> duration) \<times> failure_limiter option" where
  "authFailureAllowed now ip al =
     (case al of None \<Rightarrow> ((True, 0), None) | Some l \<Rightarrow> (case limiter_allow now ip l of (r, l') \<Rightarrow> (r, Some l')))"

definition recordAuthFailure :: "instant \<Rightarrow> string \<Rightarrow> failure_limiter option \<Rightarrow> failure_limiter option" where
  "recordAuthFailure now ip al = map_option (limiter_fail now ip) al"

section \<open>The level of a bucket\<close>

definition fail_level :: "string \<Rightarrow> instant \<Rightarrow> failure_limiter \<Rightarrow> rat" where
  "fail_level ip now l =
     (case gm_get (fl_buckets l) ip of None \<Rightarrow> fl_perMinute l | Some b \<Rightarrow> fb_tokens (refillLocked (fl_perMinute l) now b))"

definition fail_ready :: "string \<Rightarrow> rat \<Rightarrow> instant \<Rightarrow> failure_limiter \<Rightarrow> bool" where
  "fail_ready ip cap now l \<longleftrightarrow> 1 \<le> cap \<and> fl_perMinute l = cap \<and> gm_wf (fl_buckets l) \<and>
     (\<forall>b. gm_get (fl_buckets l) ip = Some b \<longrightarrow> fb_last b \<le> now \<and> - 1 < fb_tokens b \<and> fb_tokens b \<le> cap)"

definition fail_attempt :: "string \<Rightarrow> instant \<Rightarrow> failure_limiter \<Rightarrow> bool \<times> failure_limiter" where
  "fail_attempt ip now l = (0 < fail_level ip now l, limiter_fail now ip l)"

definition fail_frame :: "string \<Rightarrow> instant \<Rightarrow> failure_limiter \<Rightarrow> failure_limiter \<Rightarrow> bool" where
  "fail_frame ip now l l' \<longleftrightarrow> (\<exists>ip' r. limiter_allow now ip' l = (r, l')) \<or> (\<exists>ip'. ip' \<noteq> ip \<and> l' = limiter_fail now ip' l)"

lemma refill_tokens_min:
  "fb_tokens (refillLocked cap now b) = min cap (fb_tokens b + minutes (time_Sub now (fb_last b)) * cap)"
  by (auto simp: refillLocked_def min_def Let_def)

lemma refill_last_now [simp]: "fb_last (refillLocked cap now b) = now"
  by (simp add: refillLocked_def Let_def)

lemma refill_twice: "fb_tokens b \<le> cap \<Longrightarrow> fb_last b = now \<Longrightarrow> refillLocked cap now b = b"
  by (simp add: refillLocked_def minutes_def)

lemma minutes_nonneg: "u \<le> t \<Longrightarrow> 0 \<le> minutes (time_Sub t u)"
  using time_Sub_nonneg [of u t] by (simp add: minutes_def)

lemma refill_grows: "fb_last b \<le> now \<Longrightarrow> 0 \<le> cap \<Longrightarrow> fb_tokens b \<le> cap \<Longrightarrow> fb_tokens b \<le> fb_tokens (refillLocked cap now b)"
  using minutes_nonneg [of "fb_last b" now] by (simp add: refill_tokens_min)

lemma refill_at_most: "fb_tokens (refillLocked cap now b) \<le> cap"
  by (simp add: refill_tokens_min)

lemma level_bounds: "fail_ready ip cap now l \<Longrightarrow> - 1 < fail_level ip now l \<and> fail_level ip now l \<le> cap"
  using refill_grows [of _ now cap] refill_at_most [of cap now]
  by (force simp: fail_ready_def fail_level_def split: option.split)

lemma gm_get_map_snd: "gm_get (map (\<lambda>(k, v). (k, f v)) m) k = map_option f (gm_get m k)"
  by (induction m) auto

lemma gm_wf_map_snd: "gm_wf m \<Longrightarrow> gm_wf (map (\<lambda>(k, v). (k, f v)) m)"
  by (simp add: gm_wf_def comp_def split_def)

lemma discard_full_get:
  assumes "gm_wf (fl_buckets l)"
  shows "gm_wf (fl_buckets (discard_full now l))"
    "gm_get (fl_buckets (discard_full now l)) ip =
       (case gm_get (fl_buckets l) ip of
          None \<Rightarrow> None
        | Some b \<Rightarrow> let b' = refillLocked (fl_perMinute l) now b in if fb_tokens b' \<ge> fl_perMinute l then None else Some b')"
proof -
  let ?f = "refillLocked (fl_perMinute l) now"
  note wf = gm_wf_map_snd [OF assms, of ?f]
  show "gm_wf (fl_buckets (discard_full now l))" using wf by (simp add: discard_full_def)
  show "gm_get (fl_buckets (discard_full now l)) ip =
       (case gm_get (fl_buckets l) ip of
          None \<Rightarrow> None
        | Some b \<Rightarrow> let b' = ?f b in if fb_tokens b' \<ge> fl_perMinute l then None else Some b')"
    using gm_get_filter [OF wf, of "\<lambda>_ b. \<not> fb_tokens b \<ge> fl_perMinute l" ip]
    by (simp add: discard_full_def gm_get_map_snd Let_def split: option.split)
qed

lemma refill_ready:
  assumes "1 \<le> cap" "fb_last b \<le> now" "- 1 < fb_tokens b" "fb_tokens b \<le> cap"
  shows "- 1 < fb_tokens (refillLocked cap now b)" "fb_tokens (refillLocked cap now b) \<le> cap"
    "refillLocked cap now (refillLocked cap now b) = refillLocked cap now b"
  using refill_grows [of b now cap] refill_at_most [of cap now b] refill_twice [of "refillLocked cap now b" cap now] assms by auto

lemma discard_full_level:
  assumes "fail_ready ip cap now l"
  shows "fail_ready ip cap now (discard_full now l) \<and> fail_level ip now (discard_full now l) = fail_level ip now l"
proof -
  have wf: "gm_wf (fl_buckets l)" and cap: "1 \<le> cap" "fl_perMinute l = cap" using assms by (auto simp: fail_ready_def)
  note get = discard_full_get [OF wf, of now]
  have same: "fl_perMinute (discard_full now l) = cap" using cap by (simp add: discard_full_def)
  show ?thesis
  proof (cases "gm_get (fl_buckets l) ip")
    case None
    then show ?thesis using cap same get(1) get(2) [of ip] by (simp add: fail_ready_def fail_level_def)
  next
    case (Some b)
    then have b: "fb_last b \<le> now" "- 1 < fb_tokens b" "fb_tokens b \<le> cap" using assms by (auto simp: fail_ready_def)
    note r = refill_ready [OF cap(1) b]
    show ?thesis using Some cap same get(1) get(2) [of ip] r by (auto simp: fail_ready_def fail_level_def Let_def)
  qed
qed

lemma put_level:
  assumes "gm_wf (fl_buckets l)" "fl_perMinute l = cap" "1 \<le> cap" "fb_last b = now" "- 1 < fb_tokens b" "fb_tokens b \<le> cap"
  shows "fail_ready ip cap now (l\<lparr>fl_buckets := gm_put ip b (fl_buckets l)\<rparr>)"
    "fail_level ip now (l\<lparr>fl_buckets := gm_put ip b (fl_buckets l)\<rparr>) = fb_tokens b"
  using assms(1-3) refill_twice [OF assms(6,4)] assms(4-6) by (simp_all add: fail_ready_def fail_level_def)

lemma put_other_level:
  assumes "fail_ready ip cap now l" "ip' \<noteq> ip"
  shows "fail_ready ip cap now (l\<lparr>fl_buckets := gm_put ip' b (fl_buckets l)\<rparr>) \<and>
    fail_level ip now (l\<lparr>fl_buckets := gm_put ip' b (fl_buckets l)\<rparr>) = fail_level ip now l"
proof -
  let ?l = "l\<lparr>fl_buckets := gm_put ip' b (fl_buckets l)\<rparr>"
  have same: "gm_get (fl_buckets ?l) ip = gm_get (fl_buckets l) ip" "fl_perMinute ?l = fl_perMinute l" using assms(2) by simp_all
  have "gm_wf (fl_buckets ?l)" using assms(1) by (simp add: fail_ready_def)
  then show ?thesis using assms(1) by (simp only: fail_ready_def fail_level_def same) blast
qed

lemma limiter_allow_level:
  assumes "fail_ready ip cap now l" "limiter_allow now ip' l = (r, l')"
  shows "fail_ready ip cap now l' \<and> fail_level ip now l' = fail_level ip now l"
    "ip' = ip \<Longrightarrow> fst r \<longleftrightarrow> 1 \<le> fail_level ip now l"
proof -
  have cap: "1 \<le> cap" "fl_perMinute l = cap" using assms(1) by (auto simp: fail_ready_def)
  consider "l' = l" | b where "gm_get (fl_buckets l) ip' = Some b" "l' = l\<lparr>fl_buckets := gm_put ip' (refillLocked cap now b) (fl_buckets l)\<rparr>"
    using assms(2) cap(2) by (cases "gm_get (fl_buckets l) ip'") (auto simp: limiter_allow_def Let_def split: if_splits)
  then show "fail_ready ip cap now l' \<and> fail_level ip now l' = fail_level ip now l"
  proof cases
    case (2 b)
    show ?thesis
    proof (cases "ip' = ip")
      case True
      then have "fb_last b \<le> now" "- 1 < fb_tokens b" "fb_tokens b \<le> cap" using assms(1) 2(1) by (auto simp: fail_ready_def)
      note r = refill_ready [OF cap(1) this]
      have "gm_wf (fl_buckets l)" using assms(1) by (simp add: fail_ready_def)
      from put_level [OF this cap(2,1) refill_last_now r(1,2), of ip] show ?thesis using True 2 cap(2) by (simp add: fail_level_def)
    next
      case False
      then show ?thesis using put_other_level [OF assms(1)] 2(2) by blast
    qed
  qed (use assms(1) in simp)
  show "ip' = ip \<Longrightarrow> fst r \<longleftrightarrow> 1 \<le> fail_level ip now l"
    using assms(2) cap by (cases "gm_get (fl_buckets l) ip") (auto simp: limiter_allow_def fail_level_def Let_def split: if_splits)
qed

lemma limiter_fail_level:
  assumes "fail_ready ip cap now l"
  shows "fail_ready ip cap now (limiter_fail now ip l)"
    "fail_level ip now (limiter_fail now ip l) = fail_level ip now l - of_bool (0 < fail_level ip now l)"
proof -
  define l1 where "l1 = (if gm_get (fl_buckets l) ip = None \<and> length (fl_buckets l) \<ge> maxTrackedSources then discard_full now l else l)"
  define b where "b = refillLocked cap now (case gm_get (fl_buckets l) ip of Some b \<Rightarrow> b | None \<Rightarrow> \<lparr>fb_tokens = cap, fb_last = now\<rparr>)"
  have cap: "1 \<le> cap" "fl_perMinute l = cap" using assms by (auto simp: fail_ready_def)
  have l1: "gm_wf (fl_buckets l1)" "fl_perMinute l1 = cap"
    using assms cap discard_full_get(1) [of l now] by (auto simp: l1_def fail_ready_def discard_full_def)
  have b: "fb_tokens b = fail_level ip now l" "fb_last b = now"
    using cap refill_twice [of "\<lparr>fb_tokens = cap, fb_last = now\<rparr>" cap now]
    by (simp_all add: b_def fail_level_def split: option.split)
  have res: "limiter_fail now ip l =
      l1\<lparr>fl_buckets := gm_put ip (if fb_tokens b > 0 then b\<lparr>fb_tokens := fb_tokens b - 1\<rparr> else b) (fl_buckets l1)\<rparr>"
    using cap by (cases "gm_get (fl_buckets l) ip") (simp_all add: limiter_fail_def l1_def b_def Let_def)
  have lv: "- 1 < fb_tokens b" "fb_tokens b \<le> cap" using level_bounds [OF assms] b(1) by auto
  let ?b = "if fb_tokens b > 0 then b\<lparr>fb_tokens := fb_tokens b - 1\<rparr> else b"
  have "fb_last ?b = now" "- 1 < fb_tokens ?b" "fb_tokens ?b \<le> cap" using lv b(2) by auto
  note put = put_level [OF l1 cap(1) this, of ip]
  show "fail_ready ip cap now (limiter_fail now ip l)" unfolding res by (rule put)
  have "fail_level ip now (limiter_fail now ip l) = fb_tokens ?b" unfolding res by (rule put)
  also have "\<dots> = fb_tokens b - of_bool (0 < fb_tokens b)" by simp
  finally show "fail_level ip now (limiter_fail now ip l) = fail_level ip now l - of_bool (0 < fail_level ip now l)"
    by (simp only: b(1))
qed

lemma limiter_fail_other:
  assumes "fail_ready ip cap now l" "ip' \<noteq> ip"
  shows "fail_ready ip cap now (limiter_fail now ip' l) \<and> fail_level ip now (limiter_fail now ip' l) = fail_level ip now l"
proof -
  define l1 where "l1 = (if gm_get (fl_buckets l) ip' = None \<and> length (fl_buckets l) \<ge> maxTrackedSources then discard_full now l else l)"
  obtain b where res: "limiter_fail now ip' l = l1\<lparr>fl_buckets := gm_put ip' b (fl_buckets l1)\<rparr>"
    by (cases "gm_get (fl_buckets l) ip'") (simp_all add: limiter_fail_def Let_def l1_def)
  have "fail_ready ip cap now l1 \<and> fail_level ip now l1 = fail_level ip now l" using discard_full_level [OF assms(1)] assms(1) by (simp add: l1_def)
  then show ?thesis using put_other_level [of ip cap now l1, OF _ assms(2)] unfolding res by simp
qed

interpretation fb: token_bucket "fail_frame ip" "fail_attempt ip" "fail_ready ip cap" "fail_level ip" cap "cap / of_int Minute"
  for ip cap
proof (unfold_locales, goal_cases)
  case (1 t s)
  then show ?case using level_bounds by blast
next
  case (2 t s t')
  then have cap: "1 \<le> cap" "fl_perMinute s = cap" by (auto simp: fail_ready_def)
  have d: "0 \<le> cap / of_int Minute * of_int (t' - t)" using 2(2) cap(1) by simp
  show ?case
  proof (cases "gm_get (fl_buckets s) ip")
    case None
    then show ?thesis using d by (simp add: fail_level_def)
  next
    case (Some b)
    have "cap / of_int Minute * of_int (time_Sub t' (fb_last b)) \<le> cap / of_int Minute * of_int (time_Sub t (fb_last b) + (t' - t))"
    proof (rule mult_left_mono)
      show "rat_of_int (time_Sub t' (fb_last b)) \<le> of_int (time_Sub t (fb_last b) + (t' - t))"
        using time_Sub_step [OF 2(2), of "fb_last b"] by (simp only: of_int_le_iff)
    qed (use cap(1) in simp)
    moreover have grow: "min c (k + x') \<le> min c (k + x) + e" if "x' \<le> x + e" "0 \<le> e" for c k x x' e :: rat using that by linarith
    ultimately show ?thesis
      using Some cap(2) d by (simp add: fail_level_def refill_tokens_min minutes_def mult.commute [of _ cap] distrib_left flip: times_divide_eq_left)
  qed
next
  case (3 t s t')
  then show ?case by (fastforce simp: fail_ready_def)
next
  case (4 now s ok s')
  then show ?case using limiter_fail_level(1) by (auto simp: fail_attempt_def)
next
  case (5 now s ok s')
  then show ?case using limiter_fail_level(2) by (auto simp: fail_attempt_def)
next
  case (6 now s s')
  then show ?case using limiter_allow_level(1) limiter_fail_other by (auto simp: fail_frame_def)
next
  case (7 now s s')
  then show ?case using limiter_allow_level(1) limiter_fail_other by (fastforce simp: fail_frame_def)
qed

section \<open>A source under the limit\<close>

text \<open>
  The requests of one address among all others, at growing instants: \<open>k\<close> of them are between the question and
  their end, at most \<open>c\<close> at a time, and \<open>n\<close> have failed.
\<close>

inductive auth_source :: "string \<Rightarrow> nat \<Rightarrow> instant \<Rightarrow> failure_limiter \<Rightarrow> nat \<Rightarrow> nat \<Rightarrow> instant \<Rightarrow> failure_limiter \<Rightarrow> bool"
  for ip :: string and c :: nat and t0 :: instant and l0 :: failure_limiter where
  start: "auth_source ip c t0 l0 0 0 t0 l0"
| admit: "auth_source ip c t0 l0 k n t l \<Longrightarrow> t \<le> now \<Longrightarrow> k < c \<Longrightarrow>
    authFailureAllowed now ip (Some l) = ((True, d), Some l') \<Longrightarrow> auth_source ip c t0 l0 (Suc k) n now l'"
| refuse: "auth_source ip c t0 l0 k n t l \<Longrightarrow> t \<le> now \<Longrightarrow>
    authFailureAllowed now ip (Some l) = ((False, d), Some l') \<Longrightarrow> auth_source ip c t0 l0 k n now l'"
| succeed: "auth_source ip c t0 l0 (Suc k) n t l \<Longrightarrow> auth_source ip c t0 l0 k n t l"
| failure: "auth_source ip c t0 l0 (Suc k) n t l \<Longrightarrow> t \<le> now \<Longrightarrow>
    recordAuthFailure now ip (Some l) = Some l' \<Longrightarrow> auth_source ip c t0 l0 k (Suc n) now l'"
| other_asks: "auth_source ip c t0 l0 k n t l \<Longrightarrow> t \<le> now \<Longrightarrow> ip' \<noteq> ip \<Longrightarrow>
    authFailureAllowed now ip' (Some l) = (r, Some l') \<Longrightarrow> auth_source ip c t0 l0 k n now l'"
| other_fails: "auth_source ip c t0 l0 k n t l \<Longrightarrow> t \<le> now \<Longrightarrow> ip' \<noteq> ip \<Longrightarrow>
    recordAuthFailure now ip' (Some l) = Some l' \<Longrightarrow> auth_source ip c t0 l0 k n now l'"

text \<open>
  Each token that is paid covers the requests in flight: while the level is below one nobody is admitted, and the
  failures so far and those still to come are within \<open>c\<close> times the tokens paid.
\<close>

definition source_inv :: "string \<Rightarrow> nat \<Rightarrow> rat \<Rightarrow> instant \<Rightarrow> failure_limiter \<Rightarrow> nat \<Rightarrow> nat \<Rightarrow> instant \<Rightarrow> failure_limiter \<Rightarrow> bool" where
  "source_inv ip c cap t0 l0 k n t l \<longleftrightarrow> fail_ready ip cap t l \<and> k \<le> c \<and>
     (\<exists>m. admitted (fail_frame ip) (fail_attempt ip) t0 l0 m t l \<and> n \<le> c * m \<and> (fail_level ip t l < 1 \<longrightarrow> n + k \<le> c * m))"

lemma fail_ready_later: "fail_ready ip cap t l \<Longrightarrow> t \<le> now \<Longrightarrow> fail_ready ip cap now l"
  by (rule fb.ready_later)

lemma fail_level_later:
  assumes "fail_ready ip cap t l" "t \<le> now"
  shows "fail_level ip t l \<le> fail_level ip now l"
proof (cases "gm_get (fl_buckets l) ip")
  case (Some b)
  have "minutes (time_Sub t (fb_last b)) * cap \<le> minutes (time_Sub now (fb_last b)) * cap"
    using assms time_Sub_mono [OF assms(2), of "fb_last b"] by (intro mult_right_mono) (auto simp: minutes_def fail_ready_def divide_right_mono)
  moreover have "fl_perMinute l = cap" using assms(1) by (simp add: fail_ready_def)
  ultimately show ?thesis using Some by (simp add: fail_level_def refill_tokens_min min.coboundedI2)
qed (simp add: fail_level_def)

lemma source_inv_frame:
  assumes "source_inv ip c cap t0 l0 k n t l" "t \<le> now" "fail_frame ip now l l'" "fail_level ip now l' = fail_level ip now l"
    "k' \<le> k \<or> k' \<le> c \<and> 1 \<le> fail_level ip now l"
  shows "source_inv ip c cap t0 l0 k' n now l'"
proof -
  obtain m where m: "admitted (fail_frame ip) (fail_attempt ip) t0 l0 m t l" "n \<le> c * m" "fail_level ip t l < 1 \<longrightarrow> n + k \<le> c * m"
    and r: "fail_ready ip cap t l" "k \<le> c" using assms(1) by (auto simp: source_inv_def)
  note now = fail_ready_later [OF r(1) assms(2)]
  have "admitted (fail_frame ip) (fail_attempt ip) t0 l0 m now l'" by (rule admitted.other [OF m(1) assms(2,3)])
  moreover have "fail_ready ip cap now l'" by (rule fb.frame_ready [OF now assms(3)])
  moreover have "fail_level ip now l' < 1 \<longrightarrow> n + k' \<le> c * m"
    using m(3) assms(4,5) fail_level_later [OF r(1) assms(2)] by auto
  ultimately show ?thesis using m(2) r(2) assms(5) by (auto simp: source_inv_def)
qed

lemma source_inv_failure:
  assumes "source_inv ip c cap t0 l0 (Suc k) n t l" "t \<le> now"
  shows "source_inv ip c cap t0 l0 k (Suc n) now (limiter_fail now ip l)"
proof -
  obtain m where m: "admitted (fail_frame ip) (fail_attempt ip) t0 l0 m t l" "n \<le> c * m" "fail_level ip t l < 1 \<longrightarrow> n + Suc k \<le> c * m"
    and r: "fail_ready ip cap t l" "Suc k \<le> c" using assms(1) by (auto simp: source_inv_def)
  note now = fail_ready_later [OF r(1) assms(2)]
  let ?ok = "0 < fail_level ip now l"
  have run: "admitted (fail_frame ip) (fail_attempt ip) t0 l0 (m + of_bool ?ok) now (limiter_fail now ip l)"
    by (rule admitted.request [where attempt = "fail_attempt ip", OF m(1) assms(2)]) (simp add: fail_attempt_def)
  have "Suc n + k \<le> c * (m + of_bool ?ok)"
  proof (cases ?ok)
    case True
    then show ?thesis using m(2) r(2) by (simp add: distrib_left)
  next
    case False
    then show ?thesis using m(3) fail_level_later [OF r(1) assms(2)] by simp
  qed
  then show ?thesis using run limiter_fail_level(1) [OF now] r(2) unfolding source_inv_def by (intro conjI exI [of _ "m + of_bool ?ok"]) auto
qed

lemma auth_source_inv:
  assumes "auth_source ip c t0 l0 k n t l" "fail_ready ip cap t0 l0"
  shows "source_inv ip c cap t0 l0 k n t l"
  using assms
proof induction
  case start
  then show ?case using admitted.start [of "fail_frame ip" "fail_attempt ip" t0 l0] by (auto simp: source_inv_def intro!: exI [of _ 0])
next
  case (admit k n t l now d l')
  then have inv: "source_inv ip c cap t0 l0 k n t l" and a: "limiter_allow now ip l = ((True, d), l')"
    by (auto simp: authFailureAllowed_def split: prod.splits)
  have "fail_ready ip cap now l" using inv admit(2) fail_ready_later by (auto simp: source_inv_def)
  note lv = limiter_allow_level [OF this a]
  show ?case by (rule source_inv_frame [OF inv admit(2)]) (use a lv admit(3) in \<open>auto simp: fail_frame_def\<close>)
next
  case (refuse k n t l now d l')
  then have inv: "source_inv ip c cap t0 l0 k n t l" and a: "limiter_allow now ip l = ((False, d), l')"
    by (auto simp: authFailureAllowed_def split: prod.splits)
  have "fail_ready ip cap now l" using inv refuse(2) fail_ready_later by (auto simp: source_inv_def)
  note lv = limiter_allow_level(1) [OF this a]
  show ?case by (rule source_inv_frame [OF inv refuse(2)]) (use a lv in \<open>auto simp: fail_frame_def\<close>)
next
  case (succeed k n t l)
  then show ?case by (auto simp: source_inv_def)
next
  case (failure k n t l now l')
  then show ?case using source_inv_failure by (auto simp: recordAuthFailure_def)
next
  case (other_asks k n t l now ip' r l')
  then have inv: "source_inv ip c cap t0 l0 k n t l" and a: "limiter_allow now ip' l = (r, l')"
    by (auto simp: authFailureAllowed_def split: prod.splits)
  have "fail_ready ip cap now l" using inv other_asks(2) fail_ready_later by (auto simp: source_inv_def)
  note lv = limiter_allow_level(1) [OF this a]
  have "fail_frame ip now l l'" using a unfolding fail_frame_def by blast
  then show ?case by (rule source_inv_frame [OF inv other_asks(2)]) (use lv in auto)
next
  case (other_fails k n t l now ip' l')
  then have inv: "source_inv ip c cap t0 l0 k n t l" and a: "l' = limiter_fail now ip' l" by (auto simp: recordAuthFailure_def)
  have "fail_ready ip cap now l" using inv other_fails(2) fail_ready_later by (auto simp: source_inv_def)
  note lv = limiter_fail_other [OF this other_fails(3)]
  show ?case by (rule source_inv_frame [OF inv other_fails(2)]) (use a lv other_fails(3) in \<open>auto simp: fail_frame_def\<close>)
qed

text \<open>
  C19. An address with at most \<open>c\<close> requests in flight at a time can fail at most \<open>c\<close> times the sum of: the budget
  per minute, one, and the budget for the time that has passed. Each failure beyond it is refused before the
  credential store is asked.
\<close>

theorem auth_failures_bounded:
  assumes "auth_source ip c t0 (newFailureLimiter perMinute) k n t l" "0 < perMinute"
  shows "of_nat n \<le> of_nat c * (of_int perMinute + 1 + of_int perMinute * minutes (t - t0))"
proof -
  let ?cap = "rat_of_int perMinute"
  have one: "1 \<le> ?cap" using assms(2) of_int_le_iff [of 1 perMinute, where ?'a = rat] by simp
  then have ready: "fail_ready ip ?cap t0 (newFailureLimiter perMinute)" by (simp add: fail_ready_def newFailureLimiter_def)
  obtain m where m: "admitted (fail_frame ip) (fail_attempt ip) t0 (newFailureLimiter perMinute) m t l" "n \<le> c * m"
    using auth_source_inv [OF assms(1) ready] by (auto simp: source_inv_def)
  have "fail_ready ip ?cap t l" using fb.admitted_level [OF m(1) ready] by blast
  then have "of_nat m \<le> ?cap + 1 + ?cap * minutes (t - t0)"
    using fb.admitted_bound [OF m(1) ready] level_bounds [of ip ?cap t l] by (simp add: minutes_def)
  then have "of_nat c * of_nat m \<le> of_nat c * (?cap + 1 + ?cap * minutes (t - t0))" by (intro mult_left_mono) simp_all
  moreover have "(of_nat n :: rat) \<le> of_nat c * of_nat m" using m(2) by (metis of_nat_le_iff of_nat_mult)
  ultimately show ?thesis by linarith
qed

text \<open>
  The factor is needed: requests that ask before any of them has failed all pass, whatever the budget. The budget
  per minute bounds a source that waits for each answer.
\<close>

lemma burst_passes_limiter: "auth_source ip c t0 (newFailureLimiter 1) 0 c t0 (foldr (\<lambda>_. limiter_fail t0 ip) [0..<c] (newFailureLimiter 1))"
proof -
  have "auth_source ip c t0 (newFailureLimiter 1) k 0 t0 (newFailureLimiter 1)" if "k \<le> c" for k
    using that
  proof (induction k)
    case (Suc k)
    then show ?case
      by (intro auth_source.admit [of ip c t0 _ k 0 t0 "newFailureLimiter 1" t0 0])
        (auto simp: authFailureAllowed_def limiter_allow_def newFailureLimiter_def)
  qed (rule auth_source.start)
  then have "auth_source ip c t0 (newFailureLimiter 1) (c - j) j t0 (foldr (\<lambda>_. limiter_fail t0 ip) [0..<j] (newFailureLimiter 1))" if "j \<le> c" for j
    using that
  proof (induction j)
    case (Suc j)
    have "foldr (\<lambda>_. limiter_fail t0 ip) [0..<Suc j] x = limiter_fail t0 ip (foldr (\<lambda>_. limiter_fail t0 ip) [0..<j] x)" for x
      by (induction j arbitrary: x) auto
    then show ?case using Suc
      by (auto intro!: auth_source.failure [where k = "c - Suc j" and n = j] simp: recordAuthFailure_def Suc_diff_Suc)
  qed simp
  from this [of c] show ?thesis by simp
qed

definition sample_burst :: failure_limiter where
  "sample_burst = foldr (\<lambda>_. limiter_fail 0 ''10.0.0.9'') [0..<2] (newFailureLimiter 1)"

theorem auth_failures_bounded_witness:
  "auth_source ''10.0.0.9'' 2 0 (newFailureLimiter 1) 0 2 0 sample_burst \<and>
   (of_nat 2 :: rat) \<le> of_nat 2 * (of_int 1 + 1 + of_int 1 * minutes (0 - 0))"
proof
  show run: "auth_source ''10.0.0.9'' 2 0 (newFailureLimiter 1) 0 2 0 sample_burst"
    unfolding sample_burst_def by (rule burst_passes_limiter)
  show "(of_nat 2 :: rat) \<le> of_nat 2 * (of_int 1 + 1 + of_int 1 * minutes (0 - 0))"
    by (rule auth_failures_bounded [OF run]) simp
qed

end
