(* ===== verification/Auth.thy ===== *)
theory Auth
  imports Auth_Limiter Tenancy_Replicas
begin

text \<open>
  Who a request is from: the client address (\<^verbatim>\<open>internal/clientip/clientip.go\<close>), the credential in its headers and
  the authentication and role middleware (\<^verbatim>\<open>internal/tenancy/middleware.go\<close>), and the role floors of the management
  routes (\<^verbatim>\<open>internal/server/route_authz.go\<close>, \<^verbatim>\<open>internal/server/open_routes.go\<close>).

  The parsing of addresses by \<^verbatim>\<open>net/netip\<close> and \<^verbatim>\<open>net.SplitHostPort\<close>, and the matching of \<^verbatim>\<open>http.ServeMux\<close>, are
  parameters.
\<close>

section \<open>The client address\<close>

record 'a netip =
  ni_SplitHostPort :: "string \<Rightarrow> string option"
  ni_ParseAddr :: "string \<Rightarrow> 'a option"
  ni_Unmap :: "'a \<Rightarrow> 'a"
  ni_String :: "'a \<Rightarrow> string"

text \<open>A trusted network is given by the addresses it contains.\<close>

type_synonym 'a proxies = "('a \<Rightarrow> bool) list option"

definition SetTrustedProxies ::
  "(string \<Rightarrow> ('a \<Rightarrow> bool) option) \<Rightarrow> (string \<Rightarrow> ('a \<Rightarrow> bool) option) \<Rightarrow> string list \<Rightarrow> 'a proxies \<Rightarrow> (string + unit) \<times> 'a proxies" where
  "SetTrustedProxies prefixOf single cidrs old =
     (let cs = filter (\<lambda>c. c \<noteq> []) (map strings_TrimSpace cidrs);
          entry = (\<lambda>c. case prefixOf c of Some p \<Rightarrow> Some p | None \<Rightarrow> single c)
      in case find (\<lambda>c. entry c = None) cs of
           Some c \<Rightarrow> (Inl c, old)
         | None \<Rightarrow> (Inr (), if cs = [] then None else Some (map (the \<circ> entry) cs)))"

definition isTrusted :: "'a netip \<Rightarrow> 'a proxies \<Rightarrow> 'a \<Rightarrow> bool" where
  "isTrusted ni ps ip = (case ps of None \<Rightarrow> False | Some nets \<Rightarrow> list_ex (\<lambda>contains. contains (ni_Unmap ni ip)) nets)"

definition trim_brackets :: "string \<Rightarrow> string" where
  "trim_brackets s = (let b = (\<lambda>c. c = CHR ''['' \<or> c = CHR '']'') in rev (dropWhile b (rev (dropWhile b s))))"

definition hostOf :: "'a netip \<Rightarrow> string \<Rightarrow> string" where
  "hostOf ni addr = (case ni_SplitHostPort ni addr of Some h \<Rightarrow> h | None \<Rightarrow> trim_brackets addr)"

fun strings_Split :: "char \<Rightarrow> string \<Rightarrow> string list" where
  "strings_Split sep [] = [[]]"
| "strings_Split sep (c # s) =
     (if c = sep then [] # strings_Split sep s
      else case strings_Split sep s of [] \<Rightarrow> [[c]] | w # ws \<Rightarrow> (c # w) # ws)"

definition forwarded_hops :: "string list \<Rightarrow> string list" where
  "forwarded_hops values = filter (\<lambda>h. h \<noteq> []) (map strings_TrimSpace (concat (map (strings_Split CHR '','') values)))"

fun last_untrusted :: "'a netip \<Rightarrow> 'a proxies \<Rightarrow> string list \<Rightarrow> string option" where
  "last_untrusted ni ps [] = None"
| "last_untrusted ni ps (h # hs) =
     (case ni_ParseAddr ni (hostOf ni h) of
        None \<Rightarrow> last_untrusted ni ps hs
      | Some a \<Rightarrow> if \<not> isTrusted ni ps a then Some (ni_String ni (ni_Unmap ni a)) else last_untrusted ni ps hs)"

definition FromRequest :: "'a netip \<Rightarrow> 'a proxies \<Rightarrow> string \<Rightarrow> string list \<Rightarrow> string" where
  "FromRequest ni ps remoteAddr forwarded =
     (let peer = hostOf ni remoteAddr in
      case ni_ParseAddr ni peer of
        None \<Rightarrow> peer
      | Some peerAddr \<Rightarrow>
          if \<not> isTrusted ni ps peerAddr then peer
          else case last_untrusted ni ps (rev (forwarded_hops forwarded)) of Some a \<Rightarrow> a | None \<Rightarrow> peer)"

section \<open>Credentials\<close>

record auth_request =
  ar_Authorization :: string
  ar_XApiKey :: string
  ar_apiKey :: string
  ar_cookie :: "string option"
  ar_remoteAddr :: string
  ar_forwarded :: "string list"

definition is_blank :: "char \<Rightarrow> bool" where
  "is_blank c \<longleftrightarrow> c = CHR '' '' \<or> c = CHR 0x09"

definition ParseBearerToken :: "string \<Rightarrow> string option" where
  "ParseBearerToken authHeader =
     (let h = strings_TrimSpace authHeader in
      if length h \<le> 6 \<or> strings_ToLower (take 6 h) \<noteq> ''bearer'' then None
      else let rest = drop 6 h in
      if \<not> is_blank (hd rest) then None
      else let token = strings_TrimSpace rest in
      if token = [] \<or> list_ex (\<lambda>c. is_blank c \<or> c = CHR 0x0D \<or> c = CHR 0x0A) token then None else Some token)"

definition ExtractAPIKey :: "auth_request \<Rightarrow> string" where
  "ExtractAPIKey r =
     (case ParseBearerToken (ar_Authorization r) of
        Some token \<Rightarrow> token
      | None \<Rightarrow> let v = strings_TrimSpace (ar_XApiKey r) in if v \<noteq> [] then v else strings_TrimSpace (ar_apiKey r))"

definition extractSessionToken :: "auth_request \<Rightarrow> string" where
  "extractSessionToken r = (case ar_cookie r of Some v \<Rightarrow> v | None \<Rightarrow> [])"

section \<open>The middleware\<close>

text \<open>What one call of the store is given: the readings of the clock and the outcomes of its statements.\<close>

record auth_env =
  ae_sha :: sha256
  ae_compare :: "string \<Rightarrow> string \<Rightarrow> bool"
  ae_ok :: "nat \<Rightarrow> bool"
  ae_tm :: "nat \<Rightarrow> instant"

definition env_ResolveSession :: "auth_env \<Rightarrow> string \<Rightarrow> tenancy_store \<Rightarrow> (tenancy_error + principal) \<times> tenancy_store" where
  "env_ResolveSession env token s = ResolveSession (ae_sha env) (ae_ok env 0) (ae_ok env 1) (ae_tm env 0) token s"

definition resolveBearer :: "auth_env \<Rightarrow> string \<Rightarrow> tenancy_store \<Rightarrow> (tenancy_error + principal) \<times> tenancy_store" where
  "resolveBearer env token s =
     (if strings_HasPrefix token sessionTokenPrefix then env_ResolveSession env token s
      else Resolve (ae_sha env) (ae_compare env) (ae_ok env 0) (ae_ok env 1) (ae_tm env) token s)"

definition bestEffortPrincipal :: "auth_env \<Rightarrow> auth_env \<Rightarrow> auth_request \<Rightarrow> tenancy_store \<Rightarrow> principal option \<times> tenancy_store" where
  "bestEffortPrincipal env env' r s =
     (let key = ExtractAPIKey r; token = extractSessionToken r;
          (p, s1) = (if key \<noteq> [] then case resolveBearer env key s of (Inr p, s1) \<Rightarrow> (Some p, s1) | (Inl _, s1) \<Rightarrow> (None, s1)
                     else (None, s))
      in case p of
           Some _ \<Rightarrow> (p, s1)
         | None \<Rightarrow>
             if token \<noteq> [] then case env_ResolveSession env' token s1 of (Inr p, s2) \<Rightarrow> (Some p, s2) | (Inl _, s2) \<Rightarrow> (None, s2)
             else (None, s1))"

datatype auth_outcome = Proceed "principal option" | Deny int string "int option"

text \<open>
  What a gated request is answered once the store has spoken on its key or on its session token; the flag tells
  whether the failure is recorded against the address.
\<close>

definition key_answer :: "tenancy_error + principal \<Rightarrow> auth_outcome \<times> bool" where
  "key_answer res =
     (case res of
        Inl e \<Rightarrow> if e \<in> {ErrInvalidKey, ErrInvalidSession, ErrNotFound} then (Deny 401 ''invalid credential'' None, True)
                 else (Deny 500 ''auth store error'' None, False)
      | Inr p \<Rightarrow> (Proceed (Some p), False))"

definition session_answer :: "tenancy_error + principal \<Rightarrow> auth_outcome \<times> bool" where
  "session_answer res =
     (case res of
        Inl e \<Rightarrow> if e \<in> {ErrInvalidSession, ErrNotFound} then (Deny 401 ''invalid session'' None, True)
                 else (Deny 500 ''auth store error'' None, False)
      | Inr p \<Rightarrow> (Proceed (Some p), False))"

definition missing_answer :: "auth_outcome \<times> bool" where
  "missing_answer = (Deny 401 ''missing credentials'' None, True)"

definition credential_step :: "auth_env \<Rightarrow> auth_request \<Rightarrow> tenancy_store \<Rightarrow> (auth_outcome \<times> bool) \<times> tenancy_store" where
  "credential_step env r s =
     (let key = ExtractAPIKey r; token = extractSessionToken r in
      if key \<noteq> [] then (case resolveBearer env key s of (res, s') \<Rightarrow> (key_answer res, s'))
      else if token \<noteq> [] then (case env_ResolveSession env token s of (res, s') \<Rightarrow> (session_answer res, s'))
      else (missing_answer, s))"

definition limited_answer :: "duration \<Rightarrow> auth_outcome" where
  "limited_answer retry = Deny 429 ''too many failed authentications'' (Some (retry div Second + 1))"

definition record_failure :: "bool \<Rightarrow> instant \<Rightarrow> string \<Rightarrow> failure_limiter option \<Rightarrow> failure_limiter option" where
  "record_failure failed now ip al = (if failed then recordAuthFailure now ip al else al)"

definition AuthMiddleware ::
  "auth_env \<Rightarrow> auth_env \<Rightarrow> instant \<Rightarrow> instant \<Rightarrow> bool \<Rightarrow> string \<Rightarrow> auth_request \<Rightarrow> failure_limiter option \<times> tenancy_store \<Rightarrow>
     auth_outcome \<times> failure_limiter option \<times> tenancy_store" where
  "AuthMiddleware env env' now now' skip ip r st =
     (case st of (al, s) \<Rightarrow>
      if skip then (case bestEffortPrincipal env env' r s of (p, s') \<Rightarrow> (Proceed p, al, s'))
      else case authFailureAllowed now ip al of
        ((False, retry), al1) \<Rightarrow> (limited_answer retry, al1, s)
      | ((True, _), al1) \<Rightarrow>
          (case credential_step env r s of
             ((out, failed), s') \<Rightarrow> (out, record_failure failed now' ip al1, s')))"

definition RequireRole :: "role \<Rightarrow> principal option \<Rightarrow> auth_outcome" where
  "RequireRole required p =
     (case p of
        None \<Rightarrow> Deny 401 ''authentication required'' None
      | Some q \<Rightarrow> if \<not> AtLeast (pl_Role q) required then Deny 403 ''insufficient role'' None else Proceed p)"

section \<open>Properties of the parts\<close>

lemma last_untrusted_append:
  "last_untrusted ni ps (xs @ ys) = (case last_untrusted ni ps xs of Some a \<Rightarrow> Some a | None \<Rightarrow> last_untrusted ni ps ys)"
  by (induction xs) (auto split: option.splits)

lemma forwarded_hops_append: "forwarded_hops (vs @ ws) = forwarded_hops vs @ forwarded_hops ws"
  by (simp add: forwarded_hops_def)

lemma strings_Split_nonempty: "strings_Split sep s \<noteq> []"
  by (induction s) (auto split: list.split)

lemma strings_Split_append: "strings_Split sep (x @ sep # y) = strings_Split sep x @ strings_Split sep y"
proof (induction x)
  case (Cons c x)
  then show ?case using strings_Split_nonempty [of sep x] by (auto split: list.split)
qed simp

lemma strings_Split_plain: "sep \<notin> set s \<Longrightarrow> strings_Split sep s = [s]"
  by (induction s) auto

text \<open>A hop as a proxy writes it: not blank, with no comma and no space around it.\<close>

definition plain_hop :: "string \<Rightarrow> bool" where
  "plain_hop h \<longleftrightarrow> h \<noteq> [] \<and> CHR '','' \<notin> set h \<and> strings_TrimSpace h = h"

lemma forwarded_hops_space: "forwarded_hops [CHR '' '' # v] = forwarded_hops [v]"
  using strings_Split_nonempty [of "CHR '',''" v]
  by (auto simp: forwarded_hops_def strings_TrimSpace_def is_space_def split: list.split)

lemma forwarded_hops_comma: "forwarded_hops [x @ '', '' @ y] = forwarded_hops [x] @ forwarded_hops [y]"
  using strings_Split_append [of "CHR '',''" x "CHR '' '' # y"] forwarded_hops_space [of y] by (simp add: forwarded_hops_def)

lemma forwarded_hops_join:
  assumes "\<forall>h \<in> set hops. plain_hop h"
  shows "forwarded_hops [strings_Join hops '', ''] = hops"
  using assms
proof (induction hops "'', ''" rule: strings_Join.induct)
  case 1
  then show ?case by (simp add: forwarded_hops_def strings_TrimSpace_def)
next
  case (2 h)
  then show ?case by (simp add: forwarded_hops_def plain_hop_def strings_Split_plain)
next
  case (3 h h' hops)
  have "forwarded_hops [h] = [h]" using 3(2) by (simp add: forwarded_hops_def plain_hop_def strings_Split_plain)
  then show ?case using 3 forwarded_hops_comma [of h "strings_Join (h' # hops) '', ''"] by simp
qed

lemma last_untrusted_trusted:
  assumes "\<forall>h \<in> set hs. \<forall>b. ni_ParseAddr ni (hostOf ni h) = Some b \<longrightarrow> isTrusted ni ps b"
  shows "last_untrusted ni ps hs = None"
  using assms by (induction hs) (auto split: option.split)

text \<open>
  C20. A client behind trusted proxies cannot choose its address. Suppose the proxy that the client talked to has
  appended the client's hop, a parsable address that is not a trusted proxy, and the later proxies have appended
  theirs. Then whatever the client wrote into \<^verbatim>\<open>X-Forwarded-For\<close>, as lines of the header before that one or as text
  in front of the hop in the same line, the address is that of the hop. From a peer that is not a trusted proxy
  the header is ignored altogether.
\<close>

theorem FromRequest_unforgeable:
  assumes "ni_ParseAddr ni (hostOf ni remote) = Some peer"
    and "\<forall>h \<in> set (hop # hops). plain_hop h"
    and "ni_ParseAddr ni (hostOf ni hop) = Some a" "\<not> isTrusted ni ps a"
    and "\<forall>h \<in> set hops. \<forall>b. ni_ParseAddr ni (hostOf ni h) = Some b \<longrightarrow> isTrusted ni ps b"
  shows "(if isTrusted ni ps peer
          then FromRequest ni ps remote (lines @ [strings_Join (hop # hops) '', '']) = ni_String ni (ni_Unmap ni a)
            \<and> FromRequest ni ps remote (lines @ [forged @ '', '' @ strings_Join (hop # hops) '', '']) = ni_String ni (ni_Unmap ni a)
          else FromRequest ni ps remote lines = hostOf ni remote)"
proof -
  have found: "last_untrusted ni ps (rev (front @ hop # hops)) = Some (ni_String ni (ni_Unmap ni a))" for front
    using last_untrusted_trusted [of "rev hops" ni ps] assms(3-5) by (simp add: last_untrusted_append)
  have "forwarded_hops (lines @ [strings_Join (hop # hops) '', '']) = forwarded_hops lines @ hop # hops"
    "forwarded_hops (lines @ [forged @ '', '' @ strings_Join (hop # hops) '', ''])
       = (forwarded_hops lines @ forwarded_hops [forged]) @ hop # hops"
    using forwarded_hops_join [OF assms(2)] by (simp_all only: forwarded_hops_append forwarded_hops_comma append_assoc)
  with found assms(1) show ?thesis by (simp only: FromRequest_def Let_def option.case if_True if_False) auto
qed

definition sample_netip :: "string netip" where
  "sample_netip = \<lparr>ni_SplitHostPort = (\<lambda>_. None), ni_ParseAddr = Some, ni_Unmap = (\<lambda>a. a), ni_String = (\<lambda>a. a)\<rparr>"

theorem FromRequest_unforgeable_witness:
  "FromRequest sample_netip (Some [\<lambda>a. a = ''10.0.0.1'' \<or> a = ''10.0.0.2'']) ''10.0.0.1''
     ([''6.6.6.6''] @ [''7.7.7.7'' @ '', '' @ strings_Join [''203.0.113.9'', ''10.0.0.2''] '', '']) = ''203.0.113.9''
   \<and> FromRequest sample_netip (Some [\<lambda>a. a = ''10.0.0.1'']) ''198.51.100.4'' [''7.7.7.7''] = ''198.51.100.4''"
proof -
  let ?ps = "Some [\<lambda>a. a = ''10.0.0.1'' \<or> a = ''10.0.0.2'']" and ?qs = "Some [\<lambda>a. a = ''10.0.0.1'']"
  have "plain_hop ''203.0.113.9''" "plain_hop ''10.0.0.2''" by code_simp+
  moreover have "ni_ParseAddr sample_netip (hostOf sample_netip s) = Some s" "ni_String sample_netip (ni_Unmap sample_netip s) = s"
    if "trim_brackets s = s" for s using that by (simp_all add: sample_netip_def hostOf_def)
  moreover have "trim_brackets ''203.0.113.9'' = ''203.0.113.9''" "trim_brackets ''10.0.0.2'' = ''10.0.0.2''"
    "trim_brackets ''10.0.0.1'' = ''10.0.0.1''" "trim_brackets ''198.51.100.4'' = ''198.51.100.4''" by code_simp+
  moreover have "isTrusted sample_netip ?ps ''10.0.0.1''" "isTrusted sample_netip ?ps ''10.0.0.2''" "\<not> isTrusted sample_netip ?ps ''203.0.113.9''"
    "\<not> isTrusted sample_netip ?qs ''203.0.113.9''" "\<not> isTrusted sample_netip ?qs ''198.51.100.4''"
    by (simp_all add: isTrusted_def sample_netip_def)
  ultimately show ?thesis
    using FromRequest_unforgeable [of sample_netip "''10.0.0.1''" "''10.0.0.1''" "''203.0.113.9''" "[''10.0.0.2'']" "''203.0.113.9''" ?ps
        "[''6.6.6.6'']" "''7.7.7.7''"]
      FromRequest_unforgeable [of sample_netip "''198.51.100.4''" "''198.51.100.4''" "''203.0.113.9''" "[]" "''203.0.113.9''" ?qs "[''7.7.7.7'']"]
    by (simp add: hostOf_def sample_netip_def)
qed

section \<open>Management routes\<close>

definition roleOpen :: role where
  "roleOpen = []"

definition managementRouteFloors :: "(string \<times> role) list" where
  "managementRouteFloors =
    [(''GET /api/v1/health'', roleOpen),
     (''GET /api/v1/identity'', roleOpen),
     (''GET /api/v1/ready'', roleOpen),
     (''GET /api/v1/agents'', roleOpen),
     (''GET /api/v1/agents/{name}'', roleOpen),
     (''POST /api/v1/agents/{name}/reload'', RoleEditor),
     (''POST /api/v1/agents'', RoleEditor),
     (''PUT /api/v1/agents/{name}'', RoleEditor),
     (''DELETE /api/v1/agents/{name}'', RoleEditor),
     (''GET /api/v1/tenants'', RolePlatform),
     (''POST /api/v1/tenants'', RolePlatform),
     (''DELETE /api/v1/tenants/{id}'', RolePlatform),
     (''GET /api/v1/tenants/{id}/keys'', RoleEditor),
     (''POST /api/v1/tenants/{id}/keys'', RoleAdmin),
     (''POST /api/v1/tenants/{id}/keys/rotate'', RoleAdmin),
     (''PATCH /api/v1/keys/{id}'', RoleAdmin),
     (''POST /api/v1/keys/{id}/rotate'', RoleAdmin),
     (''POST /api/v1/keys/me/rotate'', RoleViewer),
     (''POST /api/v1/keys/me/burn'', RoleViewer),
     (''DELETE /api/v1/keys/{id}'', RoleAdmin),
     (''GET /api/v1/audit'', RoleAdmin),
     (''GET /api/v1/logs'', roleOpen),
     (''GET /api/v1/logs/{id}'', roleOpen),
     (''DELETE /api/v1/logs'', RoleAdmin),
     (''GET /api/v1/logs/stream'', roleOpen),
     (''GET /api/v1/logs/stream/metrics'', RoleAdmin),
     (''GET /api/v1/costs'', RoleViewer),
     (''GET /api/v1/pipelines'', RoleViewer),
     (''GET /api/v1/pipelines/{name}'', RoleViewer),
     (''POST /api/v1/pipelines/{name}/run'', RoleViewer),
     (''PUT /api/v1/pipelines/{name}'', RolePlatform),
     (''POST /api/v1/config/validate'', RoleEditor),
     (''GET /api/v1/quota'', RoleViewer),
     (''PUT /api/v1/tenants/{id}/quota'', RolePlatform),
     (''GET /metrics'', RolePlatform)]"

text \<open>What the server is configured with, as far as the routes depend on it.\<close>

record route_config =
  rc_tenancy :: bool
  rc_audit :: bool
  rc_logStore :: bool
  rc_pipelines :: bool
  rc_quota :: bool

definition managed_patterns :: "route_config \<Rightarrow> string list" where
  "managed_patterns cfg =
     [''GET /api/v1/health'', ''GET /api/v1/ready'', ''GET /api/v1/identity'', ''GET /api/v1/agents'',
      ''GET /api/v1/agents/{name}'', ''POST /api/v1/agents/{name}/reload'', ''POST /api/v1/agents'',
      ''PUT /api/v1/agents/{name}'', ''DELETE /api/v1/agents/{name}''] @
     (if rc_tenancy cfg
      then [''GET /api/v1/tenants'', ''POST /api/v1/tenants'', ''DELETE /api/v1/tenants/{id}'',
            ''GET /api/v1/tenants/{id}/keys'', ''POST /api/v1/tenants/{id}/keys'', ''POST /api/v1/tenants/{id}/keys/rotate'',
            ''PATCH /api/v1/keys/{id}'', ''POST /api/v1/keys/{id}/rotate'', ''POST /api/v1/keys/me/rotate'',
            ''POST /api/v1/keys/me/burn'', ''DELETE /api/v1/keys/{id}'']
      else []) @
     (if rc_audit cfg then [''GET /api/v1/audit''] else []) @
     [''GET /api/v1/logs'', ''GET /api/v1/logs/{id}'', ''DELETE /api/v1/logs''] @
     (if rc_logStore cfg then [''GET /api/v1/logs/stream'', ''GET /api/v1/logs/stream/metrics'', ''GET /api/v1/costs''] else []) @
     (if rc_pipelines cfg
      then [''GET /api/v1/pipelines'', ''GET /api/v1/pipelines/{name}'', ''POST /api/v1/pipelines/{name}/run'', ''PUT /api/v1/pipelines/{name}'']
      else []) @
     [''POST /api/v1/config/validate''] @
     (if rc_quota cfg then [''GET /api/v1/quota'', ''PUT /api/v1/tenants/{id}/quota''] else []) @
     [''GET /metrics'']"

text \<open>The recording part of \<^verbatim>\<open>mountManaged\<close>: a pattern without a floor panics.\<close>

fun mountManaged :: "string list \<Rightarrow> (string \<times> role) list \<Rightarrow> (string \<times> role) list option" where
  "mountManaged [] mounted = Some mounted"
| "mountManaged (pattern # ps) mounted =
     (case map_of managementRouteFloors pattern of
        None \<Rightarrow> None
      | Some floor_role \<Rightarrow> mountManaged ps (AList.update pattern floor_role mounted))"

definition mountedRoutes :: "route_config \<Rightarrow> (string \<times> role) list option" where
  "mountedRoutes cfg = mountManaged (managed_patterns cfg) []"

text \<open>The gate that it puts before the handler.\<close>

definition managed_gate :: "bool \<Rightarrow> role \<Rightarrow> principal option \<Rightarrow> auth_outcome" where
  "managed_gate tenancy floor_role p = (if tenancy \<and> floor_role \<noteq> roleOpen then RequireRole floor_role p else Proceed p)"

definition capabilityForRoute :: "string \<Rightarrow> string" where
  "capabilityForRoute pattern =
     (let method = takeWhile (\<lambda>c. c \<noteq> CHR '' '') pattern; rest = dropWhile (\<lambda>c. c \<noteq> CHR '' '') pattern in
      if rest = [] then []
      else let path = tl rest;
               path' = (if strings_HasPrefix path ''/api/v1'' then drop 7 path else path);
               segs = filter (\<lambda>seg. \<not> (seg = [] \<or> strings_HasPrefix seg ''{'')) (strings_Split CHR ''/'' path')
      in if segs = [] then []
         else strings_Join (segs @ [if method = ''GET'' then ''read'' else ''write'']) ''.'')"

definition capabilitiesFrom :: "(string \<times> role) list \<Rightarrow> role \<Rightarrow> string list" where
  "capabilitiesFrom routes role =
     sort (remdups (filter (\<lambda>n. n \<noteq> [])
       (map (capabilityForRoute \<circ> fst) (filter (\<lambda>(pattern, f). \<not> (f \<noteq> roleOpen \<and> \<not> AtLeast role f)) routes))))"

definition allCapabilitiesFrom :: "(string \<times> role) list \<Rightarrow> string list" where
  "allCapabilitiesFrom routes = sort (remdups (filter (\<lambda>n. n \<noteq> []) (map (capabilityForRoute \<circ> fst) routes)))"

section \<open>Every route has its gate\<close>

lemma set_if_subset: "set (if b then xs else []) \<subseteq> set xs"
  by auto

lemma managed_patterns_known: "set (managed_patterns cfg) \<subseteq> set (map fst managementRouteFloors)"
proof -
  have "list_all (\<lambda>p. p \<in> set (map fst managementRouteFloors)) (managed_patterns \<lparr>rc_tenancy = True, rc_audit = True, rc_logStore = True, rc_pipelines = True, rc_quota = True\<rparr>)"
    by code_simp
  moreover have "set (managed_patterns cfg) \<subseteq>
      set (managed_patterns \<lparr>rc_tenancy = True, rc_audit = True, rc_logStore = True, rc_pipelines = True, rc_quota = True\<rparr>)"
    unfolding managed_patterns_def set_append route_config.simps if_True by (intro Un_mono set_if_subset subset_refl)
  ultimately show ?thesis by (metis (no_types, lifting) list_all_iff subset_iff)
qed

lemma mountManaged_floors:
  assumes "set ps \<subseteq> set (map fst managementRouteFloors)"
    "\<forall>p f. map_of mounted p = Some f \<longrightarrow> map_of managementRouteFloors p = Some f" "distinct (map fst mounted)"
  shows "\<exists>rs. mountManaged ps mounted = Some rs \<and> distinct (map fst rs) \<and>
    (\<forall>p f. map_of rs p = Some f \<longrightarrow> map_of managementRouteFloors p = Some f) \<and> set (map fst rs) = set ps \<union> set (map fst mounted)"
  using assms
proof (induction ps mounted rule: mountManaged.induct)
  case (2 pattern ps mounted)
  then obtain f where f: "map_of managementRouteFloors pattern = Some f"
    by (cases "map_of managementRouteFloors pattern") (auto simp: map_of_eq_None_iff)
  have keys: "set (map fst (AList.update pattern f mounted)) = insert pattern (set (map fst mounted))"
    by (induction mounted) auto
  show ?case
    using "2.IH" [OF f] "2.prems" f keys by (simp add: distinct_update update_conv')
qed simp

lemma mountedRoutes_floors:
  obtains rs where "mountedRoutes cfg = Some rs" "\<And>p f. (p, f) \<in> set rs \<Longrightarrow> (p, f) \<in> set managementRouteFloors"
    "fst ` set rs = set (managed_patterns cfg)"
proof -
  from mountManaged_floors [OF managed_patterns_known [of cfg], of "[]"]
  obtain rs where rs: "mountedRoutes cfg = Some rs" "distinct (map fst rs)"
    "\<forall>p f. map_of rs p = Some f \<longrightarrow> map_of managementRouteFloors p = Some f" "fst ` set rs = set (managed_patterns cfg)"
    by (auto simp: mountedRoutes_def)
  then show thesis using that map_of_SomeD by (metis map_of_is_SomeI)
qed

text \<open>No two routes of different floors share a capability name.\<close>

lemma capability_floor:
  assumes "(p, f) \<in> set managementRouteFloors" "(p', f') \<in> set managementRouteFloors" "capabilityForRoute p = capabilityForRoute p'"
  shows "f = f'"
proof -
  define named where "named = map (\<lambda>(p, f). (capabilityForRoute p, f)) managementRouteFloors"
  have "list_all (\<lambda>(n, f). map_of named n = Some f) named" unfolding named_def by code_simp
  moreover have "(capabilityForRoute p, f) \<in> set named" "(capabilityForRoute p', f') \<in> set named"
    using assms(1,2) by (force simp: named_def)+
  ultimately have "map_of named (capabilityForRoute p) = Some f" "map_of named (capabilityForRoute p') = Some f'"
    by (auto simp: list_all_iff)
  then show ?thesis using assms(3) by simp
qed

text \<open>
  C21. In every configuration the server starts with each of its management routes behind a declared floor, and
  what it tells a caller of its capabilities is what the gates do: a capability is listed exactly if some mounted
  route has its name, and the gate of each route of that name lets the caller pass.
\<close>

theorem capabilities_match_gates:
  "\<exists>rs. mountedRoutes cfg = Some rs \<and> fst ` set rs = set (managed_patterns cfg) \<and>
     (\<forall>q n. n \<in> set (capabilitiesFrom rs (pl_Role q)) \<longleftrightarrow>
        n \<noteq> [] \<and> (\<exists>x \<in> set rs. capabilityForRoute (fst x) = n) \<and>
        (\<forall>x \<in> set rs. capabilityForRoute (fst x) = n \<longrightarrow> managed_gate True (snd x) (Some q) = Proceed (Some q)))"
proof -
  obtain rs where rs: "mountedRoutes cfg = Some rs" "\<And>p f. (p, f) \<in> set rs \<Longrightarrow> (p, f) \<in> set managementRouteFloors"
    "fst ` set rs = set (managed_patterns cfg)" using mountedRoutes_floors by blast
  have gate: "managed_gate True f (Some q) = Proceed (Some q) \<longleftrightarrow> \<not> (f \<noteq> roleOpen \<and> \<not> AtLeast (pl_Role q) f)" for f q
    by (simp add: managed_gate_def RequireRole_def)
  have same: "f = f'" if "(p, f) \<in> set rs" "(p', f') \<in> set rs" "capabilityForRoute p = capabilityForRoute p'" for p f p' f'
    using capability_floor [OF rs(2) [OF that(1)] rs(2) [OF that(2)] that(3)] .
  have mem: "n \<in> set (capabilitiesFrom rs (pl_Role q)) \<longleftrightarrow>
      n \<noteq> [] \<and> (\<exists>x \<in> set rs. capabilityForRoute (fst x) = n \<and> managed_gate True (snd x) (Some q) = Proceed (Some q))" for q n
    unfolding capabilitiesFrom_def gate by (auto simp: case_prod_beta image_iff Bex_def simp del: de_Morgan_conj)
  have "(\<exists>x \<in> set rs. capabilityForRoute (fst x) = n \<and> managed_gate True (snd x) (Some q) = Proceed (Some q)) \<longleftrightarrow>
      (\<exists>x \<in> set rs. capabilityForRoute (fst x) = n) \<and>
      (\<forall>x \<in> set rs. capabilityForRoute (fst x) = n \<longrightarrow> managed_gate True (snd x) (Some q) = Proceed (Some q))" for q n
    using same by (metis prod.collapse)
  then show ?thesis using rs(1,3) mem by (auto simp: case_prod_beta)
qed

definition sample_routes :: route_config where
  "sample_routes = \<lparr>rc_tenancy = True, rc_audit = True, rc_logStore = True, rc_pipelines = True, rc_quota = True\<rparr>"

theorem capabilities_match_gates_witness:
  "\<exists>rs. mountedRoutes sample_routes = Some rs \<and> fst ` set rs = set (managed_patterns sample_routes)"
  using capabilities_match_gates [of sample_routes] by blast

section \<open>A gated request among the others\<close>

text \<open>
  A request whose credential is checked runs in stages, and between any two of them the other requests of its own
  replica \<open>i\<close> and of the others take steps: they change the database, the caches and the failure limiter. The
  stages are those of \<^verbatim>\<open>AuthMiddleware\<close> and, for a key, those of \<^verbatim>\<open>Resolve\<close>. A run keeps the moments since the
  request arrived, the newest first: a reading of the clock and the database at it.
\<close>

datatype auth_stage =
    Arrived
  | Allowed
  | Hit principal
  | Missed
  | Selected "key_row list"
  | Resolved "tenancy_error + principal"
  | SessionResolved "tenancy_error + principal"
  | Decided auth_outcome

type_synonym moment = "instant \<times> tenancy_db"

fun lookup_stage :: "resolve_phase \<Rightarrow> auth_stage" where
  "lookup_stage (ResolveDone e) = Resolved (Inl e)"
| "lookup_stage (CacheHit p) = Hit p"
| "lookup_stage CacheMiss = Missed"

definition select_stage :: "tenancy_error + key_row list \<Rightarrow> auth_stage" where
  "select_stage res = (case res of Inl e \<Rightarrow> Resolved (Inl e) | Inr candidates \<Rightarrow> Selected candidates)"

inductive auth_run ::
  "sha256 \<Rightarrow> (string \<Rightarrow> string \<Rightarrow> bool) \<Rightarrow> string set \<Rightarrow> string \<Rightarrow> auth_request \<Rightarrow> nat \<Rightarrow>
     moment list \<Rightarrow> auth_stage \<Rightarrow> failure_limiter option \<Rightarrow> replicas \<Rightarrow> bool"
  for sha compare presented ip r i where
  arrive: "replicas_reachable sha compare presented y \<Longrightarrow> auth_run sha compare presented ip r i [(t, rp_db y)] Arrived al y"
| others: "auth_run sha compare presented ip r i (m # ms) st al y \<Longrightarrow> replicas_step sha compare presented y y' \<Longrightarrow> fst m \<le> t \<Longrightarrow>
    auth_run sha compare presented ip r i ((t, rp_db y') # m # ms) st al' y'"
| limited: "auth_run sha compare presented ip r i ms Arrived al y \<Longrightarrow> authFailureAllowed now ip al = ((False, retry), al') \<Longrightarrow>
    auth_run sha compare presented ip r i ms (Decided (limited_answer retry)) al' y"
| allowed: "auth_run sha compare presented ip r i ms Arrived al y \<Longrightarrow> authFailureAllowed now ip al = ((True, retry), al') \<Longrightarrow>
    auth_run sha compare presented ip r i ms Allowed al' y"
| lookup: "auth_run sha compare presented ip r i ms Allowed al y \<Longrightarrow>
    ExtractAPIKey r \<noteq> [] \<Longrightarrow> \<not> strings_HasPrefix (ExtractAPIKey r) sessionTokenPrefix \<Longrightarrow>
    resolve_lookup sha tm (ExtractAPIKey r) (rp_caches y i) = (phase, c) \<Longrightarrow>
    auth_run sha compare presented ip r i ms (lookup_stage phase) al (y\<lparr>rp_caches := (rp_caches y)(i := c)\<rparr>)"
| recheck: "auth_run sha compare presented ip r i ms (Hit p) al y \<Longrightarrow> resolve_recheck ok p (replica y i) = (res, s) \<Longrightarrow>
    auth_run sha compare presented ip r i ms (Resolved res) al (put_replica i s y)"
| select: "auth_run sha compare presented ip r i ms Missed al y \<Longrightarrow> resolve_select ok (ExtractAPIKey r) (rp_db y) = res \<Longrightarrow>
    auth_run sha compare presented ip r i ms (select_stage res) al y"
| finish: "auth_run sha compare presented ip r i (m # ms) (Selected candidates) al y \<Longrightarrow>
    resolve_finish sha compare ok tm (ExtractAPIKey r) candidates (replica y i) = (res, s) \<Longrightarrow> fst m \<le> t \<Longrightarrow>
    auth_run sha compare presented ip r i ((t, ts_db s) # m # ms) (Resolved res) al (put_replica i s y)"
| bearer_session: "auth_run sha compare presented ip r i (m # ms) Allowed al y \<Longrightarrow>
    ExtractAPIKey r \<noteq> [] \<Longrightarrow> strings_HasPrefix (ExtractAPIKey r) sessionTokenPrefix \<Longrightarrow> fst m \<le> now \<Longrightarrow>
    ResolveSession sha ok ok' now (ExtractAPIKey r) (replica y i) = (res, s) \<Longrightarrow>
    auth_run sha compare presented ip r i ((now, ts_db s) # (now, rp_db y) # m # ms) (Resolved res) al (put_replica i s y)"
| cookie_session: "auth_run sha compare presented ip r i (m # ms) Allowed al y \<Longrightarrow>
    ExtractAPIKey r = [] \<Longrightarrow> extractSessionToken r \<noteq> [] \<Longrightarrow> fst m \<le> now \<Longrightarrow>
    ResolveSession sha ok ok' now (extractSessionToken r) (replica y i) = (res, s) \<Longrightarrow>
    auth_run sha compare presented ip r i ((now, ts_db s) # (now, rp_db y) # m # ms) (SessionResolved res) al (put_replica i s y)"
| key_decided: "auth_run sha compare presented ip r i ms (Resolved res) al y \<Longrightarrow> key_answer res = (out, failed) \<Longrightarrow>
    auth_run sha compare presented ip r i ms (Decided out) (record_failure failed now ip al) y"
| session_decided: "auth_run sha compare presented ip r i ms (SessionResolved res) al y \<Longrightarrow> session_answer res = (out, failed) \<Longrightarrow>
    auth_run sha compare presented ip r i ms (Decided out) (record_failure failed now ip al) y"
| missing: "auth_run sha compare presented ip r i ms Allowed al y \<Longrightarrow>
    ExtractAPIKey r = [] \<Longrightarrow> extractSessionToken r = [] \<Longrightarrow> missing_answer = (out, failed) \<Longrightarrow>
    auth_run sha compare presented ip r i ms (Decided out) (record_failure failed now ip al) y"

text \<open>The call of \<^verbatim>\<open>Resolve\<close> that a stage waits in; with it the request is one more caller of the replicated system.\<close>

fun stage_calls :: "nat \<Rightarrow> string \<Rightarrow> auth_stage \<Rightarrow> resolve_call multiset" where
  "stage_calls i pt (Hit p) = {#Recheck i pt p#}"
| "stage_calls i pt (Selected candidates) = {#Compare i pt candidates#}"
| "stage_calls i pt _ = {#}"

definition add_calls :: "resolve_call multiset \<Rightarrow> replicas \<Rightarrow> replicas" where
  "add_calls M y = y\<lparr>rp_calls := rp_calls y + M\<rparr>"

lemma add_calls_simps [simp]:
  "add_calls {#} y = y" "replica (add_calls M y) j = replica y j" "rp_db (add_calls M y) = rp_db y"
  "rp_caches (add_calls M y) = rp_caches y" "rp_history (add_calls M y) = rp_history y"
  "rp_calls (add_calls M y) = rp_calls y + M"
  by (simp_all add: add_calls_def replica_def)

lemma put_replica_db [simp]: "rp_db (put_replica j s y) = ts_db s"
  by (simp add: put_replica_def)

lemma put_add_calls: "put_replica j s (add_calls M y) = add_calls M (put_replica j s y)"
  by (simp add: put_replica_def add_calls_def)

lemma caches_add_calls: "(add_calls M y)\<lparr>rp_caches := c\<rparr> = add_calls M (y\<lparr>rp_caches := c\<rparr>)"
  by (cases y) (simp add: add_calls_def)

lemma take_call:
  "c \<in># rp_calls y \<Longrightarrow>
     (add_calls M y)\<lparr>rp_calls := rp_calls y + M - {#c#}\<rparr> = add_calls M (y\<lparr>rp_calls := rp_calls y - {#c#}\<rparr>)"
  "(add_calls M y)\<lparr>rp_calls := rp_calls y\<rparr> = y"
  by (simp_all add: add_calls_def)

lemma replicas_step_add:
  assumes "replicas_step sha compare presented y y'"
  shows "replicas_step sha compare presented (add_calls M y) (add_calls M y')"
  using assms
proof cases
  case (operation j s)
  then show ?thesis using replicas_step.operation [of "add_calls M y" j s] by (simp add: put_add_calls)
next
  case (restart c j)
  then show ?thesis using replicas_step.restart [of c sha compare presented "add_calls M y" j] by (simp add: caches_add_calls)
next
  case (lookup pt tm j phase c)
  then show ?thesis
    using replicas_step.lookup [of pt presented sha tm "add_calls M y" j phase c compare] by (simp add: add_calls_def ac_simps)
next
  case (recheck j pt p ok res s)
  then show ?thesis
    using replicas_step.recheck [of j pt p "add_calls M y" ok res s sha compare presented] take_call(1) [OF recheck(2), of M]
    by (simp add: put_add_calls)
next
  case (select pt ok candidates j)
  then show ?thesis
    using replicas_step.select [of pt presented ok "add_calls M y" candidates sha compare j] by (simp add: add_calls_def ac_simps)
next
  case (finish j pt candidates ok tm res s)
  then show ?thesis
    using replicas_step.finish [of j pt candidates "add_calls M y" sha compare ok tm res s presented] take_call(1) [OF finish(2), of M]
    by (simp add: put_add_calls)
qed

lemma auth_run_reachable:
  assumes "auth_run sha compare presented ip r i ms st al y" "ExtractAPIKey r \<in> presented"
  shows "replicas_reachable sha compare presented (add_calls (stage_calls i (ExtractAPIKey r) st) y)"
  using assms
proof induction
  case (others m ms st al y y' t al')
  then show ?case using replicas_step_add by (blast intro: replicas_reachable.step)
next
  case (lookup ms al y tm phase c)
  have "add_calls (stage_calls i (ExtractAPIKey r) (lookup_stage phase)) (y\<lparr>rp_caches := (rp_caches y)(i := c)\<rparr>) =
      y\<lparr>rp_caches := (rp_caches y)(i := c),
        rp_calls := rp_calls y + (case phase of CacheHit p \<Rightarrow> {#Recheck i (ExtractAPIKey r) p#} | _ \<Rightarrow> {#})\<rparr>"
    by (cases phase) (simp_all add: add_calls_def)
  then show ?case
    using replicas_reachable.step [OF _ replicas_step.lookup [OF lookup.prems lookup.hyps(4)]] lookup.IH [OF lookup.prems] by simp
next
  case (recheck ms p al y ok res s)
  have "replicas_step sha compare presented (add_calls {#Recheck i (ExtractAPIKey r) p#} y) (put_replica i s y)"
    using replicas_step.recheck [of i "ExtractAPIKey r" p "add_calls {#Recheck i (ExtractAPIKey r) p#} y" ok res s sha compare presented]
      recheck.hyps(2) by (simp add: take_call(2))
  then show ?case using recheck.IH [OF recheck.prems] by (auto intro: replicas_reachable.step)
next
  case (select ms al y ok res)
  show ?case
  proof (cases res)
    case (Inl e)
    then show ?thesis using select.IH [OF select.prems] by (simp add: select_stage_def)
  next
    case (Inr cs)
    then show ?thesis
      using replicas_reachable.step [OF _ replicas_step.select [of "ExtractAPIKey r" presented ok y cs sha compare i]]
        select.IH [OF select.prems] select.prems select.hyps(2) by (simp add: select_stage_def add_calls_def)
  qed
next
  case (finish m ms cs al y ok tm res s t)
  have "replicas_step sha compare presented (add_calls {#Compare i (ExtractAPIKey r) cs#} y) (put_replica i s y)"
    using replicas_step.finish [of i "ExtractAPIKey r" cs "add_calls {#Compare i (ExtractAPIKey r) cs#} y" sha compare ok tm res s presented]
      finish.hyps(2) by (simp add: take_call(2))
  then show ?case using finish.IH [OF finish.prems] by (auto intro: replicas_reachable.step)
next
  case (bearer_session m ms al y now ok ok' res s)
  have "replicas_step sha compare presented y (put_replica i s y)"
    by (rule replicas_step.operation [OF tenancy_step.resolve_session [OF bearer_session.hyps(5)]])
  then show ?case using bearer_session.IH [OF bearer_session.prems] by (auto intro: replicas_reachable.step)
next
  case (cookie_session m ms al y now ok ok' res s)
  have "replicas_step sha compare presented y (put_replica i s y)"
    by (rule replicas_step.operation [OF tenancy_step.resolve_session [OF cookie_session.hyps(5)]])
  then show ?case using cookie_session.IH [OF cookie_session.prems] by (auto intro: replicas_reachable.step)
qed simp_all

text \<open>
  A principal that a moment vouches for: the database has a row of the key table that accepts the presented key, with
  this tenant, role and version, or a session of the presented token that has not expired.
\<close>

definition key_vouched :: "(string \<Rightarrow> string \<Rightarrow> bool) \<Rightarrow> string \<Rightarrow> moment \<Rightarrow> principal \<Rightarrow> bool" where
  "key_vouched compare key m p \<longleftrightarrow> (\<exists>k \<in> set (db_keys (snd m)). principal_of k = p \<and> compare (kr_hash k) key)"

definition session_vouched :: "sha256 \<Rightarrow> string \<Rightarrow> moment \<Rightarrow> principal \<Rightarrow> bool" where
  "session_vouched sha token m p \<longleftrightarrow>
     (\<exists>x. (hashToken sha token, x) \<in> set (db_sessions (snd m)) \<and> fst m \<le> ss_ExpiresAt x \<and>
        p = \<lparr>pl_TenantID = ss_TenantID x, pl_KeyID = ss_UserID x, pl_Role = ss_Role x, pl_CredentialVersion = 0\<rparr>)"

definition vouched :: "sha256 \<Rightarrow> (string \<Rightarrow> string \<Rightarrow> bool) \<Rightarrow> auth_request \<Rightarrow> moment \<Rightarrow> principal \<Rightarrow> bool" where
  "vouched sha compare r m p \<longleftrightarrow>
     (if ExtractAPIKey r = [] then session_vouched sha (extractSessionToken r) m p
      else if strings_HasPrefix (ExtractAPIKey r) sessionTokenPrefix then session_vouched sha (ExtractAPIKey r) m p
      else key_vouched compare (ExtractAPIKey r) m p)"

lemma ResolveSession_vouched:
  assumes "ResolveSession sha ok ok' now token s = (Inr p, s')"
  shows "session_vouched sha token (now, ts_db s) p"
  using assms by (auto simp: session_vouched_def ResolveSession_def Let_def split: if_splits option.splits dest!: map_of_SomeD)

definition stage_ok :: "sha256 \<Rightarrow> (string \<Rightarrow> string \<Rightarrow> bool) \<Rightarrow> auth_request \<Rightarrow> moment list \<Rightarrow> auth_stage \<Rightarrow> bool" where
  "stage_ok sha compare r ms st \<longleftrightarrow>
     (st = Missed \<or> (\<exists>p. st = Hit p) \<or> (\<exists>cs. st = Selected cs) \<longrightarrow>
        ExtractAPIKey r \<noteq> [] \<and> \<not> strings_HasPrefix (ExtractAPIKey r) sessionTokenPrefix)
     \<and> (\<forall>cs. st = Selected cs \<longrightarrow> (\<exists>m \<in> set ms. set cs \<subseteq> set (db_keys (snd m))))
     \<and> (\<forall>p. st \<in> {Resolved (Inr p), SessionResolved (Inr p), Decided (Proceed (Some p))} \<longrightarrow>
          (\<exists>m \<in> set ms. vouched sha compare r m p))
     \<and> st \<noteq> Decided (Proceed None)"

lemma stage_ok_later: "stage_ok sha compare r ms st \<Longrightarrow> set ms \<subseteq> set ms' \<Longrightarrow> stage_ok sha compare r ms' st"
  unfolding stage_ok_def by blast

lemma answer_proceeds:
  "key_answer res = (Proceed q, failed) \<Longrightarrow> \<exists>p. res = Inr p \<and> q = Some p"
  "session_answer res = (Proceed q, failed) \<Longrightarrow> \<exists>p. res = Inr p \<and> q = Some p"
  "missing_answer \<noteq> (Proceed q, failed)" "limited_answer d \<noteq> Proceed q"
  by (auto simp: key_answer_def session_answer_def missing_answer_def limited_answer_def split: sum.splits if_splits)

lemma auth_run_now: "auth_run sha compare presented ip r i ms st al y \<Longrightarrow> \<exists>t ms'. ms = (t, rp_db y) # ms'"
proof (induction rule: auth_run.induct)
  case (recheck ms p al y ok res s)
  then show ?case using resolve_recheck_frame [OF recheck.hyps(2)] by (simp add: replica_def)
qed auto

lemma recheck_vouched:
  assumes "inj_on (hashKey sha) presented" "ExtractAPIKey r \<in> presented"
    and "auth_run sha compare presented ip r i ms (Hit p) al y" "resolve_recheck ok p (replica y i) = (Inr q, s)"
  shows "key_vouched compare (ExtractAPIKey r) (t, rp_db y) q"
proof -
  have inv: "replicas_inv sha compare presented (add_calls {#Recheck i (ExtractAPIKey r) p#} y)"
    using replicas_reachable_inv [OF auth_run_reachable [OF assms(3,2)] assms(1)] by simp
  then have "key_history_ok (db_keys (rp_db y)) (rp_history y)" "proved compare (rp_history y) (ExtractAPIKey r) p"
    by (simp_all add: replicas_inv_def)
  then show ?thesis using resolve_recheck_sound [OF _ _ assms(4), of "rp_history y"] by (simp add: replica_def key_vouched_def)
qed

lemma auth_run_stage:
  assumes "auth_run sha compare presented ip r i ms st al y" "inj_on (hashKey sha) presented" "ExtractAPIKey r \<in> presented"
  shows "stage_ok sha compare r ms st"
  using assms
proof induction
  case (others m ms st al y y' t al')
  then show ?case by (auto intro: stage_ok_later)
next
  case (lookup ms al y tm phase c)
  then show ?case by (cases phase) (simp_all add: stage_ok_def)
next
  case (recheck ms p al y ok res s)
  obtain t ms' where now: "ms = (t, rp_db y) # ms'" using auth_run_now [OF recheck.hyps(1)] by blast
  have "ExtractAPIKey r \<noteq> [] \<and> \<not> strings_HasPrefix (ExtractAPIKey r) sessionTokenPrefix"
    using recheck.IH [OF recheck.prems] by (simp add: stage_ok_def)
  moreover have "key_vouched compare (ExtractAPIKey r) (t, rp_db y) q" if "res = Inr q" for q
    using recheck_vouched [OF recheck.prems recheck.hyps(1)] recheck.hyps(2) that by blast
  ultimately show ?case by (auto simp: stage_ok_def vouched_def now)
next
  case (select ms al y ok res)
  obtain t ms' where now: "ms = (t, rp_db y) # ms'" using auth_run_now [OF select.hyps(1)] by blast
  show ?case
    using select.IH [OF select.prems] select.hyps(2)
    by (auto simp: stage_ok_def select_stage_def resolve_select_def now split: if_splits)
next
  case (finish m ms cs al y ok tm res s t)
  have st: "ExtractAPIKey r \<noteq> []" "\<not> strings_HasPrefix (ExtractAPIKey r) sessionTokenPrefix"
    "\<exists>m' \<in> set (m # ms). set cs \<subseteq> set (db_keys (snd m'))"
    using finish.IH [OF finish.prems] by (simp_all add: stage_ok_def)
  have "\<exists>m' \<in> set ((t, ts_db s) # m # ms). key_vouched compare (ExtractAPIKey r) m' q" if "res = Inr q" for q
  proof -
    obtain k where "k \<in> set cs" "principal_of k = q" "compare (kr_hash k) (ExtractAPIKey r)"
      using resolve_finish_sound finish.hyps(2) \<open>res = Inr q\<close> by blast
    moreover obtain m' where "m' \<in> set (m # ms)" "set cs \<subseteq> set (db_keys (snd m'))" using st(3) by blast
    ultimately show ?thesis unfolding key_vouched_def by (intro bexI [of _ m']) auto
  qed
  then show ?case using st(1,2) by (simp add: stage_ok_def vouched_def)
next
  case (bearer_session m ms al y now ok ok' res s)
  then show ?case
    using ResolveSession_vouched [of sha ok ok' now "ExtractAPIKey r" "replica y i"] by (auto simp: stage_ok_def vouched_def replica_def)
next
  case (cookie_session m ms al y now ok ok' res s)
  then show ?case
    using ResolveSession_vouched [of sha ok ok' now "extractSessionToken r" "replica y i"] by (auto simp: stage_ok_def vouched_def replica_def)
next
  case (key_decided ms res al y out failed now)
  then show ?case using answer_proceeds(1) [of res _ failed] by (auto simp: stage_ok_def)
next
  case (session_decided ms res al y out failed now)
  then show ?case using answer_proceeds(2) [of res _ failed] by (auto simp: stage_ok_def)
next
  case (missing ms al y out failed now)
  then show ?case using answer_proceeds(3) [of _ failed] by (auto simp: stage_ok_def)
qed (simp_all add: stage_ok_def answer_proceeds(4))

text \<open>\<^verbatim>\<open>AuthMiddleware\<close> of a request that nothing interrupts is such a run.\<close>

lemma replica_put [simp]: "replica (put_replica i s y) i = s"
  by (simp add: replica_def put_replica_def)

lemma replica_cache: "replica (y\<lparr>rp_caches := (rp_caches y)(i := c)\<rparr>) i = (replica y i)\<lparr>ts_cache := c\<rparr>"
  by (simp add: replica_def)

lemma Resolve_is_run:
  assumes run: "auth_run sha compare presented ip r i (m # ms) Allowed al y"
    and key: "ExtractAPIKey r \<noteq> []" "\<not> strings_HasPrefix (ExtractAPIKey r) sessionTokenPrefix"
    and res: "Resolve sha compare ok ok' tm (ExtractAPIKey r) (replica y i) = (res, s')"
  shows "\<exists>ms' y'. auth_run sha compare presented ip r i ms' (Resolved res) al y' \<and> replica y' i = s'"
proof -
  obtain phase c where l: "resolve_lookup sha tm (ExtractAPIKey r) (rp_caches y i) = (phase, c)" by fastforce
  let ?y = "y\<lparr>rp_caches := (rp_caches y)(i := c)\<rparr>"
  have 1: "auth_run sha compare presented ip r i (m # ms) (lookup_stage phase) al ?y" by (rule auth_run.lookup [OF run key l])
  have l': "resolve_lookup sha tm (ExtractAPIKey r) (ts_cache (replica y i)) = (phase, c)" using l by (simp add: replica_def)
  show ?thesis
  proof (cases phase)
    case (ResolveDone e)
    then show ?thesis using 1 res l' replica_cache [of y i c] by (fastforce simp: Resolve_def)
  next
    case (CacheHit p)
    then have "resolve_recheck ok p (replica ?y i) = (res, s')" using res l' by (simp add: Resolve_def replica_cache)
    then show ?thesis using auth_run.recheck 1 CacheHit replica_put by (metis lookup_stage.simps(2))
  next
    case CacheMiss
    have db: "rp_db ?y = ts_db (replica y i)" by (simp add: replica_def)
    have 2: "auth_run sha compare presented ip r i (m # ms) (select_stage (resolve_select ok (ExtractAPIKey r) (rp_db ?y))) al ?y"
      using auth_run.select [OF _ refl] 1 CacheMiss by (metis lookup_stage.simps(3))
    show ?thesis
    proof (cases "resolve_select ok (ExtractAPIKey r) (rp_db ?y)")
      case (Inl e)
      then show ?thesis using 2 res l' CacheMiss db replica_cache [of y i c] by (fastforce simp: Resolve_def select_stage_def)
    next
      case (Inr cs)
      then have "resolve_finish sha compare ok' tm (ExtractAPIKey r) cs (replica ?y i) = (res, s')"
        using res l' CacheMiss db by (simp add: Resolve_def replica_cache)
      then show ?thesis using auth_run.finish 2 Inr replica_put order_refl by (metis select_stage_def sum.case(2))
    qed
  qed
qed

lemma AuthMiddleware_is_run:
  assumes "replicas_reachable (ae_sha env) (ae_compare env) presented y"
    and "AuthMiddleware env env' now now' False ip r (al, replica y i) = (out, al', s')"
  shows "\<exists>ms y'. auth_run (ae_sha env) (ae_compare env) presented ip r i ms (Decided out) al' y' \<and> replica y' i = s'"
proof -
  let ?run = "auth_run (ae_sha env) (ae_compare env) presented ip r i"
  define m where "m = (ae_tm env 0, rp_db y)"
  obtain b retry al1 where l: "authFailureAllowed now ip al = ((b, retry), al1)" by (metis prod.exhaust)
  have 0: "?run [m] Arrived al y" unfolding m_def by (rule auth_run.arrive [OF assms(1)])
  show ?thesis
  proof (cases b)
    case False
    then show ?thesis using auth_run.limited [OF 0, of now retry al1] l assms(2) by (fastforce simp: AuthMiddleware_def)
  next
    case True
    have 1: "?run [m] Allowed al1 y" by (rule auth_run.allowed [OF 0]) (use l True in simp)
    obtain out' failed s1 where c: "credential_step env r (replica y i) = ((out', failed), s1)" by (metis prod.exhaust)
    have o: "out = out'" "al' = record_failure failed now' ip al1" "s' = s1"
      using assms(2) l True c by (auto simp: AuthMiddleware_def)
    show ?thesis
    proof (cases "ExtractAPIKey r = []")
      case key: True
      show ?thesis
      proof (cases "extractSessionToken r = []")
        case True
        then show ?thesis using auth_run.missing [OF 1 key True, of out' failed now'] c o key by (auto simp: credential_step_def)
      next
        case False
        obtain res s2 where e: "env_ResolveSession env (extractSessionToken r) (replica y i) = (res, s2)" by fastforce
        then have a: "session_answer res = (out', failed)" "s2 = s1" using c key False by (auto simp: credential_step_def)
        have "\<exists>ms. ?run ms (SessionResolved res) al1 (put_replica i s2 y)"
          using auth_run.cookie_session [OF 1 key False _ e [unfolded env_ResolveSession_def]] by (auto simp: m_def)
        then show ?thesis using auth_run.session_decided a o replica_put by metis
      qed
    next
      case key: False
      obtain res s2 where e: "resolveBearer env (ExtractAPIKey r) (replica y i) = (res, s2)" by fastforce
      then have a: "key_answer res = (out', failed)" "s2 = s1" using c key by (auto simp: credential_step_def)
      have "\<exists>ms y'. ?run ms (Resolved res) al1 y' \<and> replica y' i = s2"
      proof (cases "strings_HasPrefix (ExtractAPIKey r) sessionTokenPrefix")
        case True
        then have "ResolveSession (ae_sha env) (ae_ok env 0) (ae_ok env 1) (ae_tm env 0) (ExtractAPIKey r) (replica y i) = (res, s2)"
          using e by (simp add: resolveBearer_def env_ResolveSession_def)
        from auth_run.bearer_session [OF 1 key True _ this] show ?thesis by (intro exI conjI) (auto simp: m_def)
      next
        case False
        then show ?thesis using Resolve_is_run [OF 1 key False] e by (simp add: resolveBearer_def)
      qed
      then show ?thesis using auth_run.key_decided a o by metis
    qed
  qed
qed

text \<open>
  C14. A management handler behind a floor runs only for a principal whose role reaches the floor and which the shared
  database vouched for at some moment between the arrival of the request and the decision on it: by a row of the
  key table that accepts the presented key, with this tenant, role and version, or by a session of the presented
  token that had not expired. This holds under every interleaving with the other requests of all replicas; what a
  cache holds is never enough.
\<close>

theorem gated_request_authorised:
  assumes "inj_on (hashKey sha) presented" "ExtractAPIKey r \<in> presented"
    and "auth_run sha compare presented ip r i ms (Decided (Proceed q)) al y"
    and "managed_gate True floor_role q = Proceed q'" "floor_role \<noteq> roleOpen"
  shows "\<exists>p. q' = Some p \<and> AtLeast (pl_Role p) floor_role \<and> (\<exists>m \<in> set ms. vouched sha compare r m p)"
proof -
  have "stage_ok sha compare r ms (Decided (Proceed q))" by (rule auth_run_stage [OF assms(3,1,2)])
  then obtain p where "q = Some p" "\<exists>m \<in> set ms. vouched sha compare r m p" by (cases q) (auto simp: stage_ok_def)
  then show ?thesis using assms(4,5) by (auto simp: managed_gate_def RequireRole_def split: if_splits)
qed

definition sample_auth_request :: auth_request where
  "sample_auth_request = \<lparr>ar_Authorization = ''bearer  '' @ sample_key, ar_XApiKey = [], ar_apiKey = [], ar_cookie = None,
     ar_remoteAddr = ''10.0.0.9'', ar_forwarded = []\<rparr>"

definition sample_principal :: principal where
  "sample_principal = \<lparr>pl_TenantID = ''ten_1'', pl_KeyID = ''key_0101010101010101'', pl_Role = RoleAdmin, pl_CredentialVersion = 1\<rparr>"

text \<open>
  The moment need not be the last one: a key that another replica deletes after the rows were selected is still
  accepted when the comparison is done.
\<close>

definition sample_deleted :: tenancy_store where
  "sample_deleted = snd (DeleteAPIKey True None ''ten_1'' ''key_0101010101010101'' (replica sample_keyed 0))"

lemma deleted_key_passes:
  "\<exists>ms al y. auth_run (\<lambda>_. []) (=) {sample_key} ''10.0.0.9'' sample_auth_request 1 ms (Decided (Proceed (Some sample_principal))) al y
     \<and> db_keys (rp_db y) = []"
proof -
  let ?run = "auth_run (\<lambda>_. []) (=) {sample_key} ''10.0.0.9'' sample_auth_request 1" and ?m = "(0, rp_db sample_keyed)"
  have key: "ExtractAPIKey sample_auth_request = sample_key" "sample_key \<noteq> []" "\<not> strings_HasPrefix sample_key sessionTokenPrefix"
    by code_simp+
  define c where "c = snd (resolve_lookup (\<lambda>_. []) (\<lambda>_. 0) sample_key (rp_caches sample_keyed 1))"
  define y1 where "y1 = sample_keyed\<lparr>rp_caches := (rp_caches sample_keyed)(1 := c)\<rparr>"
  have "fst (resolve_lookup (\<lambda>_. []) (\<lambda>_. 0) sample_key (rp_caches sample_keyed 1)) = CacheMiss" by code_simp
  then have "resolve_lookup (\<lambda>_. []) (\<lambda>_. 0) sample_key (rp_caches sample_keyed 1) = (CacheMiss, c)" by (metis c_def prod.collapse)
  moreover have "?run [?m] Arrived None sample_keyed" by (rule auth_run.arrive [OF sample_keyed_reachable])
  then have 0: "?run [?m] Allowed None sample_keyed"
    by (rule auth_run.allowed [where now = 0 and retry = 0]) (simp add: authFailureAllowed_def)
  ultimately have 1: "?run [?m] Missed None y1"
    using auth_run.lookup [OF 0, of "\<lambda>_. 0" CacheMiss c] key unfolding y1_def lookup_stage.simps by metis
  define ks where "ks = filter (\<lambda>k. kr_prefix k = take apiKeyPrefixLen sample_key) (db_keys (rp_db sample_keyed))"
  have "resolve_select True (ExtractAPIKey sample_auth_request) (rp_db y1) = Inr ks"
    by (simp add: resolve_select_def ks_def y1_def key(1))
  then have 2: "?run [?m] (Selected ks) None y1" using auth_run.select [OF 1] by (metis select_stage_def sum.case(2))
  define y2 where "y2 = put_replica 0 sample_deleted y1"
  have "replica y1 0 = replica sample_keyed 0" by (simp add: replica_def y1_def)
  moreover have "tenancy_step (fst ` dom (rp_history y1)) (replica sample_keyed 0) sample_deleted"
    unfolding sample_deleted_def by (rule tenancy_step.delete_key [OF prod.collapse [symmetric]])
  ultimately have "replicas_step (\<lambda>_. []) (=) {sample_key} y1 y2" unfolding y2_def by (intro replicas_step.operation) simp
  from auth_run.others [OF 2 this, of 0] have 3: "?run [(0, rp_db y2), ?m] (Selected ks) None y2" by simp
  define res where "res = resolve_finish (\<lambda>_. []) (=) True (\<lambda>_. 0) sample_key ks (replica y2 1)"
  have "find (\<lambda>c. kr_hash c = sample_key) ks \<noteq> None \<and> principal_of (the (find (\<lambda>c. kr_hash c = sample_key) ks)) = sample_principal"
    unfolding ks_def by code_simp
  then have ok: "fst res = Inr sample_principal" by (auto simp: res_def resolve_finish_def)
  have "\<exists>ms. ?run ms (Resolved (Inr sample_principal)) None (put_replica 1 (snd res) y2)"
    using auth_run.finish [OF 3, of True "\<lambda>_. 0" "Inr sample_principal" "snd res" 0] ok key(1) by (auto simp: res_def prod_eq_iff)
  then have "\<exists>ms al. ?run ms (Decided (Proceed (Some sample_principal))) al (put_replica 1 (snd res) y2)"
    using auth_run.key_decided [of _ _ _ _ _ _ _ "Inr sample_principal"] by (fastforce simp: key_answer_def)
  moreover have "db_keys (ts_db sample_deleted) = []" by code_simp
  then have "db_keys (rp_db y2) = []" by (simp add: y2_def)
  then have "db_keys (ts_db (snd res)) = []"
    by (auto simp: res_def resolve_finish_def replica_def update_keys_def split: option.split)
  ultimately show ?thesis by fastforce
qed

theorem gated_request_authorised_witness:
  "\<exists>ms al y. auth_run (\<lambda>_. []) (=) {sample_key} ''10.0.0.9'' sample_auth_request 1 ms (Decided (Proceed (Some sample_principal))) al y
     \<and> AtLeast (pl_Role sample_principal) RoleAdmin
     \<and> (\<exists>m \<in> set ms. vouched (\<lambda>_. []) (=) sample_auth_request m sample_principal)"
proof -
  obtain ms al y where run: "auth_run (\<lambda>_. []) (=) {sample_key} ''10.0.0.9'' sample_auth_request 1 ms (Decided (Proceed (Some sample_principal))) al y"
    using deleted_key_passes by blast
  have gate: "managed_gate True RoleAdmin (Some sample_principal) = Proceed (Some sample_principal)" by code_simp
  have key: "ExtractAPIKey sample_auth_request = sample_key" by code_simp
  have "\<exists>p. Some sample_principal = Some p \<and> AtLeast (pl_Role p) RoleAdmin \<and> (\<exists>m \<in> set ms. vouched (\<lambda>_. []) (=) sample_auth_request m p)"
    by (rule gated_request_authorised [OF _ _ run gate]) (simp_all add: key roleOpen_def)
  then show ?thesis using run by blast
qed

end
