(* ===== verification/Tenancy_API.thy ===== *)
theory Tenancy_API
  imports Auth
begin

text \<open>
  The management API of tenants, keys and quotas (\<^verbatim>\<open>internal/server/tenancy_handlers.go\<close>,
  \<^verbatim>\<open>internal/server/quota_handlers.go\<close>): every handler, behind the gate of its route. A request is what the handler
  reads of it: the principal the middleware attached, the path and query values and the decoded body. The audit
  recorder is the list of the events it was handed, absent when auditing is off.
\<close>

section \<open>Requests and replies\<close>

datatype 'a body = TooLarge | Malformed | Decoded 'a

record api_request =
  aq_principal :: "principal option"
  aq_id :: string
  aq_tenant :: string
  aq_except :: string

datatype api_body =
    ApiError string
  | ApiTenants "tenant list"
  | ApiTenant tenant
  | ApiKeys "api_key list"
  | ApiNewKey new_api_key
  | ApiRole string role
  | ApiBulk nat "new_api_key list"
  | ApiQuota string quota_config "string \<times> rat"
  | ApiLimits string quota_config
  | ApiEmpty

type_synonym api_reply = "int \<times> api_body"

record audit_event =
  ev_kind :: string
  ev_target :: string
  ev_details :: jobject

record mgmt_state =
  mg_store :: tenancy_store
  mg_audit :: "audit_event list option"
  mg_quota :: "enforcer option"

definition RecordHTTP :: "string \<Rightarrow> string \<Rightarrow> jobject \<Rightarrow> mgmt_state \<Rightarrow> mgmt_state" where
  "RecordHTTP kind target details m =
     m\<lparr>mg_audit := map_option (\<lambda>es. es @ [\<lparr>ev_kind = kind, ev_target = target, ev_details = details\<rparr>]) (mg_audit m)\<rparr>"

definition put_store :: "tenancy_store \<Rightarrow> mgmt_state \<Rightarrow> mgmt_state" where
  "put_store s m = m\<lparr>mg_store := s\<rparr>"

text \<open>What one request is given: the outcomes of its statements, its clock and its random draws.\<close>

record mgmt_env =
  ge_ok :: "nat \<Rightarrow> bool"
  ge_now :: instant
  ge_rnd :: "8 word list option"
  ge_draws :: "nat \<Rightarrow> key_draws"

abbreviation server_error :: api_reply where
  "server_error \<equiv> (500, ApiError ''internal error'')"

definition decodeJSONBody :: "'a body \<Rightarrow> api_reply + 'a" where
  "decodeJSONBody b =
     (case b of
        TooLarge \<Rightarrow> Inl (413, ApiError ''request body too large'')
      | Malformed \<Rightarrow> Inl (400, ApiError ''invalid JSON'')
      | Decoded x \<Rightarrow> Inr x)"

definition principalOrUnauthorized :: "api_request \<Rightarrow> api_reply + principal" where
  "principalOrUnauthorized r = (case aq_principal r of None \<Rightarrow> Inl (401, ApiError ''authentication required'') | Some p \<Rightarrow> Inr p)"

definition tenantExists :: "bool \<Rightarrow> string \<Rightarrow> tenancy_db \<Rightarrow> api_reply option" where
  "tenantExists ok ident db =
     (case GetTenant ok ident db of
        Inl ErrNotFound \<Rightarrow> Some (404, ApiError ''tenant not found'')
      | Inl _ \<Rightarrow> Some server_error
      | Inr _ \<Rightarrow> None)"

definition ensureOwnTenant :: "bool \<Rightarrow> api_request \<Rightarrow> tenancy_db \<Rightarrow> api_reply + string" where
  "ensureOwnTenant ok r db =
     (case principalOrUnauthorized r of Inl e \<Rightarrow> Inl e | Inr p \<Rightarrow>
      if aq_id r = pl_TenantID p then Inr (aq_id r)
      else if pl_Role p = RolePlatform
        then (case tenantExists ok (aq_id r) db of Some e \<Rightarrow> Inl e | None \<Rightarrow> Inr (aq_id r))
        else Inl (404, ApiError ''tenant not found''))"

definition keyScopeTenant :: "bool \<Rightarrow> api_request \<Rightarrow> principal \<Rightarrow> tenancy_db \<Rightarrow> api_reply + string" where
  "keyScopeTenant ok r p db =
     (if aq_tenant r = [] \<or> aq_tenant r = pl_TenantID p then Inr (pl_TenantID p)
      else if pl_Role p \<noteq> RolePlatform then Inl (404, ApiError ''api key not found'')
      else case tenantExists ok (aq_tenant r) db of Some e \<Rightarrow> Inl e | None \<Rightarrow> Inr (aq_tenant r))"

section \<open>Tenants\<close>

definition api_ListTenants :: "mgmt_env \<Rightarrow> mgmt_state \<Rightarrow> api_reply \<times> mgmt_state" where
  "api_ListTenants env m =
     (case ListTenants (ge_ok env 0) (ts_db (mg_store m)) of Inl _ \<Rightarrow> (server_error, m) | Inr ts \<Rightarrow> ((200, ApiTenants ts), m))"

definition api_CreateTenant :: "mgmt_env \<Rightarrow> string body \<Rightarrow> mgmt_state \<Rightarrow> api_reply \<times> mgmt_state" where
  "api_CreateTenant env b m =
     (case decodeJSONBody b of Inl e \<Rightarrow> (e, m) | Inr name \<Rightarrow>
      if name = [] then ((400, ApiError ''name is required''), m)
      else case CreateTenant (ge_ok env 0) (ge_rnd env) (ge_now env) name (mg_store m) of
        (Inl ErrConflict, s) \<Rightarrow> ((409, ApiError ''tenant name already exists''), put_store s m)
      | (Inl _, s) \<Rightarrow> (server_error, put_store s m)
      | (Inr t, s) \<Rightarrow> ((201, ApiTenant t), RecordHTTP ''tenant.created'' (tn_ID t) [(''name'', JStr (tn_Name t))] (put_store s m)))"

definition api_DeleteTenant :: "mgmt_env \<Rightarrow> api_request \<Rightarrow> mgmt_state \<Rightarrow> api_reply \<times> mgmt_state" where
  "api_DeleteTenant env r m =
     (case DeleteTenant (ge_ok env 0) (aq_id r) (mg_store m) of
        (Inl ErrNotFound, s) \<Rightarrow> ((404, ApiError ''tenant not found''), put_store s m)
      | (Inl _, s) \<Rightarrow> (server_error, put_store s m)
      | (Inr _, s) \<Rightarrow> ((204, ApiEmpty), RecordHTTP ''tenant.deleted'' (aq_id r) [] (put_store s m)))"

section \<open>Keys\<close>

definition api_ListAPIKeys :: "mgmt_env \<Rightarrow> api_request \<Rightarrow> mgmt_state \<Rightarrow> api_reply \<times> mgmt_state" where
  "api_ListAPIKeys env r m =
     (let db = ts_db (mg_store m) in
      case ensureOwnTenant (ge_ok env 0) r db of Inl e \<Rightarrow> (e, m) | Inr tid \<Rightarrow>
      (case ListAPIKeys (ge_ok env 1) tid db of Inl _ \<Rightarrow> (server_error, m) | Inr ks \<Rightarrow> ((200, ApiKeys ks), m)))"

definition key_details :: "string \<Rightarrow> new_api_key \<Rightarrow> (string \<times> json) list \<Rightarrow> jobject" where
  "key_details oldPrefix nk extra =
     [(''tenant_id'', JStr (ak_TenantID (nk_Key nk))), (''name'', JStr (ak_Name (nk_Key nk))), (''role'', JStr (ak_Role (nk_Key nk))),
      (''old_prefix'', JStr oldPrefix), (''new_prefix'', JStr (ak_Prefix (nk_Key nk)))] @ extra"

definition api_CreateAPIKey :: "mgmt_env \<Rightarrow> api_request \<Rightarrow> (string \<times> role) body \<Rightarrow> mgmt_state \<Rightarrow> api_reply \<times> mgmt_state" where
  "api_CreateAPIKey env r b m =
     (case ensureOwnTenant (ge_ok env 0) r (ts_db (mg_store m)) of Inl e \<Rightarrow> (e, m) | Inr tid \<Rightarrow>
      (case decodeJSONBody b of Inl e \<Rightarrow> (e, m) | Inr (name, role) \<Rightarrow>
       if \<not> IsAssignableViaAPI role then ((400, ApiError ''invalid role (must be viewer, editor, or admin)''), m)
       else case CreateAPIKey (ge_ok env 1) (ge_draws env 0) (ge_now env) tid name role (mg_store m) of
         (Inl ErrNotFound, s) \<Rightarrow> ((404, ApiError ''tenant not found''), put_store s m)
       | (Inl _, s) \<Rightarrow> (server_error, put_store s m)
       | (Inr nk, s) \<Rightarrow>
           ((201, ApiNewKey nk),
            RecordHTTP ''api_key.created'' (ak_ID (nk_Key nk))
              [(''tenant_id'', JStr tid), (''name'', JStr (ak_Name (nk_Key nk))), (''role'', JStr (ak_Role (nk_Key nk))),
               (''prefix'', JStr (ak_Prefix (nk_Key nk)))] (put_store s m))))"

definition api_UpdateAPIKeyRole :: "mgmt_env \<Rightarrow> api_request \<Rightarrow> role body \<Rightarrow> mgmt_state \<Rightarrow> api_reply \<times> mgmt_state" where
  "api_UpdateAPIKeyRole env r b m =
     (case principalOrUnauthorized r of Inl e \<Rightarrow> (e, m) | Inr p \<Rightarrow>
      (case decodeJSONBody b of Inl e \<Rightarrow> (e, m) | Inr role \<Rightarrow>
       if \<not> IsAssignableViaAPI role then ((400, ApiError ''invalid role (must be viewer, editor, or admin)''), m)
       else case keyScopeTenant (ge_ok env 0) r p (ts_db (mg_store m)) of Inl e \<Rightarrow> (e, m) | Inr tid \<Rightarrow>
         (case UpdateAPIKeyRole (ge_ok env 1) (Some p) tid (aq_id r) role (mg_store m) of
            (Inl ErrForbidden, s) \<Rightarrow> ((403, ApiError ''insufficient role for target api key''), put_store s m)
          | (Inl ErrNotFound, s) \<Rightarrow> ((404, ApiError ''api key not found''), put_store s m)
          | (Inl _, s) \<Rightarrow> (server_error, put_store s m)
          | (Inr (old, new), s) \<Rightarrow>
              ((200, ApiRole (aq_id r) new),
               RecordHTTP ''api_key.role_changed'' (aq_id r) [(''from'', JStr old), (''to'', JStr new)] (put_store s m)))))"

definition rotate_reply :: "tenancy_error \<Rightarrow> api_reply" where
  "rotate_reply e =
     (case e of
        ErrForbidden \<Rightarrow> (403, ApiError ''insufficient role for target api key'')
      | ErrNotFound \<Rightarrow> (404, ApiError ''api key not found'')
      | ErrConflict \<Rightarrow> (409, ApiError ''api key changed concurrently; retry the rotation'')
      | _ \<Rightarrow> server_error)"

definition api_RotateAPIKey :: "mgmt_env \<Rightarrow> api_request \<Rightarrow> mgmt_state \<Rightarrow> api_reply \<times> mgmt_state" where
  "api_RotateAPIKey env r m =
     (case principalOrUnauthorized r of Inl e \<Rightarrow> (e, m) | Inr p \<Rightarrow>
      (case keyScopeTenant (ge_ok env 0) r p (ts_db (mg_store m)) of Inl e \<Rightarrow> (e, m) | Inr tid \<Rightarrow>
       (case RotateAPIKey (ge_ok env 1) (ge_ok env 2) (ge_draws env 0) (Some p) tid (aq_id r) (mg_store m) of
          (Inl e, s) \<Rightarrow> (rotate_reply e, put_store s m)
        | (Inr (nk, old), s) \<Rightarrow>
            ((200, ApiNewKey nk), RecordHTTP ''api_key.rotated'' (ak_ID (nk_Key nk)) (key_details old nk []) (put_store s m)))))"

text \<open>The self-service routes know no refusal for a role: that error is a server error there.\<close>

definition self_reply :: "tenancy_error \<Rightarrow> api_reply" where
  "self_reply e = (if e = ErrForbidden then server_error else rotate_reply e)"

definition api_RotateMyAPIKey :: "mgmt_env \<Rightarrow> api_request \<Rightarrow> mgmt_state \<Rightarrow> api_reply \<times> mgmt_state" where
  "api_RotateMyAPIKey env r m =
     (case aq_principal r of
        None \<Rightarrow> ((401, ApiError ''self-rotation requires an authenticated request''), m)
      | Some p \<Rightarrow>
          if pl_KeyID p = [] then ((401, ApiError ''self-rotation requires an authenticated request''), m)
          else case RotateAPIKey (ge_ok env 1) (ge_ok env 2) (ge_draws env 0) (Some p) (pl_TenantID p) (pl_KeyID p) (mg_store m) of
            (Inl e, s) \<Rightarrow> (self_reply e, put_store s m)
          | (Inr (nk, old), s) \<Rightarrow>
              ((200, ApiNewKey nk),
               RecordHTTP ''api_key.rotated'' (ak_ID (nk_Key nk)) (key_details old nk [(''self'', JBool True)]) (put_store s m)))"

definition api_BurnMyAPIKey :: "mgmt_env \<Rightarrow> api_request \<Rightarrow> mgmt_state \<Rightarrow> api_reply \<times> mgmt_state" where
  "api_BurnMyAPIKey env r m =
     (case aq_principal r of
        None \<Rightarrow> ((401, ApiError ''burn requires an authenticated request''), m)
      | Some p \<Rightarrow>
          if pl_KeyID p = [] then ((401, ApiError ''burn requires an authenticated request''), m)
          else case RotateAPIKey (ge_ok env 1) (ge_ok env 2) (ge_draws env 0) (Some p) (pl_TenantID p) (pl_KeyID p) (mg_store m) of
            (Inl e, s) \<Rightarrow> (self_reply e, put_store s m)
          | (Inr (nk, old), s) \<Rightarrow>
              ((204, ApiEmpty),
               RecordHTTP ''api_key.rotated'' (ak_ID (nk_Key nk)) (key_details old nk [(''self'', JBool True), (''burn'', JBool True)])
                 (put_store s m)))"

definition record_bulk :: "new_api_key list \<Rightarrow> string list \<Rightarrow> mgmt_state \<Rightarrow> mgmt_state" where
  "record_bulk nks olds m =
     fold (\<lambda>(nk, old). RecordHTTP ''api_key.rotated'' (ak_ID (nk_Key nk)) (key_details old nk [(''bulk'', JBool True)])) (zip nks olds) m"

definition api_BulkRotateTenantKeys :: "mgmt_env \<Rightarrow> api_request \<Rightarrow> mgmt_state \<Rightarrow> api_reply \<times> mgmt_state" where
  "api_BulkRotateTenantKeys env r m =
     (case principalOrUnauthorized r of Inl e \<Rightarrow> (e, m) | Inr p \<Rightarrow>
      (case ensureOwnTenant (ge_ok env 0) r (ts_db (mg_store m)) of Inl e \<Rightarrow> (e, m) | Inr tid \<Rightarrow>
       let ex = (if aq_except r = ''self'' \<and> pl_KeyID p \<noteq> [] then [pl_KeyID p] else []) in
       (case BulkRotateTenantKeys (ge_ok env 1) (ge_ok env 2) (ge_draws env) (Some p) tid ex (mg_store m) of
          (Inl ErrForbidden, s) \<Rightarrow> ((403, ApiError ''bulk rotation contains an api key above the caller's role''), put_store s m)
        | (Inl ErrNotFound, s) \<Rightarrow> ((404, ApiError ''tenant not found''), put_store s m)
        | (Inl _, s) \<Rightarrow> (server_error, put_store s m)
        | (Inr (nks, olds), s) \<Rightarrow>
            if length olds \<noteq> length nks then (server_error, put_store s m)
            else ((200, ApiBulk (length nks) nks), record_bulk nks olds (put_store s m)))))"

definition api_DeleteAPIKey :: "mgmt_env \<Rightarrow> api_request \<Rightarrow> mgmt_state \<Rightarrow> api_reply \<times> mgmt_state" where
  "api_DeleteAPIKey env r m =
     (case principalOrUnauthorized r of Inl e \<Rightarrow> (e, m) | Inr p \<Rightarrow>
      (case keyScopeTenant (ge_ok env 0) r p (ts_db (mg_store m)) of Inl e \<Rightarrow> (e, m) | Inr tid \<Rightarrow>
       (case DeleteAPIKey (ge_ok env 1) (Some p) tid (aq_id r) (mg_store m) of
          (Inl ErrForbidden, s) \<Rightarrow> ((403, ApiError ''insufficient role for target api key''), put_store s m)
        | (Inl ErrNotFound, s) \<Rightarrow> ((404, ApiError ''api key not found''), put_store s m)
        | (Inl _, s) \<Rightarrow> (server_error, put_store s m)
        | (Inr _, s) \<Rightarrow> ((204, ApiEmpty), RecordHTTP ''api_key.deleted'' (aq_id r) [] (put_store s m)))))"

section \<open>Quotas\<close>

definition callerTenantID :: "api_request \<Rightarrow> string" where
  "callerTenantID r = (case aq_principal r of None \<Rightarrow> [] | Some p \<Rightarrow> pl_TenantID p)"

definition api_GetQuota :: "mgmt_env \<Rightarrow> instant \<Rightarrow> api_request \<Rightarrow> mgmt_state \<Rightarrow> api_reply \<times> mgmt_state" where
  "api_GetQuota env now' r m =
     (case mg_quota m of
        None \<Rightarrow> ((503, ApiError ''quotas not enabled''), m)
      | Some e \<Rightarrow>
          let t = callerTenantID r in
          (case Usage (ge_now env) (ge_ok env 0) now' t e (db_spend (ts_db (mg_store m))) of
             (u, e') \<Rightarrow> ((200, ApiQuota t (Effective t e) u), m\<lparr>mg_quota := Some e'\<rparr>)))"

definition api_SetTenantQuota :: "mgmt_env \<Rightarrow> api_request \<Rightarrow> quota_config body \<Rightarrow> mgmt_state \<Rightarrow> api_reply \<times> mgmt_state" where
  "api_SetTenantQuota env r b m =
     (case mg_quota m of
        None \<Rightarrow> ((503, ApiError ''quotas not enabled''), m)
      | Some e \<Rightarrow>
          if aq_id r = [] then ((400, ApiError ''missing tenant id''), m)
          else case b of
            Decoded cfg \<Rightarrow>
              if qc_RatePerSec cfg < 0 \<or> qc_RateBurst cfg < 0 \<or> qc_MonthlySpendUSD cfg < 0
              then ((400, ApiError ''quota values must be non-negative''), m)
              else (case SetTenantQuota (ge_ok env 0) (aq_id r) cfg (mg_store m) of
                  (Inl ErrNotFound, s) \<Rightarrow> ((404, ApiError ''tenant not found''), put_store s m)
                | (Inl _, s) \<Rightarrow> (server_error, put_store s m)
                | (Inr _, s) \<Rightarrow> ((200, ApiLimits (aq_id r) cfg), (put_store s m)\<lparr>mg_quota := Some (SetOverride (aq_id r) cfg e)\<rparr>))
          | _ \<Rightarrow> ((400, ApiError ''invalid JSON''), m))"

section \<open>The routes\<close>

datatype mgmt_call =
    CallListTenants
  | CallCreateTenant "string body"
  | CallDeleteTenant
  | CallListAPIKeys
  | CallCreateAPIKey "(string \<times> role) body"
  | CallBulkRotate
  | CallUpdateRole "role body"
  | CallRotate
  | CallRotateMe
  | CallBurnMe
  | CallDeleteKey
  | CallGetQuota
  | CallSetQuota "quota_config body"

fun route_pattern :: "mgmt_call \<Rightarrow> string" where
  "route_pattern CallListTenants = ''GET /api/v1/tenants''"
| "route_pattern (CallCreateTenant b) = ''POST /api/v1/tenants''"
| "route_pattern CallDeleteTenant = ''DELETE /api/v1/tenants/{id}''"
| "route_pattern CallListAPIKeys = ''GET /api/v1/tenants/{id}/keys''"
| "route_pattern (CallCreateAPIKey b) = ''POST /api/v1/tenants/{id}/keys''"
| "route_pattern CallBulkRotate = ''POST /api/v1/tenants/{id}/keys/rotate''"
| "route_pattern (CallUpdateRole b) = ''PATCH /api/v1/keys/{id}''"
| "route_pattern CallRotate = ''POST /api/v1/keys/{id}/rotate''"
| "route_pattern CallRotateMe = ''POST /api/v1/keys/me/rotate''"
| "route_pattern CallBurnMe = ''POST /api/v1/keys/me/burn''"
| "route_pattern CallDeleteKey = ''DELETE /api/v1/keys/{id}''"
| "route_pattern CallGetQuota = ''GET /api/v1/quota''"
| "route_pattern (CallSetQuota b) = ''PUT /api/v1/tenants/{id}/quota''"

fun mgmt_handler :: "mgmt_env \<Rightarrow> instant \<Rightarrow> mgmt_call \<Rightarrow> api_request \<Rightarrow> mgmt_state \<Rightarrow> api_reply \<times> mgmt_state" where
  "mgmt_handler env now' CallListTenants r m = api_ListTenants env m"
| "mgmt_handler env now' (CallCreateTenant b) r m = api_CreateTenant env b m"
| "mgmt_handler env now' CallDeleteTenant r m = api_DeleteTenant env r m"
| "mgmt_handler env now' CallListAPIKeys r m = api_ListAPIKeys env r m"
| "mgmt_handler env now' (CallCreateAPIKey b) r m = api_CreateAPIKey env r b m"
| "mgmt_handler env now' CallBulkRotate r m = api_BulkRotateTenantKeys env r m"
| "mgmt_handler env now' (CallUpdateRole b) r m = api_UpdateAPIKeyRole env r b m"
| "mgmt_handler env now' CallRotate r m = api_RotateAPIKey env r m"
| "mgmt_handler env now' CallRotateMe r m = api_RotateMyAPIKey env r m"
| "mgmt_handler env now' CallBurnMe r m = api_BurnMyAPIKey env r m"
| "mgmt_handler env now' CallDeleteKey r m = api_DeleteAPIKey env r m"
| "mgmt_handler env now' CallGetQuota r m = api_GetQuota env now' r m"
| "mgmt_handler env now' (CallSetQuota b) r m = api_SetTenantQuota env r b m"

definition serve :: "mgmt_env \<Rightarrow> instant \<Rightarrow> mgmt_call \<Rightarrow> api_request \<Rightarrow> mgmt_state \<Rightarrow> api_reply \<times> mgmt_state" where
  "serve env now' call r m =
     (case map_of managementRouteFloors (route_pattern call) of
        None \<Rightarrow> ((404, ApiError ''404 page not found''), m)
      | Some f \<Rightarrow>
          (case managed_gate True f (aq_principal r) of
             Deny status msg _ \<Rightarrow> ((status, ApiError msg), m)
           | Proceed _ \<Rightarrow> mgmt_handler env now' call r m))"

section \<open>Confinement\<close>

text \<open>What a caller of a tenant has no power over: the keys of other tenants and the platform's keys.\<close>

definition beyond :: "string \<Rightarrow> key_row \<Rightarrow> bool" where
  "beyond tid k \<longleftrightarrow> kr_tenant k \<noteq> tid \<or> kr_role k = RolePlatform"

definition confined :: "string \<Rightarrow> tenancy_db \<Rightarrow> tenancy_db \<Rightarrow> bool" where
  "confined tid db db' \<longleftrightarrow>
     (\<exists>ks. db' = db\<lparr>db_keys := ks\<rparr> \<and> filter (beyond tid) ks = filter (beyond tid) (db_keys db))"

lemma confined_refl [simp]: "confined tid db db"
  unfolding confined_def by (intro exI [of _ "db_keys db"]) simp

lemma confined_trans: "confined tid db db' \<Longrightarrow> confined tid db' db'' \<Longrightarrow> confined tid db db''"
  unfolding confined_def by auto

lemma confined_update:
  assumes "\<And>k. k \<in> set (db_keys db) \<Longrightarrow> P k \<Longrightarrow> \<not> beyond tid k \<and> \<not> beyond tid (f k)"
  shows "confined tid db (update_keys P f db)"
proof -
  have "filter (beyond tid) (map (\<lambda>k. if P k then f k else k) ks) = filter (beyond tid) ks" if "set ks \<subseteq> set (db_keys db)" for ks
    using that by (induction ks) (auto dest: assms)
  then show ?thesis unfolding confined_def update_keys_def by blast
qed

lemma confined_renew:
  assumes "\<And>k. P k \<Longrightarrow> \<not> beyond tid k"
  shows "confined tid db (update_keys P (renewed pfx hash) db)"
  using assms by (intro confined_update) (auto simp: beyond_def renewed_def)

lemma confined_filter:
  assumes "\<And>k. k \<in> set (db_keys db) \<Longrightarrow> \<not> P k \<Longrightarrow> \<not> beyond tid k"
  shows "confined tid db (db\<lparr>db_keys := filter P (db_keys db)\<rparr>)"
proof -
  have "filter (beyond tid) (filter P (db_keys db)) = filter (beyond tid) (db_keys db)"
    unfolding filter_filter by (rule filter_cong) (use assms in auto)
  then show ?thesis unfolding confined_def by blast
qed

lemma authorised_target:
  "authorizeKeyTarget (Some p) tid role \<Longrightarrow> pl_Role p \<noteq> RolePlatform \<Longrightarrow> tid = pl_TenantID p \<and> role \<noteq> RolePlatform"
  by (auto simp: authorizeKeyTarget_def)

lemma find_key_props: "find_key kid tid db = Some k \<Longrightarrow> k \<in> set (db_keys db) \<and> kr_id k = kid \<and> kr_tenant k = tid"
  by (auto simp: find_key_def dest!: find_SomeD)

lemma CreateAPIKey_confined:
  assumes "CreateAPIKey ok d now tid name role s = (res, s')" "role \<noteq> RolePlatform"
  shows "confined tid (ts_db s) (ts_db s')"
proof -
  have "confined tid (ts_db s) (ts_db (insert_key (new_row i tid name pfx h role now) s))" for i pfx h
    using assms(2) unfolding confined_def insert_key_def
    by (intro exI [of _ "db_keys (ts_db s) @ [new_row i tid name pfx h role now]"]) (simp add: beyond_def new_row_def)
  then show ?thesis using assms(1) by (auto simp: CreateAPIKey_def Let_def split: if_splits sum.splits option.splits)
qed

lemma UpdateAPIKeyRole_confined:
  assumes "UpdateAPIKeyRole ok (Some p) tid kid role s = (res, s')" "pl_Role p \<noteq> RolePlatform" "role \<noteq> RolePlatform"
    "distinct (map kr_id (db_keys (ts_db s)))"
  shows "confined (pl_TenantID p) (ts_db s) (ts_db s')"
proof (cases "find_key kid tid (ts_db s)")
  case (Some k)
  have "confined (pl_TenantID p) (ts_db s) (update_keys (\<lambda>k. kr_id k = kid \<and> kr_tenant k = tid) (\<lambda>k. k\<lparr>kr_role := role\<rparr>) (ts_db s))"
    if "authorizeKeyTarget (Some p) tid (kr_role k)"
    using authorised_target [OF that assms(2)] find_key_unique [OF assms(4) Some] assms(3)
    by (intro confined_update) (auto simp: beyond_def)
  then show ?thesis using assms(1) Some by (auto simp: UpdateAPIKeyRole_def flushed_def split: if_splits)
qed (use assms(1) in \<open>auto simp: UpdateAPIKeyRole_def split: if_splits\<close>)

lemma RotateAPIKey_confined:
  assumes "RotateAPIKey ok ok' d (Some p) tid kid s = (res, s')" "pl_Role p \<noteq> RolePlatform"
  shows "confined (pl_TenantID p) (ts_db s) (ts_db s')"
proof -
  have commit: "confined (pl_TenantID p) (ts_db s) (ts_db s1)"
    if c: "rotate_commit ok' (Some p) tid kid seen pfx hash s = (x, s1)" "find_key kid tid (ts_db s) = Some seen" for seen pfx hash x s1
  proof (cases "authorizeKeyTarget (Some p) (kr_tenant seen) (kr_role seen)")
    case True
    then have "pl_TenantID p = tid" "kr_role seen \<noteq> RolePlatform" using authorised_target [OF _ assms(2)] find_key_props [OF c(2)] by auto
    then show ?thesis using c by (auto simp: rotate_commit_def flushed_def Let_def beyond_def intro!: confined_renew split: if_splits)
  qed (use c in \<open>auto simp: rotate_commit_def split: if_splits\<close>)
  show ?thesis using assms(1) commit
    by (auto simp: RotateAPIKey_def rotate_read_def split: sum.splits option.splits prod.splits if_splits)
qed

lemma bulk_apply_confined:
  assumes "bulk_apply tid rs db = Some db'" "\<forall>r \<in> set rs. kr_role (ro_row r) \<noteq> RolePlatform"
  shows "confined tid db db'"
  using assms
proof (induction rs arbitrary: db)
  case (Cons r rs)
  let ?db = "update_keys (\<lambda>k. kr_id k = kr_id (ro_row r) \<and> kr_tenant k = tid \<and> kr_role k = kr_role (ro_row r)
                \<and> kr_version k = kr_version (ro_row r)) (renewed (ro_prefix r) (ro_hash r)) db"
  have "bulk_apply tid rs ?db = Some db'" using Cons.prems(1) by (auto simp: Let_def split: if_splits)
  moreover have "confined tid db ?db" using Cons.prems(2) by (intro confined_renew) (auto simp: beyond_def)
  ultimately show ?case using Cons.IH Cons.prems(2) confined_trans by fastforce
qed simp

lemma bulk_verify_roles:
  assumes "bulk_verify (Some p) tid db rs = None" "pl_Role p \<noteq> RolePlatform"
  shows "\<forall>r \<in> set rs. kr_role (ro_row r) \<noteq> RolePlatform \<and> tid = pl_TenantID p"
  using assms by (induction rs) (auto split: option.splits if_splits dest: authorised_target)

lemma BulkRotate_confined:
  assumes "BulkRotateTenantKeys ok ok' d (Some p) tid ex s = (res, s')" "pl_Role p \<noteq> RolePlatform"
  shows "confined (pl_TenantID p) (ts_db s) (ts_db s')"
proof -
  have commit: "confined (pl_TenantID p) (ts_db s) (ts_db s1)" if c: "bulk_commit ok' (Some p) tid rs s = (x, s1)" for rs x s1
  proof (cases "ok' \<and> bulk_verify (Some p) tid (ts_db s) rs = None \<and> rs \<noteq> []")
    case True
    then have v: "\<forall>r \<in> set rs. kr_role (ro_row r) \<noteq> RolePlatform" "tid = pl_TenantID p"
      using bulk_verify_roles [OF _ assms(2)] by (metis, metis list.set_intros(1) neq_Nil_conv)
    show ?thesis using c True bulk_apply_confined [OF _ v(1), of tid "ts_db s"] v(2)
      by (auto simp: bulk_commit_def flushed_def split: option.splits)
  next
    case False
    then show ?thesis using c by (cases rs) (auto simp: bulk_commit_def flushed_def split: if_splits option.splits)
  qed
  show ?thesis using assms(1) commit
    by (auto simp: BulkRotateTenantKeys_def Let_def split: sum.splits option.splits prod.splits if_splits)
qed

lemma DeleteAPIKey_confined:
  assumes "DeleteAPIKey ok (Some p) tid kid s = (res, s')" "pl_Role p \<noteq> RolePlatform" "distinct (map kr_id (db_keys (ts_db s)))"
  shows "confined (pl_TenantID p) (ts_db s) (ts_db s')"
proof (cases "find_key kid tid (ts_db s)")
  case (Some k)
  have "confined (pl_TenantID p) (ts_db s) (ts_db s\<lparr>db_keys := filter (\<lambda>k. \<not> (kr_id k = kid \<and> kr_tenant k = tid)) (db_keys (ts_db s))\<rparr>)"
    if "authorizeKeyTarget (Some p) tid (kr_role k)"
    using authorised_target [OF that assms(2)] find_key_unique [OF assms(3) Some]
    by (intro confined_filter) (auto simp: beyond_def)
  then show ?thesis using assms(1) Some by (auto simp: DeleteAPIKey_def flushed_def Let_def split: if_splits)
qed (use assms(1) in \<open>auto simp: DeleteAPIKey_def split: if_splits\<close>)

lemma own_tenant:
  "ensureOwnTenant ok r db = Inr tid \<Longrightarrow> aq_principal r = Some p \<Longrightarrow> pl_Role p \<noteq> RolePlatform \<Longrightarrow> tid = pl_TenantID p"
  by (auto simp: ensureOwnTenant_def principalOrUnauthorized_def split: if_splits)

lemma RecordHTTP_frame [simp]: "mg_store (RecordHTTP k t d m) = mg_store m" "mg_quota (RecordHTTP k t d m) = mg_quota m"
  by (simp_all add: RecordHTTP_def)

lemma put_store_frame [simp]: "mg_store (put_store s m) = s" "mg_quota (put_store s m) = mg_quota m"
  by (simp_all add: put_store_def)

lemma record_bulk_frame [simp]: "mg_store (record_bulk a b m) = mg_store m" "mg_quota (record_bulk a b m) = mg_quota m"
proof -
  have "mg_store (fold g xs m) = mg_store m \<and> mg_quota (fold g xs m) = mg_quota m"
    if "\<And>x m. mg_store (g x m) = mg_store m \<and> mg_quota (g x m) = mg_quota m" for g and xs :: "(new_api_key \<times> string) list" and m
    using that by (induction xs arbitrary: m) auto
  from this [of "\<lambda>(nk, old). RecordHTTP ''api_key.rotated'' (ak_ID (nk_Key nk)) (key_details old nk [(''bulk'', JBool True)])"]
  show "mg_store (record_bulk a b m) = mg_store m" "mg_quota (record_bulk a b m) = mg_quota m"
    by (auto simp: record_bulk_def split: prod.split)
qed

text \<open>What a handler does for a caller who is not the platform.\<close>

definition stays_within :: "string \<Rightarrow> mgmt_state \<Rightarrow> mgmt_state \<Rightarrow> bool" where
  "stays_within tid m m' \<longleftrightarrow> confined tid (ts_db (mg_store m)) (ts_db (mg_store m')) \<and>
     map_option qe_overrides (mg_quota m') = map_option qe_overrides (mg_quota m)"

lemma stays_within_refl [simp]: "stays_within tid m m"
  by (simp add: stays_within_def)

lemma api_CreateAPIKey_stays:
  assumes "api_CreateAPIKey env r b m = (rep, m')" "aq_principal r = Some p" "pl_Role p \<noteq> RolePlatform"
  shows "stays_within (pl_TenantID p) m m'"
proof -
  consider "m' = m" | tid d now ok name role res s where "tid = pl_TenantID p" "role \<noteq> RolePlatform"
      "CreateAPIKey ok d now tid name role (mg_store m) = (res, s)" "mg_store m' = s" "mg_quota m' = mg_quota m"
    using assms(1) own_tenant [OF _ assms(2,3)]
    by (fastforce simp: api_CreateAPIKey_def IsAssignableViaAPI_def split: sum.splits if_splits prod.splits tenancy_error.splits)
  then show ?thesis by cases (auto simp: stays_within_def dest: CreateAPIKey_confined)
qed

lemma api_UpdateAPIKeyRole_stays:
  assumes "api_UpdateAPIKeyRole env r b m = (rep, m')" "aq_principal r = Some p" "pl_Role p \<noteq> RolePlatform"
    "distinct (map kr_id (db_keys (ts_db (mg_store m))))"
  shows "stays_within (pl_TenantID p) m m'"
proof -
  consider "m' = m" | tid ok kid role res s where "role \<noteq> RolePlatform"
      "UpdateAPIKeyRole ok (Some p) tid kid role (mg_store m) = (res, s)" "mg_store m' = s" "mg_quota m' = mg_quota m"
    using assms(1,2)
    by (fastforce simp: api_UpdateAPIKeyRole_def principalOrUnauthorized_def IsAssignableViaAPI_def
        split: sum.splits if_splits prod.splits tenancy_error.splits)
  then show ?thesis by cases (auto simp: stays_within_def dest: UpdateAPIKeyRole_confined [OF _ assms(3) _ assms(4)])
qed

lemma api_RotateAPIKey_stays:
  assumes "api_RotateAPIKey env r m = (rep, m')" "aq_principal r = Some p" "pl_Role p \<noteq> RolePlatform"
  shows "stays_within (pl_TenantID p) m m'"
  using assms by (auto simp: api_RotateAPIKey_def principalOrUnauthorized_def stays_within_def split: sum.splits prod.splits dest: RotateAPIKey_confined)

lemma api_self_stays:
  assumes "api_RotateMyAPIKey env r m = (rep, m') \<or> api_BurnMyAPIKey env r m = (rep, m')" "aq_principal r = Some p" "pl_Role p \<noteq> RolePlatform"
  shows "stays_within (pl_TenantID p) m m'"
  using assms
  by (auto simp: api_RotateMyAPIKey_def api_BurnMyAPIKey_def stays_within_def split: sum.splits prod.splits if_splits dest: RotateAPIKey_confined)

lemma api_BulkRotate_stays:
  assumes "api_BulkRotateTenantKeys env r m = (rep, m')" "aq_principal r = Some p" "pl_Role p \<noteq> RolePlatform"
  shows "stays_within (pl_TenantID p) m m'"
proof -
  consider "m' = m" | ok ok' d tid ex res s where "BulkRotateTenantKeys ok ok' d (Some p) tid ex (mg_store m) = (res, s)"
      "mg_store m' = s" "mg_quota m' = mg_quota m"
    using assms(1,2)
    by (fastforce simp: api_BulkRotateTenantKeys_def principalOrUnauthorized_def Let_def split: sum.splits if_splits prod.splits tenancy_error.splits)
  then show ?thesis by cases (auto simp: stays_within_def dest: BulkRotate_confined [OF _ assms(3)])
qed

lemma api_DeleteAPIKey_stays:
  assumes "api_DeleteAPIKey env r m = (rep, m')" "aq_principal r = Some p" "pl_Role p \<noteq> RolePlatform"
    "distinct (map kr_id (db_keys (ts_db (mg_store m))))"
  shows "stays_within (pl_TenantID p) m m'"
proof -
  consider "m' = m" | tid ok kid res s where "DeleteAPIKey ok (Some p) tid kid (mg_store m) = (res, s)" "mg_store m' = s" "mg_quota m' = mg_quota m"
    using assms(1,2)
    by (fastforce simp: api_DeleteAPIKey_def principalOrUnauthorized_def split: sum.splits prod.splits tenancy_error.splits)
  then show ?thesis by cases (auto simp: stays_within_def dest: DeleteAPIKey_confined [OF _ assms(3,4)])
qed

lemma Usage_overrides: "Usage now ok now' t e l = (u, e') \<Longrightarrow> qe_overrides e' = qe_overrides e"
  by (auto simp: Usage_def currentSpend_def cached_spend_def refresh_spend_def counterForMonthLocked_def put_counter_def Let_def
      split: prod.splits option.splits if_splits)

lemma serve_admitted:
  assumes "serve env now' call r m = (rep, m')" "aq_principal r = Some p" "pl_Role p \<noteq> RolePlatform"
  obtains "m' = m" | "mgmt_handler env now' call r m = (rep, m')" "map_of managementRouteFloors (route_pattern call) \<noteq> Some RolePlatform"
proof -
  have floor: "f \<noteq> RolePlatform" if "\<not> (f \<noteq> roleOpen \<and> \<not> AtLeast (pl_Role p) f)" for f
    using that assms(3) by (auto simp: AtLeast_platform roleOpen_def)
  show thesis
    using assms(1,2) that floor
    by (auto simp: serve_def managed_gate_def RequireRole_def split: option.splits if_splits auth_outcome.splits)
qed

text \<open>The routes that need the platform role.\<close>

lemma platform_routes:
  "map_of managementRouteFloors ''GET /api/v1/tenants'' = Some RolePlatform"
  "map_of managementRouteFloors ''POST /api/v1/tenants'' = Some RolePlatform"
  "map_of managementRouteFloors ''DELETE /api/v1/tenants/{id}'' = Some RolePlatform"
  "map_of managementRouteFloors ''PUT /api/v1/tenants/{id}/quota'' = Some RolePlatform"
  by code_simp+

text \<open>
  C15. No request of the management API lets a caller below the platform role leave its tenant: whatever route it
  calls and with whatever identifiers, roles and bodies, the rows of other tenants' keys and of platform keys stay
  as they are and none is added or removed; tenants, users, sessions and quota limits do not change. So a tenant's
  admin can neither reach another tenant nor make itself a platform key.
\<close>

theorem management_confined:
  assumes "serve env now' call r m = (rep, m')" "aq_principal r = Some p" "pl_Role p \<noteq> RolePlatform"
    "distinct (map kr_id (db_keys (ts_db (mg_store m))))"
  shows "stays_within (pl_TenantID p) m m'"
proof (rule serve_admitted [OF assms(1-3)])
  assume h: "mgmt_handler env now' call r m = (rep, m')" and f: "map_of managementRouteFloors (route_pattern call) \<noteq> Some RolePlatform"
  show ?thesis
  proof (cases call)
    case CallListAPIKeys
    then show ?thesis using h by (auto simp: api_ListAPIKeys_def Let_def split: sum.splits)
  next
    case (CallCreateAPIKey b)
    then show ?thesis using h api_CreateAPIKey_stays [OF _ assms(2,3)] by simp
  next
    case CallBulkRotate
    then show ?thesis using h api_BulkRotate_stays [OF _ assms(2,3)] by simp
  next
    case (CallUpdateRole b)
    then show ?thesis using h api_UpdateAPIKeyRole_stays [OF _ assms(2-4)] by simp
  next
    case CallRotate
    then show ?thesis using h api_RotateAPIKey_stays [OF _ assms(2,3)] by simp
  next
    case CallRotateMe
    then show ?thesis using h api_self_stays [OF _ assms(2,3)] by fastforce
  next
    case CallBurnMe
    then show ?thesis using h api_self_stays [OF _ assms(2,3)] by fastforce
  next
    case CallDeleteKey
    then show ?thesis using h api_DeleteAPIKey_stays [OF _ assms(2-4)] by simp
  next
    case CallGetQuota
    then show ?thesis using h by (auto simp: api_GetQuota_def Let_def stays_within_def split: option.splits prod.splits dest: Usage_overrides)
  qed (use f platform_routes in simp_all)
qed simp

definition sample_mgmt :: mgmt_state where
  "sample_mgmt = \<lparr>mg_store = replica sample_keyed 0, mg_audit = Some [], mg_quota = None\<rparr>"

definition sample_mgmt_env :: mgmt_env where
  "sample_mgmt_env = \<lparr>ge_ok = (\<lambda>_. True), ge_now = 0, ge_rnd = None, ge_draws = (\<lambda>_. sample_key_draws)\<rparr>"

definition sample_api_request :: api_request where
  "sample_api_request = \<lparr>aq_principal = Some sample_principal, aq_id = ''key_0101010101010101'', aq_tenant = [], aq_except = []\<rparr>"

theorem management_confined_witness:
  "stays_within (pl_TenantID sample_principal) sample_mgmt (snd (serve sample_mgmt_env 0 (CallUpdateRole (Decoded RoleViewer)) sample_api_request sample_mgmt)) \<and>
   map kr_role (db_keys (ts_db (mg_store (snd (serve sample_mgmt_env 0 (CallUpdateRole (Decoded RoleViewer)) sample_api_request sample_mgmt))))) = [RoleViewer]"
proof
  show "stays_within (pl_TenantID sample_principal) sample_mgmt
      (snd (serve sample_mgmt_env 0 (CallUpdateRole (Decoded RoleViewer)) sample_api_request sample_mgmt))"
  proof (rule management_confined [OF prod.collapse [symmetric]])
    show "distinct (map kr_id (db_keys (ts_db (mg_store sample_mgmt))))" by code_simp
  qed (simp_all add: sample_api_request_def sample_principal_def)
qed code_simp

text \<open>A bulk rotation that lost a race is answered with 500, where the rotation of one key answers 409.\<close>

lemma bulk_conflict_is_server_error:
  assumes "principalOrUnauthorized r = Inr p" "ensureOwnTenant (ge_ok env 0) r (ts_db (mg_store m)) = Inr tid"
    "BulkRotateTenantKeys (ge_ok env 1) (ge_ok env 2) (ge_draws env) (Some p) tid
       (if aq_except r = ''self'' \<and> pl_KeyID p \<noteq> [] then [pl_KeyID p] else []) (mg_store m) = (Inl ErrConflict, s)"
  shows "fst (api_BulkRotateTenantKeys env r m) = server_error"
  using assms by (simp add: api_BulkRotateTenantKeys_def)

end
