(* ===== verification/A2A_Server.thy ===== *)
theory A2A_Server
  imports Go_Base Chaos_Decision
begin

text \<open>
  \<^verbatim>\<open>internal/a2a/server.go\<close>: the mock A2A server with its task store, its JSON-RPC methods, its event streams and
  its fault injection.

  What \<^verbatim>\<open>encoding/json\<close> does is an argument (\<open>codec\<close>): the length of an encoded task, or none where a value in it
  has no encoding; what is left of a data value that was encoded and decoded; whether a response can be encoded.
  A request carries its parameters as the two decodings the methods ask for. The tasks are values: the code
  hands out clones and replaces the pointer in the map, so no client holds a stored task. An operation reads
  the clock several times, \<open>tm i\<close> is its \<open>i\<close>-th reading.
\<close>

section \<open>Wire types\<close>

record file_part =
  fp_Name :: string
  fp_MimeType :: string
  fp_Bytes :: string
  fp_URI :: string

record a2a_part =
  pt_Kind :: string
  pt_Text :: string
  pt_File :: "file_part option"
  pt_Data :: "json option"

record a2a_message =
  am_Role :: string
  am_Parts :: "a2a_part list"
  am_MessageID :: string
  am_Kind :: string
  am_TaskID :: string
  am_ContextID :: string

record artifact =
  af_ArtifactID :: string
  af_Name :: string
  af_Parts :: "a2a_part list"

record task_status =
  st_State :: string
  st_Message :: "a2a_message option"
  st_Timestamp :: "instant option"

record a2a_task =
  tk_ID :: string
  tk_ContextID :: string
  tk_Status :: task_status
  tk_Artifacts :: "artifact list"
  tk_History :: "a2a_message list"
  tk_Kind :: string

record status_update_event =
  su_TaskID :: string
  su_ContextID :: string
  su_Kind :: string
  su_Status :: task_status
  su_Final :: bool

record artifact_update_event =
  au_TaskID :: string
  au_ContextID :: string
  au_Kind :: string
  au_Artifact :: artifact
  au_Append :: bool
  au_LastChunk :: bool

datatype a2a_event = EvTask a2a_task | EvStatus status_update_event | EvArtifact artifact_update_event

text \<open>The errors of the envelope; \<open>DecodeText\<close> stands for the text of a decoding error.\<close>

datatype rpc_data = NoData | DecodeText | ChaosData string string

datatype rpc_result = ResTask a2a_task | ResMessage a2a_message | ResEvent a2a_event

datatype rpc_response =
    RpcResult "string option" rpc_result
  | RpcError "string option" int string rpc_data

abbreviation errParse :: int where "errParse \<equiv> - 32700"
abbreviation errInvalidRequest :: int where "errInvalidRequest \<equiv> - 32600"
abbreviation errMethodNotFound :: int where "errMethodNotFound \<equiv> - 32601"
abbreviation errInvalidParams :: int where "errInvalidParams \<equiv> - 32602"
abbreviation errInternal :: int where "errInternal \<equiv> - 32603"
abbreviation errTaskNotFound :: int where "errTaskNotFound \<equiv> - 32001"
abbreviation errNotCancelable :: int where "errNotCancelable \<equiv> - 32002"

record message_send_params =
  sp_Role :: string
  sp_Parts :: "a2a_part list"
  sp_MessageID :: string
  sp_ContextID :: string
  sp_TaskID :: string

record rpc_request =
  rq_JSONRPC :: string
  rq_ID :: "string option"
  rq_Method :: string
  rq_send :: "message_send_params option"
  rq_task :: "string option"

section \<open>Server\<close>

record a2a_response =
  ar_Match :: string
  ar_Default :: bool
  ar_Text :: string
  ar_State :: string
  ar_AsMessage :: bool
  ar_Data :: "json option"

record a2a_faults =
  ft_Seed :: "64 word"
  ft_Rate :: "rat option"
  ft_LatencyMs :: int
  ft_TimeoutMs :: int
  ft_StatusCode :: int
  ft_Disconnect :: bool
  ft_Reset :: bool
  ft_Malformed :: bool
  ft_MalformedSchema :: bool
  ft_TruncateAfterBytes :: int
  ft_Error :: bool
  ft_OperationRates :: "string \<rightharpoonup> rat"
  ft_FixtureRates :: "string \<rightharpoonup> rat"
  ft_SequenceRates :: "nat \<rightharpoonup> rat"

record a2a_server =
  as_Responses :: "a2a_response list"
  as_Faults :: a2a_faults
  as_tasks :: "(string, a2a_task) gomap"
  as_taskExpiry :: "(string, instant) gomap"
  as_taskBytes :: "(string, int) gomap"
  as_retainedBytes :: int
  as_maxTasks :: int
  as_maxTaskBytes :: int
  as_maxHistory :: int
  as_taskTTL :: duration
  as_seq :: nat
  as_chaosSequence :: "64 word"

record server_options =
  so_MaxTasks :: int
  so_MaxTaskBytes :: int
  so_MaxHistory :: int
  so_TaskTTL :: duration

definition positive_or :: "int \<Rightarrow> int \<Rightarrow> int" where
  "positive_or x d = (if x \<le> 0 then d else x)"

definition NewServerWithOptions :: "a2a_response list \<Rightarrow> a2a_faults \<Rightarrow> server_options \<Rightarrow> a2a_server" where
  "NewServerWithOptions rs faults opt =
     \<lparr>as_Responses = rs, as_Faults = faults, as_tasks = [], as_taskExpiry = [], as_taskBytes = [], as_retainedBytes = 0,
      as_maxTasks = positive_or (so_MaxTasks opt) 10000, as_maxTaskBytes = positive_or (so_MaxTaskBytes opt) (64 * 2 ^ 20),
      as_maxHistory = positive_or (so_MaxHistory opt) 256, as_taskTTL = positive_or (so_TaskTTL opt) (30 * Minute),
      as_seq = 0, as_chaosSequence = 0\<rparr>"

record codec =
  cd_length :: "a2a_task \<Rightarrow> nat option"
  cd_data :: "json \<Rightarrow> json"
  cd_encodes :: "rpc_response \<Rightarrow> bool"

text \<open>\<^verbatim>\<open>len(encoded)\<close> after \<^verbatim>\<open>encoded, _ := json.Marshal(task)\<close>: 0 where the task has no encoding.\<close>

definition encoded_len :: "codec \<Rightarrow> a2a_task \<Rightarrow> int" where
  "encoded_len cd t = (case cd_length cd t of None \<Rightarrow> 0 | Some n \<Rightarrow> int n)"

definition clone_part :: "codec \<Rightarrow> a2a_part \<Rightarrow> a2a_part" where
  "clone_part cd p = p\<lparr>pt_Data := map_option (cd_data cd) (pt_Data p)\<rparr>"

definition clone_message :: "codec \<Rightarrow> a2a_message \<Rightarrow> a2a_message" where
  "clone_message cd m = m\<lparr>am_Parts := map (clone_part cd) (am_Parts m)\<rparr>"

definition zero_task :: a2a_task where
  "zero_task = \<lparr>tk_ID = [], tk_ContextID = [], tk_Status = \<lparr>st_State = [], st_Message = None, st_Timestamp = None\<rparr>,
     tk_Artifacts = [], tk_History = [], tk_Kind = []\<rparr>"

definition cloneTask :: "codec \<Rightarrow> a2a_task \<Rightarrow> a2a_task" where
  "cloneTask cd t =
     (case cd_length cd t of
        None \<Rightarrow> zero_task
      | Some _ \<Rightarrow> t\<lparr>tk_Status := (tk_Status t)\<lparr>st_Message := map_option (clone_message cd) (st_Message (tk_Status t))\<rparr>,
                    tk_Artifacts := map (\<lambda>a. a\<lparr>af_Parts := map (clone_part cd) (af_Parts a)\<rparr>) (tk_Artifacts t),
                    tk_History := map (clone_message cd) (tk_History t)\<rparr>)"

section \<open>Replies\<close>

text \<open>
  The verb \<^verbatim>\<open>%q\<close>: \<^verbatim>\<open>strconv.Quote\<close> on a string of printable runes and ASCII control characters. Bytes above 127 stand
  for printable runes and are kept.
\<close>

definition hex_digit :: "nat \<Rightarrow> char" where
  "hex_digit n = ''0123456789abcdef'' ! n"

definition quote_char :: "char \<Rightarrow> string" where
  "quote_char c =
     (let n = of_char c :: nat in
      if n = 34 \<or> n = 92 then [CHR 92, c]
      else if n = 7 then [CHR 92, CHR ''a''] else if n = 8 then [CHR 92, CHR ''b''] else if n = 9 then [CHR 92, CHR ''t'']
      else if n = 10 then [CHR 92, CHR ''n''] else if n = 11 then [CHR 92, CHR ''v''] else if n = 12 then [CHR 92, CHR ''f'']
      else if n = 13 then [CHR 92, CHR ''r'']
      else if n < 32 \<or> n = 127 then [CHR 92, CHR ''x'', hex_digit (n div 16), hex_digit (n mod 16)]
      else [c])"

definition quoted :: "string \<Rightarrow> string" where
  "quoted t = [CHR 34] @ concat (map quote_char t) @ [CHR 34]"

definition partsText :: "a2a_part list \<Rightarrow> string" where
  "partsText parts = strings_Join (filter (\<lambda>t. t \<noteq> []) (map pt_Text parts)) '' ''"

definition isTerminal :: "string \<Rightarrow> bool" where
  "isTerminal state \<longleftrightarrow> state \<in> {''completed'', ''canceled'', ''failed'', ''rejected''}"

definition orDefault :: "string \<Rightarrow> string \<Rightarrow> string" where
  "orDefault v d = (if v \<noteq> [] then v else d)"

fun match_from :: "string \<Rightarrow> a2a_response option \<Rightarrow> a2a_response list \<Rightarrow> a2a_response option" where
  "match_from text fallback [] = fallback"
| "match_from text fallback (r # rs) =
     (if ar_Default r then match_from text (Some r) rs
      else if ar_Match r \<noteq> [] \<and> strings_Contains text (ar_Match r) then Some r
      else match_from text fallback rs)"

definition matchResponse :: "a2a_response list \<Rightarrow> string \<Rightarrow> a2a_response option" where
  "matchResponse rs text = match_from text None rs"

definition text_part :: "string \<Rightarrow> a2a_part" where
  "text_part t = \<lparr>pt_Kind = ''text'', pt_Text = t, pt_File = None, pt_Data = None\<rparr>"

definition data_part :: "json \<Rightarrow> a2a_part" where
  "data_part d = \<lparr>pt_Kind = ''data'', pt_Text = [], pt_File = None, pt_Data = Some d\<rparr>"

definition replyFor :: "a2a_response list \<Rightarrow> string \<Rightarrow> a2a_part list \<times> string \<times> bool" where
  "replyFor rs userText =
     (case matchResponse rs userText of
        None \<Rightarrow> ([text_part ''(no response configured)''], ''completed'', False)
      | Some r \<Rightarrow>
          (text_part (if ar_Text r \<noteq> [] then ar_Text r else ''(no response configured)'')
             # (case ar_Data r of None \<Rightarrow> [] | Some d \<Rightarrow> [data_part d]),
           (if ar_State r \<noteq> [] then ar_State r else ''completed''), ar_AsMessage r))"

definition nextID :: "string \<Rightarrow> a2a_server \<Rightarrow> string \<times> a2a_server" where
  "nextID pfx s = (pfx @ ''-'' @ itoa (Suc (as_seq s)), s\<lparr>as_seq := Suc (as_seq s)\<rparr>)"

section \<open>Task store\<close>

definition prune_one :: "instant \<Rightarrow> string \<times> instant \<Rightarrow> a2a_server \<Rightarrow> a2a_server" where
  "prune_one now e s =
     (if snd e \<le> now
      then s\<lparr>as_retainedBytes := as_retainedBytes s - (case gm_get (as_taskBytes s) (fst e) of None \<Rightarrow> 0 | Some n \<Rightarrow> n),
             as_tasks := gm_del (fst e) (as_tasks s), as_taskBytes := gm_del (fst e) (as_taskBytes s),
             as_taskExpiry := gm_del (fst e) (as_taskExpiry s)\<rparr>
      else s)"

definition pruneExpiredLocked :: "instant \<Rightarrow> a2a_server \<Rightarrow> a2a_server" where
  "pruneExpiredLocked now s = fold (prune_one now) (as_taskExpiry s) s"

text \<open>The first half of \<^verbatim>\<open>transitionLocked\<close>: the task that is continued, or a new id.\<close>

definition continued ::
  "string option \<Rightarrow> message_send_params \<Rightarrow> string \<Rightarrow> a2a_server \<Rightarrow> rpc_response + (string \<times> string \<times> a2a_message list \<times> artifact list) \<times> a2a_server" where
  "continued rid p contextID s =
     (if sp_TaskID p \<noteq> [] then
        (case gm_get (as_tasks s) (sp_TaskID p) of
           None \<Rightarrow> Inl (RpcError rid errTaskNotFound ''task not found'' NoData)
         | Some prior \<Rightarrow>
             if isTerminal (st_State (tk_Status prior))
             then Inl (RpcError rid errInvalidParams ''terminal task cannot be continued'' NoData)
             else if sp_ContextID p \<noteq> [] \<and> sp_ContextID p \<noteq> tk_ContextID prior
             then Inl (RpcError rid errInvalidParams ''contextId does not match task'' NoData)
             else Inr ((sp_TaskID p, tk_ContextID prior, tk_History prior, tk_Artifacts prior), s))
      else (let (taskID, s1) = nextID ''task'' s in Inr ((taskID, contextID, [], []), s1)))"

definition last_messages :: "int \<Rightarrow> 'a list \<Rightarrow> 'a list" where
  "last_messages maxHistory h = (if int (length h) > maxHistory then drop (length h - nat maxHistory) h else h)"

text \<open>The task of a turn, and the server with the ids it drew: of the user's message, of the agent's, of the artifact.\<close>

definition turn_task ::
  "instant \<Rightarrow> message_send_params \<Rightarrow> a2a_part list \<Rightarrow> string \<Rightarrow> string \<times> string \<times> a2a_message list \<times> artifact list \<Rightarrow> a2a_server \<Rightarrow> a2a_task \<times> a2a_server" where
  "turn_task now p parts state prior s =
     (let (taskID, contextID, history, artifacts) = prior;
          (mid, s1) = nextID ''msg'' s;
          userMsg = \<lparr>am_Role = ''user'', am_Parts = sp_Parts p, am_MessageID = orDefault (sp_MessageID p) mid, am_Kind = ''message'',
                     am_TaskID = taskID, am_ContextID = contextID\<rparr>;
          (aid, s2) = nextID ''msg'' s1;
          agentMsg = \<lparr>am_Role = ''agent'', am_Parts = parts, am_MessageID = aid, am_Kind = ''message'',
                      am_TaskID = taskID, am_ContextID = contextID\<rparr>;
          (fid, s3) = nextID ''artifact'' s2
      in (\<lparr>tk_ID = taskID, tk_ContextID = contextID,
           tk_Status = \<lparr>st_State = state, st_Message = Some agentMsg, st_Timestamp = Some (rfc3339 now)\<rparr>,
           tk_Artifacts = artifacts @ [\<lparr>af_ArtifactID = fid, af_Name = ''response'', af_Parts = parts\<rparr>],
           tk_History = last_messages (as_maxHistory s) (history @ [userMsg, agentMsg]), tk_Kind = ''task''\<rparr>, s3))"

definition old_bytes :: "string \<Rightarrow> a2a_server \<Rightarrow> int" where
  "old_bytes ident s = (case gm_get (as_taskBytes s) ident of None \<Rightarrow> 0 | Some n \<Rightarrow> n)"

definition store_task :: "codec \<Rightarrow> instant \<Rightarrow> a2a_task \<Rightarrow> a2a_server \<Rightarrow> a2a_server" where
  "store_task cd now t s =
     s\<lparr>as_tasks := gm_put (tk_ID t) t (as_tasks s), as_taskBytes := gm_put (tk_ID t) (encoded_len cd t) (as_taskBytes s),
       as_retainedBytes := as_retainedBytes s - old_bytes (tk_ID t) s + encoded_len cd t,
       as_taskExpiry := gm_put (tk_ID t) (now + as_taskTTL s) (as_taskExpiry s)\<rparr>"

definition over_capacity :: "codec \<Rightarrow> a2a_task \<Rightarrow> a2a_server \<Rightarrow> bool" where
  "over_capacity cd t s \<longleftrightarrow>
     int (length (as_tasks s)) + (if gm_get (as_tasks s) (tk_ID t) = None then 1 else 0) > as_maxTasks s \<or>
     as_retainedBytes s - old_bytes (tk_ID t) s + encoded_len cd t > as_maxTaskBytes s"

definition transitionLocked ::
  "codec \<Rightarrow> (nat \<Rightarrow> instant) \<Rightarrow> string option \<Rightarrow> message_send_params \<Rightarrow> a2a_part list \<Rightarrow> string \<Rightarrow> string \<Rightarrow> a2a_server \<Rightarrow> (rpc_response + a2a_task) \<times> a2a_server" where
  "transitionLocked cd tm rid p parts state contextID s =
     (let s1 = pruneExpiredLocked (tm 0) s in
      case continued rid p contextID s1 of
        Inl e \<Rightarrow> (Inl e, s1)
      | Inr (prior, s2) \<Rightarrow>
          (let (t, s3) = turn_task (tm 1) p parts state prior s2 in
           if over_capacity cd t s3 then (Inl (RpcError rid errInternal ''mock task capacity exceeded'' NoData), s3)
           else (Inr t, store_task cd (tm 2) t s3)))"

section \<open>Methods\<close>

definition context_of :: "message_send_params \<Rightarrow> a2a_server \<Rightarrow> string \<times> a2a_server" where
  "context_of p s = (if sp_ContextID p = [] then nextID ''ctx'' s else (sp_ContextID p, s))"

definition handleMessageSend :: "codec \<Rightarrow> (nat \<Rightarrow> instant) \<Rightarrow> rpc_request \<Rightarrow> a2a_server \<Rightarrow> rpc_response \<times> a2a_server" where
  "handleMessageSend cd tm req s =
     (case rq_send req of
        None \<Rightarrow> (RpcError (rq_ID req) errInvalidParams ''invalid params for message/send'' DecodeText, s)
      | Some p \<Rightarrow>
          (let (parts, state, asMessage) = replyFor (as_Responses s) (partsText (sp_Parts p));
               (contextID, s1) = context_of p s
           in if asMessage \<and> sp_TaskID p = []
              then (let (mid, s2) = nextID ''msg'' s1 in
                    (RpcResult (rq_ID req) (ResMessage \<lparr>am_Role = ''agent'', am_Parts = parts, am_MessageID = mid, am_Kind = ''message'',
                                                        am_TaskID = [], am_ContextID = contextID\<rparr>), s2))
              else (case transitionLocked cd tm (rq_ID req) p parts state contextID s1 of
                      (Inl e, s2) \<Rightarrow> (e, s2)
                    | (Inr t, s2) \<Rightarrow> (RpcResult (rq_ID req) (ResTask (cloneTask cd t)), s2))))"

definition stream_events :: "instant \<Rightarrow> message_send_params \<Rightarrow> string \<Rightarrow> string \<Rightarrow> string \<Rightarrow> a2a_task \<Rightarrow> a2a_event list" where
  "stream_events now p state contextID mid t =
     (let userMsg = \<lparr>am_Role = ''user'', am_Parts = sp_Parts p, am_MessageID = orDefault (sp_MessageID p) mid, am_Kind = ''message'',
                     am_TaskID = tk_ID t, am_ContextID = contextID\<rparr>;
          working = \<lparr>st_State = ''working'', st_Message = None, st_Timestamp = Some (rfc3339 now)\<rparr>
      in [EvTask \<lparr>tk_ID = tk_ID t, tk_ContextID = contextID, tk_Status = working, tk_Artifacts = [], tk_History = [userMsg], tk_Kind = ''task''\<rparr>,
          EvStatus \<lparr>su_TaskID = tk_ID t, su_ContextID = contextID, su_Kind = ''status-update'', su_Status = working, su_Final = False\<rparr>,
          EvArtifact \<lparr>au_TaskID = tk_ID t, au_ContextID = contextID, au_Kind = ''artifact-update'', au_Artifact = last (tk_Artifacts t),
                      au_Append = False, au_LastChunk = True\<rparr>,
          EvStatus \<lparr>su_TaskID = tk_ID t, su_ContextID = contextID, su_Kind = ''status-update'',
                    su_Status = \<lparr>st_State = state, st_Message = st_Message (tk_Status t), st_Timestamp = Some (rfc3339 now)\<rparr>, su_Final = True\<rparr>])"

definition StreamResults :: "codec \<Rightarrow> (nat \<Rightarrow> instant) \<Rightarrow> rpc_request \<Rightarrow> a2a_server \<Rightarrow> (rpc_response + a2a_event list) \<times> a2a_server" where
  "StreamResults cd tm req s =
     (if rq_JSONRPC req \<noteq> ''2.0'' then (Inl (RpcError (rq_ID req) errInvalidRequest (''jsonrpc must be '' @ quoted ''2.0'') NoData), s)
      else case rq_send req of
        None \<Rightarrow> (Inl (RpcError (rq_ID req) errInvalidParams ''invalid params for message/stream'' DecodeText), s)
      | Some p \<Rightarrow>
          (let (parts, state, _) = replyFor (as_Responses s) (partsText (sp_Parts p));
               (contextID, s1) = context_of p s
           in case transitionLocked cd tm (rq_ID req) p parts state contextID s1 of
                (Inl e, s2) \<Rightarrow> (Inl e, s2)
              | (Inr t, s2) \<Rightarrow>
                  (let (mid, s3) = nextID ''msg'' s2 in (Inr (stream_events (tm 3) p state contextID mid t), s3))))"

definition not_found :: "rpc_request \<Rightarrow> string \<Rightarrow> rpc_response" where
  "not_found req ident = RpcError (rq_ID req) errTaskNotFound (''task '' @ quoted ident @ '' not found'') NoData"

definition handleTasksGet :: "codec \<Rightarrow> (nat \<Rightarrow> instant) \<Rightarrow> rpc_request \<Rightarrow> a2a_server \<Rightarrow> rpc_response \<times> a2a_server" where
  "handleTasksGet cd tm req s =
     (case rq_task req of
        None \<Rightarrow> (RpcError (rq_ID req) errInvalidParams ''invalid params for tasks/get'' DecodeText, s)
      | Some ident \<Rightarrow>
          (let s1 = pruneExpiredLocked (tm 0) s in
           case gm_get (as_tasks s1) ident of
             None \<Rightarrow> (not_found req ident, s1)
           | Some t \<Rightarrow> (RpcResult (rq_ID req) (ResTask (cloneTask cd t)), s1)))"

definition canceled :: "instant \<Rightarrow> a2a_task \<Rightarrow> a2a_task" where
  "canceled now t = t\<lparr>tk_Status := (tk_Status t)\<lparr>st_State := ''canceled'', st_Timestamp := Some (rfc3339 now)\<rparr>\<rparr>"

definition replaceAccountingLocked :: "codec \<Rightarrow> a2a_task \<Rightarrow> a2a_server \<Rightarrow> a2a_server" where
  "replaceAccountingLocked cd t s =
     s\<lparr>as_retainedBytes := as_retainedBytes s + (encoded_len cd t - old_bytes (tk_ID t) s),
       as_taskBytes := gm_put (tk_ID t) (encoded_len cd t) (as_taskBytes s)\<rparr>"

definition handleTasksCancel :: "codec \<Rightarrow> (nat \<Rightarrow> instant) \<Rightarrow> rpc_request \<Rightarrow> a2a_server \<Rightarrow> rpc_response \<times> a2a_server" where
  "handleTasksCancel cd tm req s =
     (case rq_task req of
        None \<Rightarrow> (RpcError (rq_ID req) errInvalidParams ''invalid params for tasks/cancel'' DecodeText, s)
      | Some ident \<Rightarrow>
          (let s1 = pruneExpiredLocked (tm 0) s in
           case gm_get (as_tasks s1) ident of
             None \<Rightarrow> (not_found req ident, s1)
           | Some t \<Rightarrow>
               if isTerminal (st_State (tk_Status t))
               then (RpcError (rq_ID req) errNotCancelable
                       (''task '' @ quoted ident @ '' is in terminal state '' @ quoted (st_State (tk_Status t)) @ '' and cannot be canceled'') NoData, s1)
               else (let t' = canceled (tm 1) t;
                         s2 = s1\<lparr>as_tasks := gm_put ident t' (as_tasks s1),
                                 as_taskExpiry := gm_put ident (tm 2 + as_taskTTL s1) (as_taskExpiry s1)\<rparr>
                     in (RpcResult (rq_ID req) (ResTask (cloneTask cd t')), replaceAccountingLocked cd t' s2))))"

definition dispatch :: "codec \<Rightarrow> (nat \<Rightarrow> instant) \<Rightarrow> rpc_request \<Rightarrow> a2a_server \<Rightarrow> rpc_response option \<times> a2a_server" where
  "dispatch cd tm req s =
     (if rq_JSONRPC req \<noteq> ''2.0'' then (Some (RpcError (rq_ID req) errInvalidRequest (''jsonrpc must be '' @ quoted ''2.0'') NoData), s)
      else if rq_Method req = ''message/send'' \<or> rq_Method req = ''message/stream'' then map_prod Some id (handleMessageSend cd tm req s)
      else if rq_Method req = ''tasks/get'' then map_prod Some id (handleTasksGet cd tm req s)
      else if rq_Method req = ''tasks/cancel'' then map_prod Some id (handleTasksCancel cd tm req s)
      else if rq_ID req = None then (None, s)
      else (Some (RpcError (rq_ID req) errMethodNotFound (''method '' @ quoted (rq_Method req) @ '' not supported'') NoData), s))"

text \<open>
  A body, as the decoder sees it: not a request, with what it had filled in when it failed; a batch; a request.
\<close>

datatype rpc_body = NotRequest rpc_request | Batch bool | Request rpc_request

fun probe :: "rpc_body \<Rightarrow> rpc_request" where
  "probe (NotRequest req) = req"
| "probe (Batch _) = \<lparr>rq_JSONRPC = [], rq_ID = None, rq_Method = [], rq_send = None, rq_task = None\<rparr>"
| "probe (Request req) = req"

definition isNotification :: "rpc_request \<Rightarrow> bool" where
  "isNotification req \<longleftrightarrow> rq_ID req = None \<and> rq_JSONRPC req = ''2.0'' \<and> rq_Method req \<noteq> []"

fun HandleBytes :: "codec \<Rightarrow> (nat \<Rightarrow> instant) \<Rightarrow> rpc_body \<Rightarrow> a2a_server \<Rightarrow> rpc_response option \<times> a2a_server" where
  "HandleBytes cd tm (Batch valid) s =
     (Some (if valid then RpcError None errInvalidRequest ''batch requests are not supported'' NoData
            else RpcError None errParse ''invalid JSON'' NoData), s)"
| "HandleBytes cd tm (NotRequest _) s = (Some (RpcError None errParse ''invalid JSON'' DecodeText), s)"
| "HandleBytes cd tm (Request req) s =
     (let (resp, s') = dispatch cd tm req s in (if resp = None \<or> isNotification req then None else resp, s'))"

section \<open>Fault injection\<close>

record a2a_http_request =
  hq_RequestId :: string
  hq_Method :: string
  hq_Path :: string
  hq_Force :: string
  hq_gone_latency :: bool
  hq_gone_timeout :: bool
  hq_hijackable :: bool
  hq_body :: "rpc_body option"

text \<open>
  What a fault leaves of the reply: nothing, as the client has gone; a closed or a reset connection, or the
  plain 502 in place of it; a result of a wrong shape; the first bytes of a long result; half an envelope.
\<close>

datatype a2a_fault =
    FaultAbandoned
  | FaultRpc int rpc_response
  | FaultClosed
  | FaultReset
  | FaultGateway string
  | FaultSchema "string option"
  | FaultTruncated "string option" int
  | FaultMalformed

definition chaosFixture :: "a2a_response list \<Rightarrow> rpc_request \<Rightarrow> string" where
  "chaosFixture rs req =
     (if rq_Method req \<noteq> ''message/send'' \<and> rq_Method req \<noteq> ''message/stream'' then []
      else case rq_send req of None \<Rightarrow> [] | Some p \<Rightarrow>
        (case matchResponse rs (partsText (sp_Parts p)) of
           None \<Rightarrow> []
         | Some r \<Rightarrow> if ar_Match r \<noteq> [] then ar_Match r else if ar_Default r then ''default'' else []))"

text \<open>The actions after the latency, in the order the code tries them: name, whether it is configured, effect.\<close>

definition chaos_actions :: "a2a_faults \<Rightarrow> string option \<Rightarrow> a2a_http_request \<Rightarrow> (string \<times> bool \<times> (string \<Rightarrow> a2a_fault)) list" where
  "chaos_actions f rid hq =
     [(''timeout'', 0 < ft_TimeoutMs f, \<lambda>source. if hq_gone_timeout hq then FaultAbandoned
         else FaultRpc 200 (RpcError rid errInternal ''mock A2A timeout'' (ChaosData ''timeout'' source))),
      (''disconnect'', ft_Disconnect f, \<lambda>_. if hq_hijackable hq then FaultClosed else FaultGateway ''mock A2A disconnect''),
      (''reset'', ft_Reset f, \<lambda>_. if hq_hijackable hq then FaultReset else FaultGateway ''mock A2A connection reset''),
      (''status'', ft_StatusCode f \<noteq> 0, \<lambda>source.
         FaultRpc (ft_StatusCode f) (RpcError rid errInternal ''mock A2A HTTP status fault'' (ChaosData ''status'' source))),
      (''malformed-schema'', ft_MalformedSchema f, \<lambda>_. FaultSchema rid),
      (''truncate'', 0 < ft_TruncateAfterBytes f, \<lambda>_. FaultTruncated rid (ft_TruncateAfterBytes f)),
      (''malformed'', ft_Malformed f, \<lambda>_. FaultMalformed),
      (''error'', ft_Error f, \<lambda>_. FaultRpc 200 (RpcError rid errInternal ''mock A2A chaos fault'' NoData))]"

definition chaos_policy :: "a2a_faults \<Rightarrow> string \<Rightarrow> string \<Rightarrow> nat \<Rightarrow> policy" where
  "chaos_policy f operation fixture sequence =
     ForSequence (ForFixture (fst (ForOperation \<lparr>pol_Seed = ft_Seed f, pol_Rate = ft_Rate f, pol_Source = []\<rparr> operation (ft_OperationRates f)))
       fixture (ft_FixtureRates f)) sequence (ft_SequenceRates f)"

text \<open>
  The result: the action and source stamped on the reply, the fault that is the reply, if any, and the server with
  the next sequence number. A latency that applies is waited for and stamped first.
\<close>

definition applyChaos ::
  "a2a_http_request \<Rightarrow> string option \<Rightarrow> string \<Rightarrow> string \<Rightarrow> a2a_server \<Rightarrow> ((string \<times> string) option \<times> a2a_fault option) \<times> a2a_server" where
  "applyChaos hq rid operation fixture s =
     (let f = as_Faults s;
          sequence = as_chaosSequence s + 1;
          s' = s\<lparr>as_chaosSequence := sequence\<rparr>;
          key = (if hq_RequestId hq = [] then hq_Method hq @ '' '' @ hq_Path hq else hq_RequestId hq) @ nul @ operation;
          applies = (\<lambda>action. Decide (chaos_policy f operation fixture (unat sequence)) key action (hq_Force hq));
          slow = (0 < ft_LatencyMs f \<and> dec_Apply (applies ''latency''));
          stamp = (if slow then Some (''latency'', dec_Source (applies ''latency'')) else None)
      in if slow \<and> hq_gone_latency hq then ((stamp, Some FaultAbandoned), s')
         else case find (\<lambda>(action, configured, _). configured \<and> dec_Apply (applies action)) (chaos_actions f rid hq) of
           None \<Rightarrow> ((stamp, None), s')
         | Some (action, _, eff) \<Rightarrow>
             let source = dec_Source (applies action) in ((Some (action, source), Some (eff source)), s'))"

section \<open>HTTP\<close>

datatype a2a_http =
    HttpRpc int rpc_response
  | HttpNoContent
  | HttpStream "rpc_response list"
  | HttpFault a2a_fault

text \<open>The frames of a stream, up to the first that cannot be encoded; a client that goes away sees a prefix.\<close>

definition serveStream :: "codec \<Rightarrow> (nat \<Rightarrow> instant) \<Rightarrow> rpc_request \<Rightarrow> a2a_server \<Rightarrow> a2a_http \<times> a2a_server" where
  "serveStream cd tm req s =
     (if rq_ID req = None then (HttpNoContent, s)
      else case StreamResults cd tm req s of
        (Inl e, s') \<Rightarrow> (HttpRpc 200 e, s')
      | (Inr events, s') \<Rightarrow> (HttpStream (takeWhile (cd_encodes cd) (map (\<lambda>ev. RpcResult (rq_ID req) (ResEvent ev)) events)), s'))"

definition is_request :: "rpc_body \<Rightarrow> bool" where
  "is_request b = (case b of Request _ \<Rightarrow> True | _ \<Rightarrow> False)"

definition RPCHandler :: "codec \<Rightarrow> (nat \<Rightarrow> instant) \<Rightarrow> a2a_http_request \<Rightarrow> a2a_server \<Rightarrow> a2a_http \<times> a2a_server" where
  "RPCHandler cd tm hq s =
     (case hq_body hq of
        None \<Rightarrow> (HttpRpc 400 (RpcError None errParse ''could not read request body'' DecodeText), s)
      | Some b \<Rightarrow>
          (let pr = probe b in
           case applyChaos hq (rq_ID pr) (rq_Method pr) (chaosFixture (as_Responses s) pr) s of
             ((_, Some f), s1) \<Rightarrow> (HttpFault f, s1)
           | ((_, None), s1) \<Rightarrow>
               if is_request b \<and> rq_Method pr = ''message/stream'' then serveStream cd tm pr s1
               else (case HandleBytes cd tm b s1 of
                       (None, s2) \<Rightarrow> (HttpNoContent, s2)
                     | (Some resp, s2) \<Rightarrow>
                         (if cd_encodes cd resp then HttpRpc 200 resp
                          else HttpRpc 500 (RpcError None errInternal ''internal error'' DecodeText), s2))))"

section \<open>Agent card\<close>

record a2a_skill =
  sk_ID :: string
  sk_Name :: string
  sk_Description :: string
  sk_Tags :: "string list option"
  sk_Examples :: "string list"

record a2a_card =
  ca_Name :: string
  ca_Description :: string
  ca_URL :: string
  ca_Version :: string
  ca_ProtocolVersion :: string
  ca_PreferredTransport :: string
  ca_DefaultInputModes :: "string list"
  ca_DefaultOutputModes :: "string list"
  ca_Streaming :: bool
  ca_PushNotifications :: bool
  ca_Skills :: "a2a_skill list"

definition Card :: "string \<Rightarrow> a2a_card \<Rightarrow> a2a_card" where
  "Card baseURL c =
     c\<lparr>ca_URL := orDefault (ca_URL c) (rev (dropWhile (\<lambda>x. x = CHR ''/'') (rev baseURL)) @ ''/''),
       ca_ProtocolVersion := orDefault (ca_ProtocolVersion c) ''0.3.0'',
       ca_PreferredTransport := orDefault (ca_PreferredTransport c) ''JSONRPC'',
       ca_Version := orDefault (ca_Version c) ''0.0.0'',
       ca_Description := orDefault (ca_Description c) ''Mock A2A agent.'',
       ca_DefaultInputModes := (if ca_DefaultInputModes c = [] then [''text/plain''] else ca_DefaultInputModes c),
       ca_DefaultOutputModes := (if ca_DefaultOutputModes c = [] then [''text/plain''] else ca_DefaultOutputModes c),
       ca_Skills := map (\<lambda>k. case sk_Tags k of None \<Rightarrow> k\<lparr>sk_Tags := Some []\<rparr> | Some _ \<Rightarrow> k) (ca_Skills c),
       ca_Streaming := True\<rparr>"

text \<open>The scheme of the first hop of \<^verbatim>\<open>X-Forwarded-Proto\<close>, if it is one of the two, in front of the host.\<close>

definition requestBaseURL :: "bool \<Rightarrow> string \<Rightarrow> string \<Rightarrow> string" where
  "requestBaseURL tls proto host =
     (let p = strings_ToLower (strings_TrimSpace (takeWhile (\<lambda>x. x \<noteq> CHR '','') proto));
          scheme = (if proto \<noteq> [] \<and> (p = ''http'' \<or> p = ''https'') then p else if tls then ''https'' else ''http'')
      in scheme @ ''://'' @ host)"

definition CardHandler :: "a2a_card \<Rightarrow> bool \<Rightarrow> string \<Rightarrow> string \<Rightarrow> a2a_card" where
  "CardHandler c tls proto host = Card (requestBaseURL tls proto host) c"

end
