(* ===== verification/A2A_Tasks.thy ===== *)
theory A2A_Tasks
  imports A2A_Server "HOL-Library.Multiset"
begin

text \<open>
  Properties of the task store of \<^verbatim>\<open>internal/a2a/server.go\<close>. Every request is a run of a few elementary steps
  (\<open>a2a_op\<close>), so that an invariant is checked once for each step and holds for all methods and their
  interleavings: each method holds the mutex for the whole of its run.
\<close>

section \<open>Elementary steps\<close>

datatype a2a_label = LTick | LPrune instant | LTurn string | LCancel string

inductive a2a_op :: "codec \<Rightarrow> a2a_label \<Rightarrow> a2a_server \<Rightarrow> a2a_server \<Rightarrow> bool" for cd where
  tick: "a2a_op cd LTick s (s\<lparr>as_chaosSequence := n, as_seq := as_seq s + k\<rparr>)"
| prune: "a2a_op cd (LPrune now) s (pruneExpiredLocked now s)"
| turn: "continued rid p contextID s = Inr (prior, s1) \<Longrightarrow> turn_task now p parts state prior s1 = (t, s2) \<Longrightarrow> \<not> over_capacity cd t s2 \<Longrightarrow>
    a2a_op cd (LTurn (sp_TaskID p)) s (store_task cd now' t s2)"
| cancel: "gm_get (as_tasks s) ident = Some t \<Longrightarrow> \<not> isTerminal (st_State (tk_Status t)) \<Longrightarrow>
    a2a_op cd (LCancel ident) s (replaceAccountingLocked cd (canceled now t)
      (s\<lparr>as_tasks := gm_put ident (canceled now t) (as_tasks s), as_taskExpiry := gm_put ident d (as_taskExpiry s)\<rparr>))"

inductive a2a_run :: "codec \<Rightarrow> a2a_label list \<Rightarrow> a2a_server \<Rightarrow> a2a_server \<Rightarrow> bool" for cd where
  nil: "a2a_run cd [] s s"
| step: "a2a_op cd l s s' \<Longrightarrow> a2a_run cd ls s' s'' \<Longrightarrow> a2a_run cd (l # ls) s s''"

lemma a2a_run_append: "a2a_run cd ls s s' \<Longrightarrow> a2a_run cd ls' s' s'' \<Longrightarrow> a2a_run cd (ls @ ls') s s''"
  by (induction rule: a2a_run.induct) (auto intro: a2a_run.intros)

lemma a2a_run_one: "a2a_op cd l s s' \<Longrightarrow> a2a_run cd [l] s s'"
  by (auto intro: a2a_run.intros)

text \<open>The labels a request may cause: it prunes at its first reading of the clock and touches the task it names.\<close>

definition names :: "rpc_request \<Rightarrow> string \<Rightarrow> bool" where
  "names req ident \<longleftrightarrow> (\<exists>p. rq_send req = Some p \<and> sp_TaskID p = ident) \<or> rq_task req = Some ident"

definition caused :: "(nat \<Rightarrow> instant) \<Rightarrow> rpc_request \<Rightarrow> a2a_label \<Rightarrow> bool" where
  "caused tm req l = (case l of LTick \<Rightarrow> True | LPrune now \<Rightarrow> now = tm 0 | LTurn x \<Rightarrow> names req x | LCancel x \<Rightarrow> names req x)"

definition runs :: "codec \<Rightarrow> (nat \<Rightarrow> instant) \<Rightarrow> rpc_request \<Rightarrow> a2a_server \<Rightarrow> a2a_server \<Rightarrow> bool" where
  "runs cd tm req s s' \<longleftrightarrow> (\<exists>ls. a2a_run cd ls s s' \<and> list_all (caused tm req) ls)"

lemma runs_refl [simp]: "runs cd tm req s s"
  unfolding runs_def by (intro exI [of _ "[]"]) (simp add: a2a_run.nil)

lemma runs_trans: "runs cd tm req s s' \<Longrightarrow> runs cd tm req s' s'' \<Longrightarrow> runs cd tm req s s''"
  unfolding runs_def using a2a_run_append by (metis list_all_append)

lemma runs_op: "a2a_op cd l s s' \<Longrightarrow> caused tm req l \<Longrightarrow> runs cd tm req s s'"
  unfolding runs_def using a2a_run_one [of cd l s s'] by (intro exI [of _ "[l]"]) simp

lemma runs_seq [simp]: "runs cd tm req s (s\<lparr>as_seq := Suc (as_seq s)\<rparr>)"
  using runs_op [OF a2a_op.tick [where s = s and n = "as_chaosSequence s" and k = 1], of tm req] by (simp add: caused_def)

lemma runs_chaos [simp]: "runs cd tm req s (s\<lparr>as_chaosSequence := n\<rparr>)"
  using runs_op [OF a2a_op.tick [where s = s and n = n and k = 0], of tm req] by (simp add: caused_def)

lemma runs_nextID: "nextID pfx s = (i, s') \<Longrightarrow> runs cd tm req s s'"
  by (auto simp: nextID_def)

lemma runs_prune: "runs cd tm req s (pruneExpiredLocked (tm 0) s)"
  by (rule runs_op [OF a2a_op.prune]) (simp add: caused_def)

lemma turn_task_seq: "turn_task now p parts state prior s = (t, s') \<Longrightarrow> s' = s\<lparr>as_seq := as_seq s + 3\<rparr>"
  by (auto simp: turn_task_def nextID_def Let_def split: prod.splits)

lemma continued_seq: "continued rid p c s = Inr (prior, s') \<Longrightarrow> s' = s \<or> s' = s\<lparr>as_seq := Suc (as_seq s)\<rparr>"
  by (auto simp: continued_def nextID_def Let_def split: if_splits option.splits)

lemma runs_draw [simp]: "runs cd tm req s (s\<lparr>as_seq := as_seq s + k\<rparr>)"
  using runs_op [OF a2a_op.tick [where s = s and n = "as_chaosSequence s" and k = k], of tm req] by (simp add: caused_def)

lemma runs_transition:
  assumes "transitionLocked cd tm rid p parts state c s = (r, s')" "rq_send req = Some p"
  shows "runs cd tm req s s'"
proof -
  let ?s1 = "pruneExpiredLocked (tm 0) s"
  have named: "caused tm req (LTurn (sp_TaskID p))" using assms(2) by (auto simp: caused_def names_def)
  show ?thesis
  proof (cases "continued rid p c ?s1")
    case (Inl e)
    then show ?thesis using assms(1) runs_prune by (auto simp: transitionLocked_def Let_def)
  next
    case (Inr x)
    obtain prior s2 where x: "x = (prior, s2)" by (cases x)
    obtain t s3 where t: "turn_task (tm 1) p parts state prior s2 = (t, s3)" by (cases "turn_task (tm 1) p parts state prior s2")
    have "runs cd tm req ?s1 s3"
      using continued_seq [OF Inr [unfolded x]] turn_task_seq [OF t] runs_draw [of cd tm req ?s1 3] runs_draw [of cd tm req ?s1 4]
      by (auto simp: numeral_eq_Suc)
    moreover have "runs cd tm req ?s1 (store_task cd (tm 2) t s3)" if "\<not> over_capacity cd t s3"
      using runs_op [OF a2a_op.turn [OF Inr [unfolded x] t that] named] .
    ultimately show ?thesis using assms(1) Inr x t runs_trans [OF runs_prune]
      by (auto simp: transitionLocked_def Let_def split: if_splits)
  qed
qed

lemma runs_context: "context_of p s = (c, s') \<Longrightarrow> runs cd tm req s s'"
  by (auto simp: context_of_def runs_nextID split: if_splits)

lemma runs_send: "handleMessageSend cd tm req s = (r, s') \<Longrightarrow> runs cd tm req s s'"
  unfolding handleMessageSend_def Let_def
  by (auto split: option.splits prod.splits if_splits sum.splits intro: runs_trans runs_context runs_nextID runs_transition)

lemma runs_stream: "StreamResults cd tm req s = (r, s') \<Longrightarrow> runs cd tm req s s'"
  unfolding StreamResults_def Let_def
  by (auto split: option.splits prod.splits if_splits sum.splits
      intro: runs_trans [OF runs_context runs_transition] runs_trans [OF runs_trans [OF runs_context runs_transition] runs_nextID])

lemma runs_get: "handleTasksGet cd tm req s = (r, s') \<Longrightarrow> runs cd tm req s s'"
  by (auto simp: handleTasksGet_def Let_def runs_prune split: option.splits)

lemma runs_cancel:
  assumes "handleTasksCancel cd tm req s = (r, s')"
  shows "runs cd tm req s s'"
proof (cases "rq_task req")
  case (Some ident)
  let ?s1 = "pruneExpiredLocked (tm 0) s"
  have "runs cd tm req ?s1 s'" 
  proof (cases "gm_get (as_tasks ?s1) ident")
    case None
    then show ?thesis using assms Some by (simp add: handleTasksCancel_def)
  next
    case (Some t)
    then show ?thesis using assms \<open>rq_task req = Some ident\<close>
      by (auto simp: handleTasksCancel_def Let_def caused_def names_def split: if_splits intro!: runs_op [OF a2a_op.cancel])
  qed
  then show ?thesis using runs_trans [OF runs_prune] by blast
qed (use assms in \<open>simp add: handleTasksCancel_def\<close>)

lemma runs_dispatch: "dispatch cd tm req s = (r, s') \<Longrightarrow> runs cd tm req s s'"
  by (auto simp: dispatch_def map_prod_def runs_send runs_get runs_cancel split: if_splits prod.splits)

lemma runs_HandleBytes: "HandleBytes cd tm b s = (r, s') \<Longrightarrow> runs cd tm (probe b) s s'"
  by (cases b) (auto split: prod.splits intro: runs_dispatch)

lemma applyChaos_state: "applyChaos hq rid op fx s = (r, s') \<Longrightarrow> s' = s\<lparr>as_chaosSequence := as_chaosSequence s + 1\<rparr>"
  by (auto simp: applyChaos_def Let_def split: if_splits option.splits prod.splits)

lemma runs_serve: "serveStream cd tm req s = (r, s') \<Longrightarrow> runs cd tm req s s'"
  by (auto simp: serveStream_def split: if_splits sum.splits prod.splits intro: runs_stream)

lemma runs_RPCHandler:
  assumes "RPCHandler cd tm hq s = (r, s')" "hq_body hq = Some b"
  shows "runs cd tm (probe b) s s'"
proof -
  obtain st f s1 where ch: "applyChaos hq (rq_ID (probe b)) (rq_Method (probe b)) (chaosFixture (as_Responses s) (probe b)) s = ((st, f), s1)"
    by (metis prod.collapse)
  have s1: "runs cd tm (probe b) s s1" using applyChaos_state [OF ch] by simp
  have "runs cd tm (probe b) s1 s'" if "f = None"
    using assms ch that by (auto simp: RPCHandler_def Let_def split: if_splits prod.splits option.splits intro: runs_serve runs_HandleBytes)
  then show ?thesis using assms ch s1 runs_trans [OF s1] by (cases f) (auto simp: RPCHandler_def Let_def)
qed

section \<open>The invariant\<close>

definition a2a_wf :: "codec \<Rightarrow> a2a_server \<Rightarrow> bool" where
  "a2a_wf cd s \<longleftrightarrow>
     gm_wf (as_tasks s) \<and> gm_wf (as_taskBytes s) \<and> gm_wf (as_taskExpiry s) \<and>
     (\<forall>i. gm_get (as_taskExpiry s) i = None \<longleftrightarrow> gm_get (as_tasks s) i = None) \<and>
     (\<forall>i. gm_get (as_taskBytes s) i = map_option (encoded_len cd) (gm_get (as_tasks s) i)) \<and>
     as_retainedBytes s = sum_list (map snd (as_taskBytes s)) \<and>
     int (length (as_tasks s)) \<le> as_maxTasks s \<and> 0 < as_maxHistory s"

text \<open>A stored task: it sits under its id, which was drawn before, its history is bounded, and it has an answer.\<close>

definition task_wf :: "a2a_server \<Rightarrow> string \<Rightarrow> a2a_task \<Rightarrow> bool" where
  "task_wf s i t \<longleftrightarrow>
     tk_ID t = i \<and> (\<exists>n \<le> as_seq s. i = ''task-'' @ itoa n) \<and> int (length (tk_History t)) \<le> as_maxHistory s \<and>
     tk_Artifacts t \<noteq> [] \<and> st_Message (tk_Status t) \<noteq> None"

definition tasks_wf :: "a2a_server \<Rightarrow> bool" where
  "tasks_wf s \<longleftrightarrow> (\<forall>i t. gm_get (as_tasks s) i = Some t \<longrightarrow> task_wf s i t)"

lemma sum_put: "sum_list (map snd (gm_put k v m)) = sum_list (map snd m) - (case gm_get m k of None \<Rightarrow> 0 | Some n \<Rightarrow> n) + (v :: int)"
  by (induction m) auto

lemma gm_del_absent: "gm_get m k = None \<Longrightarrow> gm_del k m = m"
  by (simp add: delete_id map_of_eq_None_iff)

lemma sum_del:
  "gm_wf m \<Longrightarrow> sum_list (map snd (gm_del k m)) = (sum_list (map snd m) :: int) - (case gm_get m k of None \<Rightarrow> 0 | Some n \<Rightarrow> n)"
proof (induction m)
  case (Cons x m)
  have wf: "gm_wf m" using Cons.prems by (simp add: gm_wf_def)
  show ?case
  proof (cases "fst x = k")
    case True
    then have "gm_get m k = None" using Cons.prems by (auto simp: gm_wf_def map_of_eq_None_iff)
    then show ?thesis using True by (cases x) (simp add: gm_del_absent)
  next
    case False
    then show ?thesis using Cons.IH [OF wf] by (cases x) auto
  qed
qed simp

lemma prune_one_wf: "a2a_wf cd s \<Longrightarrow> a2a_wf cd (prune_one now e s)"
  using gm_length_del [of "fst e" "as_tasks s"] by (auto simp: a2a_wf_def prune_one_def sum_del)

lemma prune_one_frame [simp]:
  "as_seq (prune_one now e s) = as_seq s" "as_maxHistory (prune_one now e s) = as_maxHistory s"
  "as_taskTTL (prune_one now e s) = as_taskTTL s" "as_maxTasks (prune_one now e s) = as_maxTasks s"
  "as_Responses (prune_one now e s) = as_Responses s"
  by (simp_all add: prune_one_def)

lemma prune_list_wf: "a2a_wf cd s \<Longrightarrow> a2a_wf cd (fold (prune_one now) es s)"
  by (induction es arbitrary: s) (auto simp: prune_one_wf)

lemma prune_list_get:
  "gm_get (as_tasks (fold (prune_one now) es s)) i = (if \<exists>e \<in> set es. fst e = i \<and> snd e \<le> now then None else gm_get (as_tasks s) i)"
  "gm_get (as_taskExpiry (fold (prune_one now) es s)) i = (if \<exists>e \<in> set es. fst e = i \<and> snd e \<le> now then None else gm_get (as_taskExpiry s) i)"
  by (induction es arbitrary: s) (auto simp: prune_one_def)

lemma prune_list_frame [simp]:
  "as_seq (fold (prune_one now) es s) = as_seq s" "as_maxHistory (fold (prune_one now) es s) = as_maxHistory s"
  "as_taskTTL (fold (prune_one now) es s) = as_taskTTL s" "as_maxTasks (fold (prune_one now) es s) = as_maxTasks s"
  "as_Responses (fold (prune_one now) es s) = as_Responses s"
  by (induction es arbitrary: s) simp_all

lemma prune_frame [simp]:
  "as_seq (pruneExpiredLocked now s) = as_seq s" "as_maxHistory (pruneExpiredLocked now s) = as_maxHistory s"
  "as_taskTTL (pruneExpiredLocked now s) = as_taskTTL s" "as_maxTasks (pruneExpiredLocked now s) = as_maxTasks s"
  "as_Responses (pruneExpiredLocked now s) = as_Responses s"
  by (simp_all add: pruneExpiredLocked_def)

lemma prune_get:
  assumes "gm_wf (as_taskExpiry s)"
  shows "gm_get (as_tasks (pruneExpiredLocked now s)) i =
      (case gm_get (as_taskExpiry s) i of Some d \<Rightarrow> if d \<le> now then None else gm_get (as_tasks s) i | None \<Rightarrow> gm_get (as_tasks s) i)"
    "gm_get (as_taskExpiry (pruneExpiredLocked now s)) i =
      (case gm_get (as_taskExpiry s) i of Some d \<Rightarrow> if d \<le> now then None else Some d | None \<Rightarrow> None)"
proof -
  have "(\<exists>e \<in> set (as_taskExpiry s). fst e = i \<and> snd e \<le> now) \<longleftrightarrow> (\<exists>d. gm_get (as_taskExpiry s) i = Some d \<and> d \<le> now)"
    using gm_in_set_iff [OF assms] by (metis prod.collapse fst_conv snd_conv)
  then show "gm_get (as_tasks (pruneExpiredLocked now s)) i =
      (case gm_get (as_taskExpiry s) i of Some d \<Rightarrow> if d \<le> now then None else gm_get (as_tasks s) i | None \<Rightarrow> gm_get (as_tasks s) i)"
    "gm_get (as_taskExpiry (pruneExpiredLocked now s)) i =
      (case gm_get (as_taskExpiry s) i of Some d \<Rightarrow> if d \<le> now then None else Some d | None \<Rightarrow> None)"
    by (auto simp: pruneExpiredLocked_def prune_list_get split: option.splits)
qed

lemma prune_get_task:
  "gm_wf (as_taskExpiry s) \<Longrightarrow> gm_get (as_tasks (pruneExpiredLocked now s)) i = Some t \<Longrightarrow> gm_get (as_tasks s) i = Some t"
  by (simp add: prune_get split: option.splits if_splits)

lemma task_wf_mono: "task_wf s i t \<Longrightarrow> as_seq s \<le> as_seq s' \<Longrightarrow> as_maxHistory s' = as_maxHistory s \<Longrightarrow> task_wf s' i t"
  unfolding task_wf_def using order_trans by metis

lemma store_task_wf:
  assumes "a2a_wf cd s" "\<not> over_capacity cd t s"
  shows "a2a_wf cd (store_task cd now t s)"
  using assms by (auto simp: a2a_wf_def store_task_def over_capacity_def old_bytes_def sum_put gm_length_put split: if_splits)

lemma turn_task_parts:
  assumes "turn_task now p parts state (i, c, h, a) s = (t, s')" "0 < as_maxHistory s"
  shows "tk_ID t = i" "tk_ContextID t = c" "st_State (tk_Status t) = state" "st_Message (tk_Status t) \<noteq> None"
    "\<exists>x. tk_Artifacts t = a @ [x]" "int (length (tk_History t)) \<le> as_maxHistory s"
  using assms by (auto simp: turn_task_def Let_def last_messages_def split: prod.splits)

lemma continued_cases:
  assumes "continued rid p contextID s = Inr (prior, s')"
  obtains (old) t where "sp_TaskID p \<noteq> []" "gm_get (as_tasks s) (sp_TaskID p) = Some t" "\<not> isTerminal (st_State (tk_Status t))"
      "prior = (sp_TaskID p, tk_ContextID t, tk_History t, tk_Artifacts t)" "s' = s"
    | (new) "sp_TaskID p = []" "prior = (''task-'' @ itoa (Suc (as_seq s)), contextID, [], [])" "s' = s\<lparr>as_seq := Suc (as_seq s)\<rparr>"
  using assms by (auto simp: continued_def nextID_def Let_def split: if_splits option.splits)

lemma a2a_wf_draw [simp]: "a2a_wf cd (s\<lparr>as_seq := k\<rparr>) = a2a_wf cd s"
  by (simp add: a2a_wf_def)

definition a2a_inv :: "codec \<Rightarrow> a2a_server \<Rightarrow> bool" where
  "a2a_inv cd s \<longleftrightarrow> a2a_wf cd s \<and> tasks_wf s"

lemma a2a_inv_put:
  assumes "a2a_inv cd s" "a2a_wf cd s'" "as_tasks s' = gm_put i t (as_tasks s)" "task_wf s' i t"
    "as_seq s \<le> as_seq s'" "as_maxHistory s' = as_maxHistory s"
  shows "a2a_inv cd s'"
  using assms task_wf_mono [OF _ assms(5,6)] by (auto simp: a2a_inv_def tasks_wf_def)

lemma turn_inv:
  assumes "a2a_inv cd s" "continued rid p contextID s = Inr (prior, s1)" "turn_task now p parts state prior s1 = (t, s2)"
    "\<not> over_capacity cd t s2"
  shows "a2a_inv cd (store_task cd now' t s2)" "as_seq s \<le> as_seq s2"
proof -
  have s2: "s2 = s1\<lparr>as_seq := as_seq s1 + 3\<rparr>" by (rule turn_task_seq [OF assms(3)])
  have pos: "0 < as_maxHistory s" using assms(1) by (simp add: a2a_inv_def a2a_wf_def)
  from assms(2) have key: "s1 = s\<lparr>as_seq := as_seq s1\<rparr> \<and> as_seq s \<le> as_seq s1 \<and> (\<exists>n \<le> as_seq s1. fst prior = ''task-'' @ itoa n)"
  proof (cases rule: continued_cases)
    case (old t')
    then have "task_wf s (sp_TaskID p) t'" using assms(1) by (simp add: a2a_inv_def tasks_wf_def)
    then show ?thesis using old by (simp add: task_wf_def)
  qed auto
  show le: "as_seq s \<le> as_seq s2" using key s2 by simp
  obtain i c h a where pr: "prior = (i, c, h, a)" by (cases prior)
  have pos1: "0 < as_maxHistory s1" "as_maxHistory s1 = as_maxHistory s" using key pos by (metis a2a_server.select_convs(9) a2a_server.surjective a2a_server.update_convs(11))+
  note parts = turn_task_parts [OF assms(3) [unfolded pr] pos1(1)]
  have wf: "a2a_wf cd s2" using assms(1) key s2 by (metis a2a_inv_def a2a_wf_draw)
  have tasks: "as_tasks s2 = as_tasks s" using key s2 by (metis a2a_server.select_convs(3) a2a_server.surjective a2a_server.update_convs(11))
  have mh: "as_maxHistory s2 = as_maxHistory s" using s2 pos1(2) by simp
  have "task_wf s2 (tk_ID t) t"
    using parts key pr s2 pos1 mh by (auto simp: task_wf_def intro: order_trans)
  then show "a2a_inv cd (store_task cd now' t s2)"
    using store_task_wf [OF wf assms(4), of now'] le tasks mh
    by (intro a2a_inv_put [OF assms(1), of _ "tk_ID t" t]) (auto simp: store_task_def task_wf_def)
qed

lemma cancel_inv:
  assumes "a2a_inv cd s" "gm_get (as_tasks s) i = Some t"
  shows "a2a_inv cd (replaceAccountingLocked cd (canceled now t)
      (s\<lparr>as_tasks := gm_put i (canceled now t) (as_tasks s), as_taskExpiry := gm_put i d (as_taskExpiry s)\<rparr>))"
proof -
  have t: "task_wf s i t" using assms by (simp add: a2a_inv_def tasks_wf_def)
  then have i: "tk_ID (canceled now t) = i" by (simp add: canceled_def task_wf_def)
  show ?thesis
  proof (rule a2a_inv_put [OF assms(1), of _ i "canceled now t"])
    show "a2a_wf cd (replaceAccountingLocked cd (canceled now t)
      (s\<lparr>as_tasks := gm_put i (canceled now t) (as_tasks s), as_taskExpiry := gm_put i d (as_taskExpiry s)\<rparr>))"
      using assms i by (auto simp: a2a_inv_def a2a_wf_def replaceAccountingLocked_def old_bytes_def sum_put gm_length_put)
  qed (use t in \<open>auto simp: replaceAccountingLocked_def task_wf_def canceled_def\<close>)
qed

lemma prune_inv:
  assumes "a2a_inv cd s"
  shows "a2a_inv cd (pruneExpiredLocked now s)"
proof -
  have "gm_wf (as_taskExpiry s)" "a2a_wf cd s" "tasks_wf s" using assms by (simp_all add: a2a_inv_def a2a_wf_def)
  then have "task_wf (pruneExpiredLocked now s) i t" if "gm_get (as_tasks (pruneExpiredLocked now s)) i = Some t" for i t
    using prune_get_task [OF _ that] task_wf_mono [of s i t "pruneExpiredLocked now s"] by (simp add: tasks_wf_def)
  then show ?thesis
    using prune_list_wf [OF \<open>a2a_wf cd s\<close>, of now "as_taskExpiry s"] by (simp add: a2a_inv_def tasks_wf_def pruneExpiredLocked_def)
qed

lemma a2a_op_inv: "a2a_op cd l s s' \<Longrightarrow> a2a_inv cd s \<Longrightarrow> a2a_inv cd s' \<and> as_seq s \<le> as_seq s'"
proof (induction rule: a2a_op.induct)
  case (tick s k n)
  have "task_wf (s\<lparr>as_chaosSequence := n, as_seq := as_seq s + k\<rparr>) i t" if "task_wf s i t" for i t
    by (rule task_wf_mono [OF that]) simp_all
  then show ?case using tick by (auto simp: a2a_inv_def a2a_wf_def tasks_wf_def)
next
  case (turn rid p contextID s prior s1 now parts state t s2 now')
  then show ?case using turn_inv [OF turn(4,1-3)] by (simp add: store_task_def)
next
  case (cancel s ident t now d)
  then show ?case using cancel_inv by (simp add: replaceAccountingLocked_def)
qed (simp add: prune_inv)

lemma a2a_run_inv: "a2a_run cd ls s s' \<Longrightarrow> a2a_inv cd s \<Longrightarrow> a2a_inv cd s' \<and> as_seq s \<le> as_seq s'"
proof (induction rule: a2a_run.induct)
  case (step l s s' ls s'')
  then show ?case using a2a_op_inv by (meson order_trans)
qed simp

section \<open>Requests\<close>

inductive a2a_requests :: "codec \<Rightarrow> a2a_server \<Rightarrow> a2a_server \<Rightarrow> bool" for cd and s where
  start: "a2a_requests cd s s"
| http: "a2a_requests cd s s' \<Longrightarrow> RPCHandler cd tm hq s' = (r, s'') \<Longrightarrow> a2a_requests cd s s''"
| bytes: "a2a_requests cd s s' \<Longrightarrow> HandleBytes cd tm b s' = (r', s'') \<Longrightarrow> a2a_requests cd s s''"

lemma RPCHandler_runs: "RPCHandler cd tm hq s = (r, s') \<Longrightarrow> \<exists>ls. a2a_run cd ls s s'"
proof (cases "hq_body hq")
  case None
  moreover assume "RPCHandler cd tm hq s = (r, s')"
  ultimately show ?thesis using a2a_run.nil by (auto simp: RPCHandler_def)
next
  case (Some b)
  moreover assume "RPCHandler cd tm hq s = (r, s')"
  ultimately show ?thesis using runs_RPCHandler by (metis runs_def)
qed

lemma a2a_requests_run: "a2a_requests cd s s' \<Longrightarrow> \<exists>ls. a2a_run cd ls s s'"
proof (induction rule: a2a_requests.induct)
  case start
  show ?case using a2a_run.nil by blast
next
  case (http s' tm hq r s'')
  then show ?case using RPCHandler_runs a2a_run_append by meson
next
  case (bytes s' tm b r' s'')
  then show ?case using runs_HandleBytes a2a_run_append by (metis runs_def)
qed

lemma new_server_inv: "a2a_inv cd (NewServerWithOptions rs faults opt)"
  by (auto simp: a2a_inv_def a2a_wf_def tasks_wf_def NewServerWithOptions_def positive_or_def)

lemma a2a_requests_inv: "a2a_requests cd (NewServerWithOptions rs faults opt) s \<Longrightarrow> a2a_inv cd s"
  using a2a_requests_run a2a_run_inv new_server_inv by blast

section \<open>Accounting\<close>

lemma sum_mapped:
  fixes f :: "'v \<Rightarrow> int"
  assumes "gm_wf m" "gm_wf m'" "\<And>i. gm_get m' i = map_option f (gm_get m i)"
  shows "sum_list (map snd m') = sum_list (map (\<lambda>x. f (snd x)) m)"
proof -
  have "map fst (map (\<lambda>(i, t). (i, f t)) m) = map fst m" by (simp add: case_prod_beta)
  then have nodup: "distinct (map (\<lambda>(i, t). (i, f t)) m)" using assms(1) by (metis distinct_map gm_wf_def)
  have "(i, v) \<in> set m' \<longleftrightarrow> (i, v) \<in> (\<lambda>(i, t). (i, f t)) ` set m" for i v
    unfolding gm_in_set_iff [OF assms(2)] assms(3) by (auto simp: image_iff gm_in_set_iff [OF assms(1)] case_prod_beta) (metis gm_in_set_iff [OF assms(1)] fst_conv snd_conv prod.collapse)+
  then have "set m' = (\<lambda>(i, t). (i, f t)) ` set m" by auto
  then have "mset m' = mset (map (\<lambda>(i, t). (i, f t)) m)"
    using gm_wf_nodup [OF assms(2)] nodup by (intro set_eq_iff_mset_eq_distinct [THEN iffD1]) auto
  then have "sum_mset (image_mset snd (mset m')) = sum_mset (image_mset snd (mset (map (\<lambda>(i, t). (i, f t)) m)))" by simp
  then have "sum_list (map snd m') = sum_list (map snd (map (\<lambda>(i, t). (i, f t)) m))"
    unfolding mset_map [symmetric] sum_mset_sum_list .
  then show ?thesis by (simp add: o_def case_prod_beta)
qed

text \<open>
  C24. In every state the server can reach, the byte count it checks its limit against is the sum of the encoded
  lengths of the tasks it holds, each task has its deadline, and there are at most as many tasks as configured.
  Each task sits under its own id, keeps at most the configured number of messages, and has an answer, so the
  accesses to the last artifact and to the status message that a stream makes are always defined.
\<close>

theorem a2a_tasks_accounted:
  assumes "a2a_requests cd (NewServerWithOptions rs faults opt) s"
  shows "as_retainedBytes s = sum_list (map (\<lambda>x. encoded_len cd (snd x)) (as_tasks s)) \<and>
    int (length (as_tasks s)) \<le> as_maxTasks s \<and> distinct (map fst (as_tasks s)) \<and>
    fst ` set (as_taskExpiry s) = fst ` set (as_tasks s) \<and> list_all (\<lambda>(i, t). task_wf s i t) (as_tasks s)"
proof (intro conjI)
  have inv: "a2a_inv cd s" by (rule a2a_requests_inv [OF assms])
  then have wf: "gm_wf (as_tasks s)" "gm_wf (as_taskBytes s)" and b: "gm_get (as_taskBytes s) i = map_option (encoded_len cd) (gm_get (as_tasks s) i)" for i
    by (auto simp: a2a_inv_def a2a_wf_def)
  show "as_retainedBytes s = sum_list (map (\<lambda>x. encoded_len cd (snd x)) (as_tasks s))"
    using inv sum_mapped [OF wf b] by (simp add: a2a_inv_def a2a_wf_def)
  show "int (length (as_tasks s)) \<le> as_maxTasks s" "distinct (map fst (as_tasks s))"
    using inv wf by (auto simp: a2a_inv_def a2a_wf_def gm_wf_def)
  show "fst ` set (as_taskExpiry s) = fst ` set (as_tasks s)" using inv by (auto simp: a2a_inv_def a2a_wf_def gm_keys_get set_eq_iff)
  show "list_all (\<lambda>(i, t). task_wf s i t) (as_tasks s)"
    using inv gm_in_set_iff [OF wf(1)] by (auto simp: a2a_inv_def tasks_wf_def list_all_iff)
qed

section \<open>Life of a task\<close>

text \<open>What may become of a task: its context stays, artifacts are only added, and a terminal task does not change.\<close>

definition progressed :: "a2a_task \<Rightarrow> a2a_task \<Rightarrow> bool" where
  "progressed t t' \<longleftrightarrow>
     tk_ContextID t' = tk_ContextID t \<and> prefix (tk_Artifacts t) (tk_Artifacts t') \<and> (isTerminal (st_State (tk_Status t)) \<longrightarrow> t' = t)"

lemma progressed_refl [simp]: "progressed t t"
  by (simp add: progressed_def)

lemma progressed_trans: "progressed t t' \<Longrightarrow> progressed t' t'' \<Longrightarrow> progressed t t''"
  by (auto simp: progressed_def)

lemma progressed_canceled: "\<not> isTerminal (st_State (tk_Status t)) \<Longrightarrow> progressed t (canceled now t)"
  by (simp add: progressed_def canceled_def)

lemma progressed_turn:
  assumes "turn_task now p parts state (i, tk_ContextID t, h, tk_Artifacts t) s = (t', s')" "0 < as_maxHistory s" "\<not> isTerminal (st_State (tk_Status t))"
  shows "progressed t t'"
  using turn_task_parts [OF assms(1,2)] assms(3) by (auto simp: progressed_def)

lemma a2a_op_progress:
  assumes "a2a_op cd l s s'" "a2a_inv cd s" "i = ''task-'' @ itoa n" "n \<le> as_seq s" "gm_get (as_tasks s') i = Some t'"
  shows "\<exists>t. gm_get (as_tasks s) i = Some t \<and> progressed t t'"
  using assms
proof (induction rule: a2a_op.induct)
  case (prune now s)
  then show ?case using prune_get_task [of s now i t'] by (auto simp: a2a_inv_def a2a_wf_def)
next
  case (turn rid p contextID s prior s1 now parts state t s2 now')
  have pos: "0 < as_maxHistory s" using turn.prems(1) by (simp add: a2a_inv_def a2a_wf_def)
  have s2: "as_tasks s2 = as_tasks s1" using turn_task_seq [OF turn.hyps(2)] by simp
  from turn.hyps(1) show ?case
  proof (cases rule: continued_cases)
    case (old t0)
    then show ?thesis
      using turn.prems(4) turn.hyps(2) pos s2 progressed_turn [of now p parts state "sp_TaskID p" t0 "tk_History t0" s t s2]
        turn_task_parts(1) [of now p parts state "sp_TaskID p" "tk_ContextID t0" "tk_History t0" "tk_Artifacts t0" s t s2]
      by (auto simp: store_task_def split: if_splits)
  next
    case new
    then have "tk_ID t = ''task-'' @ itoa (Suc (as_seq s))" using turn_task_parts(1) [of now p parts state _ _ _ _ s1 t s2] turn.hyps(2) pos by simp
    then have "i \<noteq> tk_ID t" using turn.prems(2,3) by auto
    then show ?thesis using turn.prems(4) new s2 by (auto simp: store_task_def)
  qed
next
  case (cancel s ident t now d)
  then show ?case using progressed_canceled by (auto simp: replaceAccountingLocked_def split: if_splits)
qed auto

lemma a2a_run_progress:
  assumes "a2a_run cd ls s s'" "a2a_inv cd s" "i = ''task-'' @ itoa n" "n \<le> as_seq s" "gm_get (as_tasks s') i = Some t'"
  shows "\<exists>t. gm_get (as_tasks s) i = Some t \<and> progressed t t'"
  using assms
proof (induction rule: a2a_run.induct)
  case (step l s s1 ls s2)
  have "a2a_inv cd s1" "n \<le> as_seq s1" using a2a_op_inv [OF step.hyps(1) step.prems(1)] step.prems(3) by auto
  with step obtain t1 where "gm_get (as_tasks s1) i = Some t1" "progressed t1 t'" by blast
  then show ?case using a2a_op_progress [OF step.hyps(1) step.prems(1-3)] progressed_trans by blast
qed auto

text \<open>
  C22. The life of a task, over any requests of any clients: its context never changes, its artifacts only grow, and
  once it is completed, canceled, failed or rejected it never changes again, until it is dropped; an id that was
  dropped is never given to another task.
\<close>

theorem a2a_task_life:
  assumes "a2a_requests cd (NewServerWithOptions rs faults opt) s" "gm_get (as_tasks s) i = Some t"
    and "a2a_requests cd s s'" "a2a_requests cd s' s''"
  shows "case gm_get (as_tasks s') i of None \<Rightarrow> gm_get (as_tasks s'') i = None | Some t' \<Rightarrow> progressed t t'"
proof -
  have inv: "a2a_inv cd s" by (rule a2a_requests_inv [OF assms(1)])
  then obtain n where n: "i = ''task-'' @ itoa n" "n \<le> as_seq s" using assms(2) by (auto simp: a2a_inv_def tasks_wf_def task_wf_def)
  obtain ls ls' where runs: "a2a_run cd ls s s'" "a2a_run cd ls' s' s''" using a2a_requests_run [OF assms(3)] a2a_requests_run [OF assms(4)] by blast
  have inv': "a2a_inv cd s'" "n \<le> as_seq s'" using a2a_run_inv [OF runs(1) inv] n(2) by auto
  show ?thesis
  proof (cases "gm_get (as_tasks s') i")
    case None
    then show ?thesis using a2a_run_progress [OF runs(2) inv'(1) n(1) inv'(2)] by (cases "gm_get (as_tasks s'') i") auto
  next
    case (Some t')
    then show ?thesis using a2a_run_progress [OF runs(1) inv n Some] assms(2) by auto
  qed
qed

section \<open>Sending and getting\<close>

text \<open>A step that leaves a task alone: it touches another one, or prunes before the deadline.\<close>

definition spares :: "string \<Rightarrow> instant \<Rightarrow> a2a_label \<Rightarrow> bool" where
  "spares i d l = (case l of LTick \<Rightarrow> True | LPrune now \<Rightarrow> now < d | LTurn x \<Rightarrow> x \<noteq> i | LCancel x \<Rightarrow> x \<noteq> i)"

definition holds :: "string \<Rightarrow> a2a_task \<Rightarrow> instant \<Rightarrow> a2a_server \<Rightarrow> bool" where
  "holds i t d s \<longleftrightarrow> gm_get (as_tasks s) i = Some t \<and> gm_get (as_taskExpiry s) i = Some d"

lemma prune_holds: "gm_wf (as_taskExpiry s) \<Longrightarrow> holds i t d s \<Longrightarrow> now < d \<Longrightarrow> holds i t d (pruneExpiredLocked now s)"
  by (simp add: holds_def prune_get)

lemma a2a_op_holds:
  assumes "a2a_op cd l s s'" "a2a_inv cd s" "spares i d l" "holds i t d s"
  shows "holds i t d s'"
  using assms
proof (induction rule: a2a_op.induct)
  case (prune now s)
  then show ?case using prune_holds by (simp add: spares_def a2a_inv_def a2a_wf_def)
next
  case (turn rid p contextID s prior s1 now parts state t' s2 now')
  have pos: "0 < as_maxHistory s" using turn.prems(1) by (simp add: a2a_inv_def a2a_wf_def)
  have s2: "as_tasks s2 = as_tasks s1" "as_taskExpiry s2 = as_taskExpiry s1" using turn_task_seq [OF turn.hyps(2)] by simp_all
  obtain n where n: "n \<le> as_seq s" "i = ''task-'' @ itoa n"
    using turn.prems(1,3) by (auto simp: a2a_inv_def tasks_wf_def task_wf_def holds_def)
  from turn.hyps(1) have "tk_ID t' \<noteq> i \<and> as_tasks s1 = as_tasks s \<and> as_taskExpiry s1 = as_taskExpiry s"
  proof (cases rule: continued_cases)
    case (old t0)
    then show ?thesis using turn.prems(2) turn.hyps(2) pos
        turn_task_parts(1) [of now p parts state "sp_TaskID p" "tk_ContextID t0" "tk_History t0" "tk_Artifacts t0" s t' s2]
      by (simp add: spares_def)
  next
    case new
    then show ?thesis using turn_task_parts(1) [of now p parts state _ _ _ _ s1 t' s2] turn.hyps(2) pos n by auto
  qed
  then show ?case using turn.prems(3) s2 by (auto simp: holds_def store_task_def)
qed (auto simp: holds_def spares_def replaceAccountingLocked_def)

lemma a2a_run_holds: "a2a_run cd ls s s' \<Longrightarrow> a2a_inv cd s \<Longrightarrow> list_all (spares i d) ls \<Longrightarrow> holds i t d s \<Longrightarrow> holds i t d s'"
proof (induction rule: a2a_run.induct)
  case (step l s s1 ls s2)
  then show ?case using a2a_op_inv a2a_op_holds by (metis list.pred_inject(2))
qed simp

text \<open>Requests of others before an instant: none of them names the task.\<close>

inductive a2a_others :: "codec \<Rightarrow> string \<Rightarrow> instant \<Rightarrow> a2a_server \<Rightarrow> a2a_server \<Rightarrow> bool" for cd i d s where
  start: "a2a_others cd i d s s"
| http: "a2a_others cd i d s s' \<Longrightarrow> RPCHandler cd tm hq s' = (r, s'') \<Longrightarrow> tm 0 < d \<Longrightarrow>
    (\<And>b. hq_body hq = Some b \<Longrightarrow> \<not> names (probe b) i) \<Longrightarrow> a2a_others cd i d s s''"

lemma caused_spares: "caused tm req l \<Longrightarrow> \<not> names req i \<Longrightarrow> tm 0 < d \<Longrightarrow> spares i d l"
  by (cases l) (auto simp: caused_def spares_def)

lemma a2a_others_holds: "a2a_others cd i d s s' \<Longrightarrow> a2a_inv cd s \<Longrightarrow> holds i t d s \<Longrightarrow> a2a_inv cd s' \<and> holds i t d s'"
proof (induction rule: a2a_others.induct)
  case (http s' tm hq r s'')
  then have inv: "a2a_inv cd s'" and h: "holds i t d s'" by auto
  show ?case
  proof (cases "hq_body hq")
    case None
    then show ?thesis using http.hyps(2) inv h by (auto simp: RPCHandler_def)
  next
    case (Some b)
    obtain ls where ls: "a2a_run cd ls s' s''" "list_all (caused tm (probe b)) ls"
      using runs_RPCHandler [OF http.hyps(2) Some] by (auto simp: runs_def)
    then have "list_all (spares i d) ls" using caused_spares http.hyps(3) http.hyps(4) [OF Some] by (auto simp: list_all_iff)
    then show ?thesis using a2a_run_inv [OF ls(1) inv] a2a_run_holds [OF ls(1) inv _ h] by blast
  qed
qed simp

lemma transition_error: "transitionLocked cd tm rid p parts state c s = (Inl e, s') \<Longrightarrow> \<exists>code msg. e = RpcError rid code msg NoData"
  by (auto simp: transitionLocked_def continued_def Let_def split: if_splits option.splits sum.splits prod.splits)

lemma send_holds:
  assumes "handleMessageSend cd tm req s = (RpcResult rid (ResTask c), s')" "a2a_inv cd s" "tk_ID c \<noteq> []"
  shows "\<exists>t. c = cloneTask cd t \<and> holds (tk_ID c) t (tm 2 + as_taskTTL s) s'"
proof -
  obtain p parts state contextID s1 t where c: "context_of p s = (contextID, s1)" "c = cloneTask cd t"
      "transitionLocked cd tm (rq_ID req) p parts state contextID s1 = (Inr t, s')"
    using assms(1) unfolding handleMessageSend_def Let_def
    by (auto split: option.splits prod.splits if_splits sum.splits dest: transition_error)
  have ttl1: "as_taskTTL s1 = as_taskTTL s" using c(1) by (auto simp: context_of_def nextID_def split: if_splits)
  obtain prior s2 s3 where x: "continued (rq_ID req) p contextID (pruneExpiredLocked (tm 0) s1) = Inr (prior, s2)"
      "turn_task (tm 1) p parts state prior s2 = (t, s3)" "s' = store_task cd (tm 2) t s3"
    using c(3) by (auto simp: transitionLocked_def Let_def split: sum.splits prod.splits if_splits)
  have "as_taskTTL s3 = as_taskTTL s"
    using continued_seq [OF x(1)] turn_task_seq [OF x(2)] ttl1 by auto
  moreover have "tk_ID c = tk_ID t" using c(2) assms(3) by (auto simp: cloneTask_def zero_task_def split: option.splits)
  ultimately show ?thesis using c(2) x(3) by (auto simp: holds_def store_task_def)
qed

text \<open>
  C23. What \<^verbatim>\<open>message/send\<close> answers is what \<^verbatim>\<open>tasks/get\<close> answers: until the task's time to live has passed, and whatever
  requests that do not name the task come in between, getting it by its id returns the task that was sent back,
  field by field.
\<close>

theorem a2a_send_get:
  assumes "a2a_requests cd (NewServerWithOptions rs faults opt) s"
    and "handleMessageSend cd tm req s = (RpcResult rid (ResTask c), s1)" "tk_ID c \<noteq> []"
    and "a2a_others cd (tk_ID c) (tm 2 + as_taskTTL s) s1 s2"
    and "rq_task req' = Some (tk_ID c)" "tm' 0 < tm 2 + as_taskTTL s"
  shows "fst (handleTasksGet cd tm' req' s2) = RpcResult (rq_ID req') (ResTask c)"
proof -
  have inv: "a2a_inv cd s" by (rule a2a_requests_inv [OF assms(1)])
  then have inv1: "a2a_inv cd s1" using runs_send [OF assms(2)] a2a_run_inv by (auto simp: runs_def)
  obtain t where t: "c = cloneTask cd t" "holds (tk_ID c) t (tm 2 + as_taskTTL s) s1" using send_holds [OF assms(2) inv assms(3)] by blast
  have "a2a_inv cd s2" "holds (tk_ID c) t (tm 2 + as_taskTTL s) s2" using a2a_others_holds [OF assms(4) inv1 t(2)] by auto
  then have "holds (tk_ID c) t (tm 2 + as_taskTTL s) (pruneExpiredLocked (tm' 0) s2)"
    using prune_holds assms(6) by (auto simp: a2a_inv_def a2a_wf_def)
  then show ?thesis using assms(5) t(1) by (simp add: handleTasksGet_def holds_def)
qed

section \<open>Examples\<close>

definition sample_codec :: codec where
  "sample_codec = \<lparr>cd_length = (\<lambda>t. Some (length (st_State (tk_Status t)))), cd_data = (\<lambda>d. d), cd_encodes = (\<lambda>_. True)\<rparr>"

definition no_faults :: a2a_faults where
  "no_faults = \<lparr>ft_Seed = 0, ft_Rate = None, ft_LatencyMs = 0, ft_TimeoutMs = 0, ft_StatusCode = 0, ft_Disconnect = False, ft_Reset = False,
     ft_Malformed = False, ft_MalformedSchema = False, ft_TruncateAfterBytes = 0, ft_Error = False,
     ft_OperationRates = Map.empty, ft_FixtureRates = Map.empty, ft_SequenceRates = Map.empty\<rparr>"

definition sample_a2a :: a2a_server where
  "sample_a2a = NewServerWithOptions
     [\<lparr>ar_Match = ''book'', ar_Default = False, ar_Text = ''which date?'', ar_State = ''working'', ar_AsMessage = False, ar_Data = None\<rparr>,
      \<lparr>ar_Match = [], ar_Default = True, ar_Text = ''bye'', ar_State = [], ar_AsMessage = False, ar_Data = None\<rparr>]
     no_faults \<lparr>so_MaxTasks = 0, so_MaxTaskBytes = 7, so_MaxHistory = 0, so_TaskTTL = 0\<rparr>"

definition sample_send :: "string \<Rightarrow> string \<Rightarrow> rpc_request" where
  "sample_send text taskID = \<lparr>rq_JSONRPC = ''2.0'', rq_ID = Some ''1'', rq_Method = ''message/send'',
     rq_send = Some \<lparr>sp_Role = ''user'', sp_Parts = [text_part text], sp_MessageID = [], sp_ContextID = [], sp_TaskID = taskID\<rparr>, rq_task = None\<rparr>"

definition sample_id :: "string \<Rightarrow> string \<Rightarrow> rpc_request" where
  "sample_id method taskID = \<lparr>rq_JSONRPC = ''2.0'', rq_ID = Some ''2'', rq_Method = method, rq_send = None, rq_task = Some taskID\<rparr>"

definition sample_booked :: a2a_server where
  "sample_booked = snd (HandleBytes sample_codec (\<lambda>_. 0) (Request (sample_send ''book a room'' [])) sample_a2a)"

definition sample_canceled :: a2a_server where
  "sample_canceled = snd (HandleBytes sample_codec (\<lambda>_. 0) (Request (sample_id ''tasks/cancel'' ''task-2'')) sample_booked)"

lemma sample_booked_reachable: "a2a_requests sample_codec sample_a2a sample_booked"
  unfolding sample_booked_def by (rule a2a_requests.bytes [OF a2a_requests.start prod.collapse [symmetric]])

lemma sample_canceled_later: "a2a_requests sample_codec sample_booked sample_canceled"
  unfolding sample_canceled_def by (rule a2a_requests.bytes [OF a2a_requests.start prod.collapse [symmetric]])

theorem a2a_tasks_accounted_witness:
  "as_retainedBytes sample_booked = 7 \<and> as_retainedBytes sample_booked = sum_list (map (\<lambda>x. encoded_len sample_codec (snd x)) (as_tasks sample_booked))"
proof
  show "as_retainedBytes sample_booked = 7" by code_simp
  show "as_retainedBytes sample_booked = sum_list (map (\<lambda>x. encoded_len sample_codec (snd x)) (as_tasks sample_booked))"
    using a2a_tasks_accounted [OF sample_booked_reachable [unfolded sample_a2a_def]] by blast
qed

theorem a2a_task_life_witness:
  "\<exists>t t'. gm_get (as_tasks sample_booked) ''task-2'' = Some t \<and> gm_get (as_tasks sample_canceled) ''task-2'' = Some t' \<and>
     progressed t t' \<and> st_State (tk_Status t') = ''canceled''"
proof -
  have "\<not> Option.is_none (gm_get (as_tasks sample_booked) ''task-2'')"
    "map_option (\<lambda>t. st_State (tk_Status t)) (gm_get (as_tasks sample_canceled) ''task-2'') = Some ''canceled''" by code_simp+
  then obtain t t' where t: "gm_get (as_tasks sample_booked) ''task-2'' = Some t" "gm_get (as_tasks sample_canceled) ''task-2'' = Some t'"
      "st_State (tk_Status t') = ''canceled''" by (auto simp: Option.is_none_def)
  have "progressed t t'"
    using a2a_task_life [OF sample_booked_reachable [unfolded sample_a2a_def] t(1) sample_canceled_later a2a_requests.start] t(2) by simp
  then show ?thesis using t by blast
qed

theorem a2a_send_get_witness:
  "\<exists>c. fst (handleMessageSend sample_codec (\<lambda>_. 0) (sample_send ''book a room'' []) sample_a2a) = RpcResult (Some ''1'') (ResTask c) \<and>
     fst (handleTasksGet sample_codec (\<lambda>_. Minute) (sample_id ''tasks/get'' ''task-2'')
       (snd (handleMessageSend sample_codec (\<lambda>_. 0) (sample_send ''book a room'' []) sample_a2a))) = RpcResult (Some ''2'') (ResTask c)"
proof -
  let ?send = "handleMessageSend sample_codec (\<lambda>_. 0) (sample_send ''book a room'' []) sample_a2a"
  have "(case fst ?send of RpcResult (Some i) (ResTask c) \<Rightarrow> i = ''1'' \<and> tk_ID c = ''task-2'' | _ \<Rightarrow> False)" by code_simp
  then obtain c where c: "fst ?send = RpcResult (Some ''1'') (ResTask c)" "tk_ID c = ''task-2''"
    by (auto split: rpc_response.splits option.splits rpc_result.splits)
  have ttl: "as_taskTTL sample_a2a = 30 * Minute" by code_simp
  obtain rs opt where new: "sample_a2a = NewServerWithOptions rs no_faults opt" using sample_a2a_def by blast
  have start: "a2a_requests sample_codec (NewServerWithOptions rs no_faults opt) sample_a2a" unfolding new by (rule a2a_requests.start)
  have run: "?send = (RpcResult (Some ''1'') (ResTask c), snd ?send)" using c(1) by (metis prod.collapse)
  have get: "rq_task (sample_id ''tasks/get'' ''task-2'') = Some (tk_ID c)" by (simp add: sample_id_def c(2))
  have "fst (handleTasksGet sample_codec (\<lambda>_. Minute) (sample_id ''tasks/get'' ''task-2'') (snd ?send))
      = RpcResult (rq_ID (sample_id ''tasks/get'' ''task-2'')) (ResTask c)"
    by (rule a2a_send_get [OF start run _ a2a_others.start get]) (simp_all add: c(2) ttl)
  then show ?thesis using c(1) by (simp add: sample_id_def)
qed

text \<open>
  A stream that continues a task without naming its context carries a fresh context id in every event, where the
  stored task keeps its own: the context of the continued task is only known inside \<^verbatim>\<open>transitionLocked\<close>.
\<close>

lemma stream_loses_context:
  "case StreamResults sample_codec (\<lambda>_. 0) (sample_send ''bye'' ''task-2'') (sample_booked\<lparr>as_maxTaskBytes := 100\<rparr>) of
     (Inr (EvTask w # _), s') \<Rightarrow> tk_ContextID w = ''ctx-6'' \<and> map_option tk_ContextID (gm_get (as_tasks s') ''task-2'') = Some ''ctx-1''
   | _ \<Rightarrow> False"
  by code_simp

text \<open>The user message a stream reports, where the client gave it no id, has another id than the stored one.\<close>

lemma stream_renames_message:
  "case StreamResults sample_codec (\<lambda>_. 0) (sample_send ''book'' []) sample_a2a of
     (Inr (EvTask w # _), s') \<Rightarrow> map am_MessageID (tk_History w) = [''msg-6''] \<and>
        map_option (\<lambda>t. map am_MessageID (tk_History t)) (gm_get (as_tasks s') ''task-2'') = Some [''msg-3'', ''msg-4'']
   | _ \<Rightarrow> False"
  by code_simp

text \<open>Canceling does not check the byte limit, so it may exceed it by what the new state adds to the encoding.\<close>

lemma cancel_exceeds_limit: "as_retainedBytes sample_canceled = 8 \<and> as_maxTaskBytes sample_canceled = 7"
  by code_simp

text \<open>A reply whose data has no encoding is stored with length 0, and the client is sent an empty task.\<close>

lemma unencodable_reply_is_empty:
  "fst (handleMessageSend (sample_codec\<lparr>cd_length := \<lambda>_. None\<rparr>) (\<lambda>_. 0) (sample_send ''book a room'' []) sample_a2a)
     = RpcResult (Some ''1'') (ResTask zero_task)"
  by code_simp

end
