(* ===== verification/Log_Broadcaster.thy ===== *)
theory Log_Broadcaster
  imports Go_Base "HOL-Library.Multiset" "HOL-Library.Product_Lexorder"
begin

text \<open>
  \<^verbatim>\<open>internal/server/log_broadcaster.go\<close>: the fan-out of log entries to live subscribers.

  A subscription is an address in a heap, since its holder and the broadcaster share it. A channel is its buffer,
  its capacity and whether it is closed; sending on a closed channel and closing one twice panic in Go, which is
  the value \<open>None\<close> here. The mutex is the atomicity of each operation; a receive by the holder is an operation of
  its own. Counters are natural numbers: a 64-bit count of events does not wrap.
\<close>

section \<open>Channels\<close>

record 'a channel =
  ch_buf :: "'a list"
  ch_cap :: nat
  ch_closed :: bool

definition make_chan :: "nat \<Rightarrow> 'a channel" where
  "make_chan n = \<lparr>ch_buf = [], ch_cap = n, ch_closed = False\<rparr>"

definition close_chan :: "'a channel \<Rightarrow> 'a channel option" where
  "close_chan c = (if ch_closed c then None else Some (c\<lparr>ch_closed := True\<rparr>))"

text \<open>\<^verbatim>\<open>select { case ch <- x: ... default: ... }\<close>: whether the value was sent.\<close>

definition try_send :: "'a \<Rightarrow> 'a channel \<Rightarrow> (bool \<times> 'a channel) option" where
  "try_send x c =
     (if ch_closed c then None
      else if length (ch_buf c) < ch_cap c then Some (True, c\<lparr>ch_buf := ch_buf c @ [x]\<rparr>)
      else Some (False, c))"

section \<open>Broadcaster\<close>

record log_entry =
  le_ID :: string
  le_TenantID :: string

record log_subscription =
  ls_ch :: "log_entry channel"
  ls_dropped :: nat
  ls_tenantID :: string

record log_broadcaster =
  lb_heap :: "(nat, log_subscription) gomap"
  lb_subscribers :: "nat list"
  lb_closed :: bool

definition DefaultLogStreamBuffer :: int where "DefaultLogStreamBuffer = 64"

definition zero_broadcaster :: log_broadcaster where
  "zero_broadcaster = \<lparr>lb_heap = [], lb_subscribers = [], lb_closed = False\<rparr>"

text \<open>\<open>p\<close> is the address the runtime allocates. The cancel function is \<open>cancel p\<close>, or nothing once closed.\<close>

definition subscribe :: "nat \<Rightarrow> int \<Rightarrow> string \<Rightarrow> log_broadcaster \<Rightarrow> log_broadcaster" where
  "subscribe p buffer tenantID b =
     (let n = nat (if buffer \<le> 0 then DefaultLogStreamBuffer else buffer);
          sub = \<lparr>ls_ch = make_chan n, ls_dropped = 0, ls_tenantID = tenantID\<rparr>
      in if lb_closed b then b\<lparr>lb_heap := gm_put p (sub\<lparr>ls_ch := (make_chan n)\<lparr>ch_closed := True\<rparr>\<rparr>) (lb_heap b)\<rparr>
         else b\<lparr>lb_heap := gm_put p sub (lb_heap b), lb_subscribers := lb_subscribers b @ [p]\<rparr>)"

definition Subscribe :: "nat \<Rightarrow> int \<Rightarrow> log_broadcaster \<Rightarrow> log_broadcaster" where
  "Subscribe p buffer = subscribe p buffer []"

definition SubscribeTenant :: "nat \<Rightarrow> int \<Rightarrow> string \<Rightarrow> log_broadcaster \<Rightarrow> log_broadcaster" where
  "SubscribeTenant p buffer tenantID = subscribe p buffer tenantID"

definition close_sub :: "nat \<Rightarrow> (nat, log_subscription) gomap \<Rightarrow> (nat, log_subscription) gomap option" where
  "close_sub p h =
     (case gm_get h p of None \<Rightarrow> None
      | Some sub \<Rightarrow> map_option (\<lambda>c. gm_put p (sub\<lparr>ls_ch := c\<rparr>) h) (close_chan (ls_ch sub)))"

definition cancel :: "nat \<Rightarrow> log_broadcaster \<Rightarrow> log_broadcaster option" where
  "cancel p b =
     (if p \<in> set (lb_subscribers b)
      then map_option (\<lambda>h. b\<lparr>lb_subscribers := remove1 p (lb_subscribers b), lb_heap := h\<rparr>) (close_sub p (lb_heap b))
      else Some b)"

definition wants :: "log_subscription \<Rightarrow> log_entry \<Rightarrow> bool" where
  "wants sub e \<longleftrightarrow> \<not> (ls_tenantID sub \<noteq> [] \<and> le_TenantID e \<noteq> ls_tenantID sub)"

definition deliver :: "log_entry \<Rightarrow> nat \<Rightarrow> (nat, log_subscription) gomap \<Rightarrow> (nat, log_subscription) gomap option" where
  "deliver e p h =
     (case gm_get h p of None \<Rightarrow> None
      | Some sub \<Rightarrow>
          if \<not> wants sub e then Some h
          else map_option (\<lambda>(sent, c). gm_put p (if sent then sub\<lparr>ls_ch := c\<rparr> else sub\<lparr>ls_dropped := ls_dropped sub + 1\<rparr>) h)
                 (try_send e (ls_ch sub)))"

fun deliver_all :: "log_entry \<Rightarrow> nat list \<Rightarrow> (nat, log_subscription) gomap \<Rightarrow> (nat, log_subscription) gomap option" where
  "deliver_all e [] h = Some h"
| "deliver_all e (p # ps) h = (case deliver e p h of None \<Rightarrow> None | Some h' \<Rightarrow> deliver_all e ps h')"

definition Publish :: "log_entry \<Rightarrow> log_broadcaster \<Rightarrow> log_broadcaster option" where
  "Publish e b = map_option (\<lambda>h. b\<lparr>lb_heap := h\<rparr>) (deliver_all e (lb_subscribers b) (lb_heap b))"

fun close_all :: "nat list \<Rightarrow> (nat, log_subscription) gomap \<Rightarrow> (nat, log_subscription) gomap option" where
  "close_all [] h = Some h"
| "close_all (p # ps) h = (case close_sub p h of None \<Rightarrow> None | Some h' \<Rightarrow> close_all ps h')"

definition Broadcaster_Close :: "log_broadcaster \<Rightarrow> log_broadcaster option" where
  "Broadcaster_Close b =
     (if lb_closed b then Some b
      else map_option (\<lambda>h. \<lparr>lb_heap = h, lb_subscribers = [], lb_closed = True\<rparr>) (close_all (lb_subscribers b) (lb_heap b)))"

definition SubscriberCount :: "log_broadcaster \<Rightarrow> nat" where
  "SubscriberCount b = length (lb_subscribers b)"

text \<open>A receive by the holder of a subscription, where an entry is buffered.\<close>

definition receive :: "nat \<Rightarrow> log_broadcaster \<Rightarrow> (log_entry \<times> log_broadcaster) option" where
  "receive p b =
     (case gm_get (lb_heap b) p of None \<Rightarrow> None
      | Some sub \<Rightarrow> (case ch_buf (ls_ch sub) of [] \<Rightarrow> None
          | e # es \<Rightarrow> Some (e, b\<lparr>lb_heap := gm_put p (sub\<lparr>ls_ch := (ls_ch sub)\<lparr>ch_buf := es\<rparr>\<rparr>) (lb_heap b)\<rparr>)))"

section \<open>Snapshot\<close>

record subscriber_snapshot =
  ss_Dropped :: nat
  ss_BufferCap :: nat
  ss_BufferLen :: nat

record broadcaster_snapshot =
  bs_SubscriberCount :: nat
  bs_TotalDropped :: nat
  bs_MaxDropped :: nat
  bs_Subscribers :: "subscriber_snapshot list"

definition snap_less :: "subscriber_snapshot \<Rightarrow> subscriber_snapshot \<Rightarrow> bool" where
  "snap_less a b \<longleftrightarrow> ss_Dropped a < ss_Dropped b \<or> (ss_Dropped a = ss_Dropped b \<and> ss_BufferLen a < ss_BufferLen b)"

text \<open>The inner loop from \<^verbatim>\<open>j\<close> downwards, and the outer loop.\<close>

fun sink :: "subscriber_snapshot list \<Rightarrow> nat \<Rightarrow> subscriber_snapshot list" where
  "sink s 0 = s"
| "sink s (Suc j) = (if snap_less (s ! j) (s ! Suc j) then sink (s[j := s ! Suc j, Suc j := s ! j]) j else s)"

definition sortSubscriberSnapshots :: "subscriber_snapshot list \<Rightarrow> subscriber_snapshot list" where
  "sortSubscriberSnapshots s = fold (\<lambda>i s. sink s i) [1..<length s] s"

definition snapshot_of :: "log_subscription \<Rightarrow> subscriber_snapshot" where
  "snapshot_of sub = \<lparr>ss_Dropped = ls_dropped sub, ss_BufferCap = ch_cap (ls_ch sub), ss_BufferLen = length (ch_buf (ls_ch sub))\<rparr>"

definition SnapshotTenant :: "string \<Rightarrow> log_broadcaster \<Rightarrow> broadcaster_snapshot" where
  "SnapshotTenant tenantID b =
     (let subs = filter (\<lambda>sub. \<not> (tenantID \<noteq> [] \<and> ls_tenantID sub \<noteq> tenantID)) (List.map_filter (gm_get (lb_heap b)) (lb_subscribers b))
      in \<lparr>bs_SubscriberCount = length subs, bs_TotalDropped = sum_list (map ls_dropped subs),
          bs_MaxDropped = fold max (map ls_dropped subs) 0,
          bs_Subscribers = sortSubscriberSnapshots (map snapshot_of subs)\<rparr>)"

definition Snapshot :: "log_broadcaster \<Rightarrow> broadcaster_snapshot" where
  "Snapshot = SnapshotTenant []"

section \<open>The order of a snapshot\<close>

definition snap_key :: "subscriber_snapshot \<Rightarrow> nat \<times> nat" where
  "snap_key a = (ss_Dropped a, ss_BufferLen a)"

lemma snap_less_key: "snap_less a b \<longleftrightarrow> snap_key a < snap_key b"
  by (auto simp: snap_less_def snap_key_def)

abbreviation descending :: "subscriber_snapshot list \<Rightarrow> bool" where
  "descending \<equiv> sorted_wrt (\<lambda>a b. snap_key b \<le> snap_key a)"

lemma sink_append:
  "sink (xs @ x # ys) (length xs) =
     rev (dropWhile (\<lambda>y. snap_less y x) (rev xs)) @ x # rev (takeWhile (\<lambda>y. snap_less y x) (rev xs)) @ ys"
proof (induction xs arbitrary: ys rule: rev_induct)
  case (snoc y xs)
  have "(xs @ [y] @ x # ys)[length xs := x, Suc (length xs) := y] = xs @ x # y # ys" by (simp add: list_update_append)
  then show ?case using snoc [of "y # ys"] by (simp add: nth_append)
qed simp

lemma sink_descending:
  assumes "descending xs"
  shows "\<exists>zs. sink (xs @ x # ys) (length xs) = zs @ ys \<and> mset zs = add_mset x (mset xs) \<and> descending zs"
proof -
  let ?d = "dropWhile (\<lambda>y. snap_less y x) (rev xs)" and ?t = "takeWhile (\<lambda>y. snap_less y x) (rev xs)"
  have split: "rev ?d @ rev ?t = xs" by (metis rev_append rev_rev_ident takeWhile_dropWhile_id)
  have desc: "descending (rev ?d @ rev ?t)" using assms split by simp
  have low: "snap_key y \<le> snap_key x" if "y \<in> set ?t" for y using that by (auto dest!: set_takeWhileD simp: snap_less_key)
  have high: "snap_key x \<le> snap_key y" if "y \<in> set ?d" for y
  proof -
    from that have "?d \<noteq> []" by (metis empty_iff empty_set)
    then obtain z zs where z: "?d = z # zs" "\<not> snap_less z x"
      using hd_dropWhile [of "\<lambda>y. snap_less y x" "rev xs"] by (metis list.collapse)
    have "descending (rev zs @ [z])" using desc z(1) by (simp add: sorted_wrt_append)
    then have "snap_key z \<le> snap_key y" using that z(1) by (auto simp: sorted_wrt_append)
    then show ?thesis using z(2) by (simp add: snap_less_key)
  qed
  have "descending (rev ?d @ x # rev ?t)" using desc low high by (auto simp: sorted_wrt_append)
  moreover have "mset (rev ?d @ x # rev ?t) = add_mset x (mset xs)" by (metis split mset_append union_mset_add_mset_right mset.simps(2))
  ultimately show ?thesis unfolding sink_append by (intro exI [of _ "rev ?d @ x # rev ?t"]) simp
qed

lemma sort_loop:
  "length s \<ge> n \<Longrightarrow> \<exists>zs. fold (\<lambda>i s. sink s i) [1..<n] s = zs @ drop n s \<and> mset zs = mset (take n s) \<and> descending zs"
proof (induction n)
  case (Suc n)
  show ?case
  proof (cases n)
    case 0
    then show ?thesis using Suc.prems by (cases s) auto
  next
    case (Suc m)
    then obtain zs where zs: "fold (\<lambda>i s. sink s i) [1..<n] s = zs @ drop n s" "mset zs = mset (take n s)" "descending zs"
      using Suc.IH Suc.prems by auto
    have len: "length zs = n" using zs(2) Suc.prems by (metis length_take min_absorb2 size_mset Suc_leD)
    have dr: "drop n s = s ! n # drop (Suc n) s" using Suc.prems by (simp add: Cons_nth_drop_Suc)
    obtain ws where "sink (zs @ s ! n # drop (Suc n) s) (length zs) = ws @ drop (Suc n) s" "mset ws = add_mset (s ! n) (mset zs)" "descending ws"
      using sink_descending [OF zs(3)] by blast
    then show ?thesis using zs len dr Suc Suc.prems by (auto simp: take_Suc_conv_app_nth)
  qed
qed simp

text \<open>The snapshot lists the subscribers, each once, by falling drop count and then by falling buffer length.\<close>

lemma sortSubscriberSnapshots_sorts:
  "mset (sortSubscriberSnapshots s) = mset s" "descending (sortSubscriberSnapshots s)"
  using sort_loop [of "length s" s] by (auto simp: sortSubscriberSnapshots_def)

section \<open>No panic\<close>

definition lb_wf :: "log_broadcaster \<Rightarrow> bool" where
  "lb_wf b \<longleftrightarrow> distinct (lb_subscribers b) \<and> (lb_closed b \<longrightarrow> lb_subscribers b = []) \<and>
     (\<forall>p \<in> set (lb_subscribers b). \<exists>sub. gm_get (lb_heap b) p = Some sub \<and> \<not> ch_closed (ls_ch sub))"

text \<open>An open subscription at each of some addresses.\<close>

definition open_at :: "nat list \<Rightarrow> (nat, log_subscription) gomap \<Rightarrow> bool" where
  "open_at ps h \<longleftrightarrow> (\<forall>p \<in> set ps. \<exists>sub. gm_get h p = Some sub \<and> \<not> ch_closed (ls_ch sub))"

lemma open_at_Cons: "open_at (p # ps) h \<longleftrightarrow> (\<exists>sub. gm_get h p = Some sub \<and> \<not> ch_closed (ls_ch sub)) \<and> open_at ps h"
  by (auto simp: open_at_def)

lemma open_at_put:
  assumes "open_at ps h" "gm_get h p = Some sub" "ch_closed (ls_ch sub') = ch_closed (ls_ch sub)"
  shows "open_at ps (gm_put p sub' h)"
  unfolding open_at_def
proof
  fix q assume "q \<in> set ps"
  then obtain x where "gm_get h q = Some x" "\<not> ch_closed (ls_ch x)" using assms(1) by (auto simp: open_at_def)
  then show "\<exists>x. gm_get (gm_put p sub' h) q = Some x \<and> \<not> ch_closed (ls_ch x)" using assms(2,3) by auto
qed

text \<open>What an open subscription makes of an entry.\<close>

definition offered :: "log_entry \<Rightarrow> log_subscription \<Rightarrow> log_subscription" where
  "offered e sub =
     (if \<not> wants sub e then sub
      else if length (ch_buf (ls_ch sub)) < ch_cap (ls_ch sub) then sub\<lparr>ls_ch := (ls_ch sub)\<lparr>ch_buf := ch_buf (ls_ch sub) @ [e]\<rparr>\<rparr>
      else sub\<lparr>ls_dropped := ls_dropped sub + 1\<rparr>)"

lemma offered_closed [simp]: "ch_closed (ls_ch (offered e sub)) = ch_closed (ls_ch sub)"
  by (simp add: offered_def)

lemma deliver_open:
  "gm_get h p = Some sub \<Longrightarrow> \<not> ch_closed (ls_ch sub) \<Longrightarrow> deliver e p h = Some (if wants sub e then gm_put p (offered e sub) h else h)"
  by (simp add: deliver_def try_send_def offered_def) blast

lemma deliver_SomeD:
  assumes "deliver e p h = Some h'"
  obtains sub where "gm_get h p = Some sub" "h' = (if wants sub e then gm_put p (offered e sub) h else h)"
proof (cases "gm_get h p")
  case None
  then show ?thesis using assms by (simp add: deliver_def)
next
  case (Some sub)
  then have "h' = (if wants sub e then gm_put p (offered e sub) h else h)"
    using assms deliver_open [OF Some, of e] by (cases "ch_closed (ls_ch sub)") (simp_all add: deliver_def try_send_def split: if_splits)
  then show ?thesis using that Some by blast
qed

lemma deliver_keeps_open: "deliver e p h = Some h' \<Longrightarrow> open_at ps h \<Longrightarrow> open_at ps h'"
  by (erule deliver_SomeD) (auto intro: open_at_put)

lemma deliver_all_open: "open_at ps h \<Longrightarrow> open_at qs h \<Longrightarrow> \<exists>h'. deliver_all e ps h = Some h' \<and> open_at qs h'"
proof (induction ps arbitrary: h)
  case (Cons p ps)
  then obtain sub where "gm_get h p = Some sub" "\<not> ch_closed (ls_ch sub)" by (auto simp: open_at_Cons)
  then obtain h' where h': "deliver e p h = Some h'" using deliver_open [of h p sub e] by blast
  then show ?case using Cons deliver_keeps_open [OF h'] by (auto simp: open_at_Cons)
qed simp

lemma close_all_open: "open_at ps h \<Longrightarrow> distinct ps \<Longrightarrow> \<exists>h'. close_all ps h = Some h'"
proof (induction ps arbitrary: h)
  case (Cons p ps)
  then obtain sub where sub: "gm_get h p = Some sub" "\<not> ch_closed (ls_ch sub)" by (auto simp: open_at_Cons)
  then have c: "close_sub p h = Some (gm_put p (sub\<lparr>ls_ch := (ls_ch sub)\<lparr>ch_closed := True\<rparr>\<rparr>) h)" by (simp add: close_sub_def close_chan_def)
  moreover have "open_at ps (gm_put p (sub\<lparr>ls_ch := (ls_ch sub)\<lparr>ch_closed := True\<rparr>\<rparr>) h)"
    using Cons.prems by (auto simp: open_at_def)
  ultimately show ?case using Cons by simp
qed simp

lemma lb_wf_open: "lb_wf b \<Longrightarrow> open_at (lb_subscribers b) (lb_heap b)"
  by (simp add: lb_wf_def open_at_def)

lemma Publish_wf: "lb_wf b \<Longrightarrow> \<exists>b'. Publish e b = Some b' \<and> lb_wf b'"
  using deliver_all_open [OF lb_wf_open lb_wf_open, of b e] by (auto simp: Publish_def lb_wf_def open_at_def)

lemma cancel_wf: "lb_wf b \<Longrightarrow> \<exists>b'. cancel p b = Some b' \<and> lb_wf b'"
proof (cases "p \<in> set (lb_subscribers b)")
  case True
  moreover assume wf: "lb_wf b"
  ultimately obtain sub where "gm_get (lb_heap b) p = Some sub" "\<not> ch_closed (ls_ch sub)" by (auto simp: lb_wf_def)
  then show ?thesis using wf True by (auto simp: cancel_def close_sub_def close_chan_def lb_wf_def)
qed (simp add: cancel_def)

lemma Close_wf: "lb_wf b \<Longrightarrow> \<exists>b'. Broadcaster_Close b = Some b' \<and> lb_wf b'"
  using close_all_open [OF lb_wf_open, of b] by (auto simp: Broadcaster_Close_def lb_wf_def)

lemma subscribe_wf: "lb_wf b \<Longrightarrow> gm_get (lb_heap b) p = None \<Longrightarrow> lb_wf (subscribe p n tid b)"
  by (auto simp: lb_wf_def subscribe_def make_chan_def Let_def)

lemma receive_parts:
  assumes "receive p b = Some (e, b')"
  obtains sub es where "gm_get (lb_heap b) p = Some sub" "ch_buf (ls_ch sub) = e # es"
    "b' = b\<lparr>lb_heap := gm_put p (sub\<lparr>ls_ch := (ls_ch sub)\<lparr>ch_buf := es\<rparr>\<rparr>) (lb_heap b)\<rparr>"
  using assms by (auto simp: receive_def split: option.splits list.splits)

lemma receive_wf: "lb_wf b \<Longrightarrow> receive p b = Some (e, b') \<Longrightarrow> lb_wf b'"
proof (erule receive_parts)
  fix sub es
  assume wf: "lb_wf b" and sub: "gm_get (lb_heap b) p = Some sub"
    and b': "b' = b\<lparr>lb_heap := gm_put p (sub\<lparr>ls_ch := (ls_ch sub)\<lparr>ch_buf := es\<rparr>\<rparr>) (lb_heap b)\<rparr>"
  have "open_at (lb_subscribers b) (lb_heap b')" unfolding b' using open_at_put [OF lb_wf_open [OF wf] sub] by simp
  then show "lb_wf b'" using wf b' by (simp add: lb_wf_def open_at_def)
qed

inductive lb_reachable :: "log_broadcaster \<Rightarrow> bool" where
  start: "lb_reachable zero_broadcaster"
| subscribe: "lb_reachable b \<Longrightarrow> gm_get (lb_heap b) p = None \<Longrightarrow> lb_reachable (subscribe p n tid b)"
| cancel: "lb_reachable b \<Longrightarrow> cancel p b = Some b' \<Longrightarrow> lb_reachable b'"
| publish: "lb_reachable b \<Longrightarrow> Publish e b = Some b' \<Longrightarrow> lb_reachable b'"
| close: "lb_reachable b \<Longrightarrow> Broadcaster_Close b = Some b' \<Longrightarrow> lb_reachable b'"
| receive: "lb_reachable b \<Longrightarrow> receive p b = Some (e, b') \<Longrightarrow> lb_reachable b'"

lemma lb_reachable_wf: "lb_reachable b \<Longrightarrow> lb_wf b"
proof (induction rule: lb_reachable.induct)
  case start
  show ?case by (simp add: lb_wf_def zero_broadcaster_def)
next
  case (cancel b p b')
  then show ?case using cancel_wf [of b p] by auto
next
  case (publish b e b')
  then show ?case using Publish_wf [of b e] by auto
next
  case (close b b')
  then show ?case using Close_wf [of b] by auto
qed (auto intro: subscribe_wf receive_wf)

section \<open>One subscriber\<close>

lemma deliver_other: "deliver e q h = Some h' \<Longrightarrow> q \<noteq> p \<Longrightarrow> gm_get h' p = gm_get h p"
  by (erule deliver_SomeD) simp

lemma deliver_all_other: "deliver_all e qs h = Some h' \<Longrightarrow> p \<notin> set qs \<Longrightarrow> gm_get h' p = gm_get h p"
proof (induction qs arbitrary: h)
  case (Cons q qs)
  then obtain h1 where h1: "deliver e q h = Some h1" "deliver_all e qs h1 = Some h'" by (auto split: option.splits)
  then show ?case using Cons deliver_other [OF h1(1), of p] by auto
qed simp

lemma deliver_self: "deliver e p h = Some h' \<Longrightarrow> gm_get h p = Some sub \<Longrightarrow> gm_get h' p = Some (offered e sub)"
  by (erule deliver_SomeD) (simp add: offered_def)

lemma deliver_all_self:
  "deliver_all e qs h = Some h' \<Longrightarrow> p \<in> set qs \<Longrightarrow> distinct qs \<Longrightarrow> gm_get h p = Some sub \<Longrightarrow> gm_get h' p = Some (offered e sub)"
proof (induction qs arbitrary: h)
  case (Cons q qs)
  then obtain h1 where h1: "deliver e q h = Some h1" "deliver_all e qs h1 = Some h'" by (auto split: option.splits)
  show ?case
  proof (cases "q = p")
    case True
    then show ?thesis using Cons.prems h1 deliver_self deliver_all_other by simp
  next
    case False
    then show ?thesis using Cons h1 deliver_other [OF h1(1) False] by simp
  qed
qed simp

lemma close_sub_keeps:
  "close_sub q h = Some h' \<Longrightarrow> gm_get h p = Some sub \<Longrightarrow>
     \<exists>sub'. gm_get h' p = Some sub' \<and> ls_dropped sub' = ls_dropped sub \<and> ls_tenantID sub' = ls_tenantID sub \<and>
       ch_buf (ls_ch sub') = ch_buf (ls_ch sub) \<and> ch_cap (ls_ch sub') = ch_cap (ls_ch sub)"
  by (auto simp: close_sub_def close_chan_def split: option.splits if_splits)

lemma close_all_keeps:
  "close_all qs h = Some h' \<Longrightarrow> gm_get h p = Some sub \<Longrightarrow>
     \<exists>sub'. gm_get h' p = Some sub' \<and> ls_dropped sub' = ls_dropped sub \<and> ls_tenantID sub' = ls_tenantID sub \<and>
       ch_buf (ls_ch sub') = ch_buf (ls_ch sub) \<and> ch_cap (ls_ch sub') = ch_cap (ls_ch sub)"
proof (induction qs arbitrary: h sub)
  case (Cons q qs)
  then obtain h1 where h1: "close_sub q h = Some h1" "close_all qs h1 = Some h'" by (auto split: option.splits)
  from close_sub_keeps [OF h1(1) Cons.prems(2)] show ?case using Cons.IH [OF h1(2)] by metis
qed auto

text \<open>
  The life of the subscription at \<open>p\<close> from its start: the entries published while it was registered, and those its
  holder has received.
\<close>

inductive stream_of :: "nat \<Rightarrow> string \<Rightarrow> log_entry list \<Rightarrow> log_entry list \<Rightarrow> log_broadcaster \<Rightarrow> bool" for p tid where
  start: "lb_reachable b \<Longrightarrow> \<not> lb_closed b \<Longrightarrow> gm_get (lb_heap b) p = None \<Longrightarrow> stream_of p tid [] [] (subscribe p n tid b)"
| subscribe: "stream_of p tid pub rcv b \<Longrightarrow> gm_get (lb_heap b) q = None \<Longrightarrow> stream_of p tid pub rcv (subscribe q n tid' b)"
| cancel: "stream_of p tid pub rcv b \<Longrightarrow> cancel q b = Some b' \<Longrightarrow> stream_of p tid pub rcv b'"
| publish: "stream_of p tid pub rcv b \<Longrightarrow> Publish e b = Some b' \<Longrightarrow>
    stream_of p tid (if p \<in> set (lb_subscribers b) then pub @ [e] else pub) rcv b'"
| close: "stream_of p tid pub rcv b \<Longrightarrow> Broadcaster_Close b = Some b' \<Longrightarrow> stream_of p tid pub rcv b'"
| receive: "stream_of p tid pub rcv b \<Longrightarrow> receive q b = Some (e, b') \<Longrightarrow> stream_of p tid pub (if q = p then rcv @ [e] else rcv) b'"

definition own :: "string \<Rightarrow> log_entry list \<Rightarrow> log_entry list" where
  "own tid = filter (\<lambda>e. tid = [] \<or> le_TenantID e = tid)"

definition accounted :: "string \<Rightarrow> log_entry list \<Rightarrow> log_entry list \<Rightarrow> log_subscription \<Rightarrow> bool" where
  "accounted tid pub rcv sub \<longleftrightarrow> ls_tenantID sub = tid \<and> subseq (rcv @ ch_buf (ls_ch sub)) (own tid pub) \<and>
     length rcv + length (ch_buf (ls_ch sub)) + ls_dropped sub = length (own tid pub) \<and> length (ch_buf (ls_ch sub)) \<le> ch_cap (ls_ch sub)"

lemma wants_own: "ls_tenantID sub = tid \<Longrightarrow> wants sub e \<longleftrightarrow> tid = [] \<or> le_TenantID e = tid"
  by (auto simp: wants_def)

lemma accounted_offered: "accounted tid pub rcv sub \<Longrightarrow> accounted tid (pub @ [e]) rcv (offered e sub)"
  using list_emb_append_mono [of "(=)" "rcv @ ch_buf (ls_ch sub)" "own tid pub" "[e]" "[e]"]
    list_emb_append_mono [of "(=)" "rcv @ ch_buf (ls_ch sub)" "own tid pub" "[]" "[e]"]
  by (auto simp: accounted_def offered_def wants_own own_def)

lemma subscribe_keeps: "p \<noteq> q \<Longrightarrow> gm_get (lb_heap (subscribe q n tid b)) p = gm_get (lb_heap b) p"
  by (simp add: subscribe_def Let_def)

lemma cancel_keeps:
  "cancel q b = Some b' \<Longrightarrow> gm_get (lb_heap b) p = Some sub \<Longrightarrow>
     \<exists>sub'. gm_get (lb_heap b') p = Some sub' \<and> ls_dropped sub' = ls_dropped sub \<and> ls_tenantID sub' = ls_tenantID sub \<and>
       ch_buf (ls_ch sub') = ch_buf (ls_ch sub) \<and> ch_cap (ls_ch sub') = ch_cap (ls_ch sub)"
  using close_sub_keeps [of q "lb_heap b" _ p sub] by (auto simp: cancel_def split: if_splits)

lemma Close_keeps:
  "Broadcaster_Close b = Some b' \<Longrightarrow> gm_get (lb_heap b) p = Some sub \<Longrightarrow>
     \<exists>sub'. gm_get (lb_heap b') p = Some sub' \<and> ls_dropped sub' = ls_dropped sub \<and> ls_tenantID sub' = ls_tenantID sub \<and>
       ch_buf (ls_ch sub') = ch_buf (ls_ch sub) \<and> ch_cap (ls_ch sub') = ch_cap (ls_ch sub)"
  using close_all_keeps [of "lb_subscribers b" "lb_heap b" _ p sub] by (auto simp: Broadcaster_Close_def split: if_splits)

lemma accounted_same:
  "accounted tid pub rcv sub \<Longrightarrow> ls_dropped sub' = ls_dropped sub \<Longrightarrow> ls_tenantID sub' = ls_tenantID sub \<Longrightarrow>
     ch_buf (ls_ch sub') = ch_buf (ls_ch sub) \<Longrightarrow> ch_cap (ls_ch sub') = ch_cap (ls_ch sub) \<Longrightarrow> accounted tid pub rcv sub'"
  by (simp add: accounted_def)

lemma accounted_received:
  "accounted tid pub rcv sub \<Longrightarrow> ch_buf (ls_ch sub) = e # es \<Longrightarrow>
     accounted tid pub (rcv @ [e]) (sub\<lparr>ls_ch := (ls_ch sub)\<lparr>ch_buf := es\<rparr>\<rparr>)"
  by (simp add: accounted_def)

lemma stream_inv: "stream_of p tid pub rcv b \<Longrightarrow> lb_wf b \<and> (\<exists>sub. gm_get (lb_heap b) p = Some sub \<and> accounted tid pub rcv sub)"
proof (induction rule: stream_of.induct)
  case (start b n)
  have "\<exists>sub. gm_get (lb_heap (subscribe p n tid b)) p = Some sub \<and> accounted tid [] [] sub"
    using start by (simp add: subscribe_def Let_def accounted_def own_def make_chan_def)
  then show ?case using subscribe_wf [OF lb_reachable_wf [OF start(1)] start(3)] by blast
next
  case (subscribe pub rcv b q n tid')
  then obtain sub where "gm_get (lb_heap b) p = Some sub" "accounted tid pub rcv sub" by blast
  moreover from this subscribe.hyps(2) have "p \<noteq> q" by auto
  ultimately show ?case using subscribe subscribe_wf [of b q n tid'] subscribe_keeps [of p q n tid' b] by simp
next
  case (cancel pub rcv b q b')
  then show ?case using cancel_wf [of b q] cancel_keeps [of q b b' p] accounted_same by (metis option.inject)
next
  case (publish pub rcv b e b')
  then obtain sub where sub: "gm_get (lb_heap b) p = Some sub" "accounted tid pub rcv sub" and wf: "lb_wf b" by blast
  obtain h where h: "deliver_all e (lb_subscribers b) (lb_heap b) = Some h" "b' = b\<lparr>lb_heap := h\<rparr>" using publish.hyps(2) by (auto simp: Publish_def)
  have "lb_wf b'" using Publish_wf [OF wf, of e] publish.hyps(2) by simp
  moreover have "gm_get h p = Some (if p \<in> set (lb_subscribers b) then offered e sub else sub)"
    using deliver_all_self [OF h(1) _ _ sub(1)] deliver_all_other [OF h(1)] sub(1) wf by (simp add: lb_wf_def)
  ultimately show ?case using accounted_offered [OF sub(2)] sub(2) h(2) by simp
next
  case (close pub rcv b b')
  then show ?case using Close_wf [of b] Close_keeps [of b b' p] accounted_same by (metis option.inject)
next
  case (receive pub rcv b q e b')
  then obtain sub where sub: "gm_get (lb_heap b) p = Some sub" "accounted tid pub rcv sub" by blast
  have "lb_wf b'" using receive receive_wf by blast
  moreover from receive.hyps(2) have "\<exists>sub'. gm_get (lb_heap b') p = Some sub' \<and> accounted tid pub (if q = p then rcv @ [e] else rcv) sub'"
    by (rule receive_parts) (use sub accounted_received in auto)
  ultimately show ?case by blast
qed

text \<open>
  C26. A live-log subscriber of a tenant, under any interleaving with other subscribers, publishers, cancellations and
  the shutdown: what it has received and what is buffered for it are, in order and without repetition, entries of
  its tenant published while it was subscribed, and the drop count it is shown is exactly the number of those that
  are missing. So another tenant's traffic neither reaches it nor costs it an entry. No step panics: a publication,
  a cancellation and a shutdown never send on or close a closed channel.
\<close>

theorem subscriber_stream:
  assumes "stream_of p tid pub rcv b"
  shows "(\<exists>sub. gm_get (lb_heap b) p = Some sub \<and> subseq (rcv @ ch_buf (ls_ch sub)) (own tid pub) \<and>
      length rcv + length (ch_buf (ls_ch sub)) + ls_dropped sub = length (own tid pub)) \<and>
    Publish e b \<noteq> None \<and> cancel q b \<noteq> None \<and> Broadcaster_Close b \<noteq> None"
  using stream_inv [OF assms] Publish_wf [of b e] cancel_wf [of b q] Close_wf [of b] by (auto simp: accounted_def)

definition sample_entry :: "string \<Rightarrow> string \<Rightarrow> log_entry" where
  "sample_entry i tid = \<lparr>le_ID = i, le_TenantID = tid\<rparr>"

definition sample_live :: log_broadcaster where
  "sample_live = the (Publish (sample_entry ''3'' ''acme'') (the (Publish (sample_entry ''2'' ''other'')
     (the (Publish (sample_entry ''1'' ''acme'') (subscribe 0 1 ''acme'' zero_broadcaster))))))"

theorem subscriber_stream_witness:
  "\<exists>sub. gm_get (lb_heap sample_live) 0 = Some sub \<and>
     length [] + length (ch_buf (ls_ch sub)) + ls_dropped sub = length (own ''acme'' [sample_entry ''1'' ''acme'', sample_entry ''2'' ''other'', sample_entry ''3'' ''acme'']) \<and>
     ls_dropped sub = 1"
proof -
  let ?b0 = "subscribe 0 1 ''acme'' zero_broadcaster"
  let ?b1 = "the (Publish (sample_entry ''1'' ''acme'') ?b0)" let ?b2 = "the (Publish (sample_entry ''2'' ''other'') ?b1)"
  have s0: "stream_of 0 ''acme'' [] [] ?b0" by (rule stream_of.start [OF lb_reachable.start]) (simp_all add: zero_broadcaster_def)
  have pub: "stream_of 0 ''acme'' (if 0 \<in> set (lb_subscribers b) then ps @ [e] else ps) [] (the (Publish e b))" if "stream_of 0 ''acme'' ps [] b" for ps b e
    using stream_of.publish [OF that, of e] subscriber_stream [OF that, of e 0] by auto
  have subs: "0 \<in> set (lb_subscribers ?b0)" "0 \<in> set (lb_subscribers ?b1)" "0 \<in> set (lb_subscribers ?b2)" by code_simp+
  have "stream_of 0 ''acme'' [sample_entry ''1'' ''acme'', sample_entry ''2'' ''other'', sample_entry ''3'' ''acme''] [] sample_live"
    using pub [OF pub [OF pub [OF s0, of "sample_entry ''1'' ''acme''"], of "sample_entry ''2'' ''other''"], of "sample_entry ''3'' ''acme''"] subs
    by (simp add: sample_live_def)
  note * = subscriber_stream [OF this]
  have "map_option ls_dropped (gm_get (lb_heap sample_live) 0) = Some 1" by code_simp
  then show ?thesis using * by fastforce
qed

end
