(* ===== verification/Log_Worker.thy ===== *)
theory Log_Worker
  imports Log_Broadcaster
begin

text \<open>
  \<^verbatim>\<open>internal/server/log_worker.go\<close>: the bounded queue in front of the interaction log and the goroutines that drain it.

  The shared state is \<open>log_worker\<close>; each access to it that another goroutine can come between is an operation. A call
  of \<^verbatim>\<open>Submit\<close> and a goroutine are the point they have reached, and \<open>log_step\<close> interleaves them. A call in progress
  holds the read lock, so the shutdown, which takes the write lock, closes the queue only when there is none. Whether
  a write to the store succeeds is free, and a write may be reported as failed although its row was stored. The number of attempts, the entries accepted, the rows and the publications
  are recorded beside the state for the statements. Counters are natural numbers: a 64-bit count does not wrap.
\<close>

section \<open>Operations\<close>

record log_worker =
  lw_queue :: "log_entry channel"
  lw_workers :: nat
  lw_submitted :: nat
  lw_written :: nat
  lw_dropped :: nat
  lw_failed :: nat
  lw_stopped :: bool
  lw_quit :: bool

definition NewLogWorker :: "int \<Rightarrow> int \<Rightarrow> log_worker" where
  "NewLogWorker workers queueSize =
     \<lparr>lw_queue = make_chan (nat (if queueSize \<le> 0 then 1024 else queueSize)), lw_workers = nat (if workers \<le> 0 then 4 else workers),
      lw_submitted = 0, lw_written = 0, lw_dropped = 0, lw_failed = 0, lw_stopped = False, lw_quit = False\<rparr>"

text \<open>The parts of \<^verbatim>\<open>Submit\<close>: the check, the send, and the two halves of the way back.\<close>

definition submit_count :: "log_worker \<Rightarrow> bool \<times> log_worker" where
  "submit_count w =
     (if lw_stopped w then (False, w\<lparr>lw_dropped := lw_dropped w + 1\<rparr>) else (True, w\<lparr>lw_submitted := lw_submitted w + 1\<rparr>))"

definition submit_send :: "log_entry \<Rightarrow> log_worker \<Rightarrow> (bool \<times> log_worker) option" where
  "submit_send e w = map_option (\<lambda>(sent, q). (sent, w\<lparr>lw_queue := q\<rparr>)) (try_send e (lw_queue w))"

definition submit_uncount :: "log_worker \<Rightarrow> log_worker" where
  "submit_uncount w = w\<lparr>lw_submitted := lw_submitted w - 1\<rparr>"

definition submit_drop :: "log_worker \<Rightarrow> log_worker" where
  "submit_drop w = w\<lparr>lw_dropped := lw_dropped w + 1\<rparr>"

text \<open>A call that nothing comes between; \<open>None\<close> is a panic.\<close>

definition submit_call :: "log_entry \<Rightarrow> log_worker \<Rightarrow> (bool \<times> log_worker) option" where
  "submit_call e w =
     (case submit_count w of
        (False, w1) \<Rightarrow> Some (False, w1)
      | (True, w1) \<Rightarrow>
          (case submit_send e w1 of
             None \<Rightarrow> None
           | Some (True, w2) \<Rightarrow> Some (True, w2)
           | Some (False, w2) \<Rightarrow> Some (False, submit_drop (submit_uncount w2))))"

text \<open>Without a worker or a store logging is disabled, and the call reports success.\<close>

definition Submit :: "log_entry \<Rightarrow> log_worker option \<Rightarrow> (bool \<times> log_worker option) option" where
  "Submit e w = (case w of None \<Rightarrow> Some (True, None) | Some w \<Rightarrow> map_option (map_prod id Some) (submit_call e w))"

text \<open>The first call of \<^verbatim>\<open>Shutdown\<close> closes the queue; at its deadline the hard stop tells the goroutines to leave.\<close>

definition shutdown_close :: "log_worker \<Rightarrow> log_worker option" where
  "shutdown_close w = (if lw_stopped w then Some w else map_option (\<lambda>q. w\<lparr>lw_stopped := True, lw_queue := q\<rparr>) (close_chan (lw_queue w)))"

definition hard_stop :: "log_worker \<Rightarrow> log_worker" where
  "hard_stop w = w\<lparr>lw_quit := True\<rparr>"

record log_metrics =
  mt_Submitted :: nat
  mt_Written :: nat
  mt_Dropped :: nat
  mt_Failed :: nat
  mt_QueueLen :: nat
  mt_QueueCap :: nat

definition LogWorker_Metrics :: "log_worker \<Rightarrow> log_metrics" where
  "LogWorker_Metrics w =
     \<lparr>mt_Submitted = lw_submitted w, mt_Written = lw_written w, mt_Dropped = lw_dropped w, mt_Failed = lw_failed w,
      mt_QueueLen = length (ch_buf (lw_queue w)), mt_QueueCap = ch_cap (lw_queue w)\<rparr>"

section \<open>Interleaving\<close>

datatype submit_phase = Counted log_entry | Refused | Uncounted

text \<open>A goroutine of \<^verbatim>\<open>start\<close>: at its select, with an entry, after the write, before the publication, gone.\<close>

datatype worker_phase = Waiting | Taken log_entry | Stored log_entry | Unstored | Publishing log_entry | Exited

record log_system =
  sy_w :: log_worker
  sy_calls :: "submit_phase multiset"
  sy_gos :: "worker_phase multiset"
  sy_attempts :: nat
  sy_accepted :: nat
  sy_rows :: "log_entry multiset"
  sy_published :: "log_entry multiset"

definition start_system :: "log_worker \<Rightarrow> log_system" where
  "start_system w = \<lparr>sy_w = w, sy_calls = {#}, sy_gos = replicate_mset (lw_workers w) Waiting, sy_attempts = 0, sy_accepted = 0,
     sy_rows = {#}, sy_published = {#}\<rparr>"

inductive log_step :: "log_system \<Rightarrow> log_system \<Rightarrow> bool" where
  call: "submit_count (sy_w s) = (counted, w) \<Longrightarrow>
    log_step s (s\<lparr>sy_w := w, sy_attempts := sy_attempts s + 1, sy_calls := (if counted then add_mset (Counted e) (sy_calls s) else sy_calls s)\<rparr>)"
| send: "sy_calls s = add_mset (Counted e) cs \<Longrightarrow> submit_send e (sy_w s) = Some (sent, w) \<Longrightarrow>
    log_step s (s\<lparr>sy_w := w, sy_calls := (if sent then cs else add_mset Refused cs), sy_accepted := sy_accepted s + (if sent then 1 else 0)\<rparr>)"
| uncount: "sy_calls s = add_mset Refused cs \<Longrightarrow> log_step s (s\<lparr>sy_w := submit_uncount (sy_w s), sy_calls := add_mset Uncounted cs\<rparr>)"
| drop: "sy_calls s = add_mset Uncounted cs \<Longrightarrow> log_step s (s\<lparr>sy_w := submit_drop (sy_w s), sy_calls := cs\<rparr>)"
| shutdown: "sy_calls s = {#} \<Longrightarrow> shutdown_close (sy_w s) = Some w \<Longrightarrow> log_step s (s\<lparr>sy_w := w\<rparr>)"
| deadline: "lw_stopped (sy_w s) \<Longrightarrow> log_step s (s\<lparr>sy_w := hard_stop (sy_w s)\<rparr>)"
| take: "sy_gos s = add_mset Waiting gs \<Longrightarrow> ch_buf (lw_queue (sy_w s)) = e # es \<Longrightarrow>
    log_step s (s\<lparr>sy_w := (sy_w s)\<lparr>lw_queue := (lw_queue (sy_w s))\<lparr>ch_buf := es\<rparr>\<rparr>, sy_gos := add_mset (Taken e) gs\<rparr>)"
| drained: "sy_gos s = add_mset Waiting gs \<Longrightarrow> ch_buf (lw_queue (sy_w s)) = [] \<Longrightarrow> ch_closed (lw_queue (sy_w s)) \<Longrightarrow>
    log_step s (s\<lparr>sy_gos := add_mset Exited gs\<rparr>)"
| quit: "sy_gos s = add_mset Waiting gs \<Longrightarrow> lw_quit (sy_w s) \<Longrightarrow> log_step s (s\<lparr>sy_gos := add_mset Exited gs\<rparr>)"
| stored: "sy_gos s = add_mset (Taken e) gs \<Longrightarrow> log_step s (s\<lparr>sy_gos := add_mset (Stored e) gs, sy_rows := add_mset e (sy_rows s)\<rparr>)"
| unstored: "sy_gos s = add_mset (Taken e) gs \<Longrightarrow> log_step s (s\<lparr>sy_gos := add_mset Unstored gs\<rparr>)"
| unacknowledged: "sy_gos s = add_mset (Taken e) gs \<Longrightarrow> log_step s (s\<lparr>sy_gos := add_mset Unstored gs, sy_rows := add_mset e (sy_rows s)\<rparr>)"
| written: "sy_gos s = add_mset (Stored e) gs \<Longrightarrow>
    log_step s (s\<lparr>sy_w := (sy_w s)\<lparr>lw_written := lw_written (sy_w s) + 1\<rparr>, sy_gos := add_mset (Publishing e) gs\<rparr>)"
| failed: "sy_gos s = add_mset Unstored gs \<Longrightarrow>
    log_step s (s\<lparr>sy_w := (sy_w s)\<lparr>lw_failed := lw_failed (sy_w s) + 1\<rparr>, sy_gos := add_mset Waiting gs\<rparr>)"
| publish: "sy_gos s = add_mset (Publishing e) gs \<Longrightarrow> log_step s (s\<lparr>sy_gos := add_mset Waiting gs, sy_published := add_mset e (sy_published s)\<rparr>)"

section \<open>The invariant\<close>

abbreviation busy :: "worker_phase \<Rightarrow> bool" where
  "busy g \<equiv> (case g of Taken _ \<Rightarrow> True | Stored _ \<Rightarrow> True | Unstored \<Rightarrow> True | _ \<Rightarrow> False)"

abbreviation unsettled :: "submit_phase \<Rightarrow> bool" where
  "unsettled c \<equiv> (case c of Counted _ \<Rightarrow> True | Refused \<Rightarrow> True | Uncounted \<Rightarrow> False)"

fun rows_of :: "worker_phase \<Rightarrow> log_entry multiset" where
  "rows_of (Stored e) = {#e#}"
| "rows_of (Publishing e) = {#e#}"
| "rows_of _ = {#}"

definition pending_rows :: "worker_phase multiset \<Rightarrow> log_entry multiset" where
  "pending_rows gs = sum_mset (image_mset rows_of gs)"

lemma pending_rows_add [simp]: "pending_rows (add_mset g gs) = rows_of g + pending_rows gs"
  by (simp add: pending_rows_def)

definition counts_ok :: "log_system \<Rightarrow> bool" where
  "counts_ok s \<longleftrightarrow>
     lw_submitted (sy_w s) = sy_accepted s + size (filter_mset unsettled (sy_calls s)) \<and>
     sy_attempts s = sy_accepted s + lw_dropped (sy_w s) + size (sy_calls s) \<and>
     sy_accepted s = length (ch_buf (lw_queue (sy_w s))) + size (filter_mset busy (sy_gos s)) + lw_written (sy_w s) + lw_failed (sy_w s)"

definition flow_ok :: "log_system \<Rightarrow> bool" where
  "flow_ok s \<longleftrightarrow>
     sy_published s + pending_rows (sy_gos s) \<subseteq># sy_rows s \<and>
     (ch_closed (lw_queue (sy_w s)) \<longleftrightarrow> lw_stopped (sy_w s)) \<and> (lw_stopped (sy_w s) \<longrightarrow> sy_calls s = {#}) \<and>
     (Exited \<in># sy_gos s \<and> \<not> lw_quit (sy_w s) \<longrightarrow> lw_stopped (sy_w s) \<and> ch_buf (lw_queue (sy_w s)) = []) \<and>
     size (sy_gos s) = lw_workers (sy_w s)"

lemmas submit_defs = submit_count_def submit_send_def submit_uncount_def submit_drop_def shutdown_close_def hard_stop_def
  try_send_def close_chan_def

lemma log_step_counts: "log_step s s' \<Longrightarrow> counts_ok s \<Longrightarrow> counts_ok s'"
  by (induction rule: log_step.induct) (auto simp: counts_ok_def submit_defs split: if_splits)

lemma log_step_flow: "log_step s s' \<Longrightarrow> flow_ok s \<Longrightarrow> flow_ok s'"
  by (induction rule: log_step.induct)
     (auto simp: flow_ok_def submit_defs split: if_splits intro: subset_mset.order_trans)

lemma start_ok: "0 < lw_workers w \<Longrightarrow> w = NewLogWorker n q \<Longrightarrow> counts_ok (start_system w) \<and> flow_ok (start_system w)"
  by (auto simp: counts_ok_def flow_ok_def start_system_def NewLogWorker_def make_chan_def pending_rows_def)

lemma NewLogWorker_workers: "0 < lw_workers (NewLogWorker n q)"
  by (simp add: NewLogWorker_def)

lemma log_run_ok: "log_step\<^sup>*\<^sup>* (start_system (NewLogWorker n q)) s \<Longrightarrow> counts_ok s \<and> flow_ok s \<and> 0 < lw_workers (sy_w s)"
proof (induction rule: rtranclp_induct)
  case base
  show ?case using start_ok [OF NewLogWorker_workers refl] NewLogWorker_workers by (simp add: start_system_def)
next
  case (step s s')
  have "lw_workers (sy_w s') = lw_workers (sy_w s)" using step.hyps(2) by (induction rule: log_step.induct) (auto simp: submit_defs split: if_splits)
  then show ?case using step log_step_counts log_step_flow by simp
qed

definition all_exited :: "log_system \<Rightarrow> bool" where
  "all_exited s \<longleftrightarrow> (\<forall>g \<in> set_mset (sy_gos s). g = Exited)"

lemma all_exited_drained:
  assumes "counts_ok s" "flow_ok s" "0 < lw_workers (sy_w s)" "all_exited s" "\<not> lw_quit (sy_w s)"
  shows "sy_accepted s = lw_written (sy_w s) + lw_failed (sy_w s)"
proof -
  have ex: "g = Exited" if "g \<in># sy_gos s" for g using assms(4) that by (simp add: all_exited_def)
  have "sy_gos s \<noteq> {#}" using assms(2,3) by (auto simp: flow_ok_def)
  then have "Exited \<in># sy_gos s" using ex by (metis multiset_nonemptyE)
  then have "ch_buf (lw_queue (sy_w s)) = []" using assms(2,5) by (simp add: flow_ok_def)
  moreover have "\<not> busy g" if "g \<in># sy_gos s" for g using ex [OF that] by simp
  then have "filter_mset busy (sy_gos s) = filter_mset (\<lambda>_. False) (sy_gos s)" by (intro filter_mset_cong) simp_all
  ultimately show ?thesis using assms(1) by (simp add: counts_ok_def)
qed

lemma all_exited_no_write: "log_step s s' \<Longrightarrow> all_exited s \<Longrightarrow> sy_rows s' = sy_rows s \<and> all_exited s'"
  by (induction rule: log_step.induct) (auto simp: all_exited_def)

text \<open>
  C25. The accounts of the log worker, under every interleaving of callers, goroutines and the shutdown. What was
  written or failed never exceeds what is counted as submitted; when no call is in progress each attempt is counted
  exactly once, as submitted or as dropped; only rows that are in the store are published to live subscribers; and
  a call never sends on the closed queue. A shutdown whose goroutines have left before its deadline has handled
  every accepted entry, and once they have left no step writes to the store again.
\<close>

theorem log_worker_accounts:
  assumes "log_step\<^sup>*\<^sup>* (start_system (NewLogWorker n q)) s"
  shows "lw_written (sy_w s) + lw_failed (sy_w s) \<le> lw_submitted (sy_w s) \<and>
    (sy_calls s = {#} \<longrightarrow> sy_attempts s = lw_submitted (sy_w s) + lw_dropped (sy_w s)) \<and>
    sy_published s \<subseteq># sy_rows s \<and>
    (Counted e \<in># sy_calls s \<longrightarrow> submit_send e (sy_w s) \<noteq> None) \<and>
    (all_exited s \<longrightarrow> (lw_quit (sy_w s) \<or> sy_accepted s = lw_written (sy_w s) + lw_failed (sy_w s)) \<and>
       (\<forall>s'. log_step s s' \<longrightarrow> sy_rows s' = sy_rows s))"
proof -
  have ok: "counts_ok s" "flow_ok s" "0 < lw_workers (sy_w s)" using log_run_ok [OF assms] by auto
  have "submit_send e (sy_w s) \<noteq> None" if "Counted e \<in># sy_calls s" using ok(2) that by (auto simp: flow_ok_def submit_defs)
  moreover have "sy_published s \<subseteq># sy_rows s"
    using ok(2) by (auto simp: flow_ok_def intro: subset_mset.order_trans [OF mset_subset_eq_add_left])
  ultimately show ?thesis using ok(1) all_exited_drained [OF ok] all_exited_no_write by (auto simp: counts_ok_def)
qed

definition sample_submitted :: log_system where
  "sample_submitted = (start_system (NewLogWorker 1 1))\<lparr>sy_w := snd (submit_count (NewLogWorker 1 1)), sy_attempts := 1,
     sy_calls := {#Counted (sample_entry ''1'' ''acme'')#}\<rparr>"

theorem log_worker_accounts_witness:
  "submit_send (sample_entry ''1'' ''acme'') (sy_w sample_submitted) \<noteq> None \<and> lw_submitted (sy_w sample_submitted) = 1"
proof
  have "log_step (start_system (NewLogWorker 1 1)) sample_submitted"
    using log_step.call [of "start_system (NewLogWorker 1 1)" True "snd (submit_count (NewLogWorker 1 1))" "sample_entry ''1'' ''acme''"]
    by (simp add: sample_submitted_def start_system_def submit_count_def NewLogWorker_def)
  then have "log_step\<^sup>*\<^sup>* (start_system (NewLogWorker 1 1)) sample_submitted" by blast
  from log_worker_accounts [OF this, of "sample_entry ''1'' ''acme''"]
  show "submit_send (sample_entry ''1'' ''acme'') (sy_w sample_submitted) \<noteq> None" by (simp add: sample_submitted_def)
  show "lw_submitted (sy_w sample_submitted) = 1" by (simp add: sample_submitted_def submit_count_def NewLogWorker_def)
qed

end
