(* ===== verification/Spec2Isabelle.thy ===== *)
theory Spec2Isabelle
  imports Go_Base Agent_Types Tool_Schema Scenario_Matcher Session_State Agent_Registry Tool_Processor
    Request_Types Response_Generator Strict_Tools Chaos_Decision Chaos_Injector Engine Graph_Order
    Pipeline_Validator Pipeline Pipeline_Kahn Pipeline_Walk Token_Bucket Quota Spend_Ledger Pricing Metering
    Tenancy_Types Auth_Cache Tenancy_Store Tenancy_Replicas Auth_Limiter Auth Tenancy_API
    A2A_Server A2A_Tasks Log_Broadcaster Log_Worker
begin

text \<open>
  A model of \<^verbatim>\<open>mockagents\<close>, a server that plays language-model agents from YAML definitions: an adapter
  decodes a provider request, the engine picks an agent, finds or creates a session, injects configured
  faults, matches a scenario, renders its reply and runs its tool calls; a pipeline runs several agents in
  a topology; tenants are isolated and metered.

  \<^bold>\<open>Theories, components and sources\<close> (paths under \<^verbatim>\<open>src/\<close>)

  \<^item> \<open>Go_Base\<close>: what the sources use of Go: strings, 64-bit integers, durations and instants, maps whose
    iteration order matters (\<open>gomap\<close>), decoded JSON values, \<^verbatim>\<open>float64\<close> conversion.
  \<^item> \<open>Agent_Types\<close>: the records of \<^verbatim>\<open>internal/types\<close> (agent, behaviour, tool, pipeline).
  \<^item> \<open>Tool_Schema\<close>: \<^verbatim>\<open>internal/toolschema\<close>, the validator of tool arguments and the strict-subset check.
    Shown: accepted arguments are those that conform to a declarative reading of an object schema, with its own
    notions of type, equality and length; the strict check holds exactly when every object node is closed and fully required.
  \<^item> \<open>Scenario_Matcher\<close>: \<^verbatim>\<open>internal/engine/scenario_matcher.go\<close>. Shown: with its caches the matcher
    selects the first scenario whose rule holds.
  \<^item> \<open>Session_State\<close>: \<^verbatim>\<open>internal/engine/state\<close>. The store is a map of pointers into a heap of sessions, since
    the code hands out pointers that outlive a deletion. Shown: a turn is all or nothing; the store stays
    within its limits; ids never alias; eviction happens only at the cap and takes expired and least recently
    used sessions; the cleanup, run in three
    phases between which other operations happen, never deletes a live session.
  \<^item> \<open>Agent_Registry\<close>: \<^verbatim>\<open>internal/engine/agent_registry.go\<close>. Shown: the model indexes agree with a scan of the
    agents; lookups and listings never cross tenants; removal is exact.
  \<^item> \<open>Tool_Processor\<close>: \<^verbatim>\<open>internal/engine/tool_processor.go\<close>. Shown: the concurrent branch gives the results of
    the sequential one under every schedule of the goroutines; a successful result is of a declared tool and had
    conforming arguments.
  \<^item> \<open>Request_Types\<close>, \<open>Response_Generator\<close>, \<open>Strict_Tools\<close>: the request of \<^verbatim>\<open>internal/engine/engine.go\<close>,
    \<^verbatim>\<open>response_generator.go\<close> and \<^verbatim>\<open>strict.go\<close>. Shown: the template cache is transparent; the template functions
    stay in their bounds; the check of tool-call ids decides a declarative coherence of the transcript, except
    that it refuses a result with an empty id.
  \<^item> \<open>Chaos_Decision\<close>, \<open>Chaos_Injector\<close>: \<^verbatim>\<open>internal/chaos/decision.go\<close> and \<^verbatim>\<open>internal/engine/chaos.go\<close>. Shown:
    precedence of policies, exact fail-first counters, the rate-limit bound in any interval of a window's length
    (twice the limit less one), isolation of counters.
  \<^item> \<open>Engine\<close>: \<^verbatim>\<open>internal/engine/engine.go\<close>, the whole of \<^verbatim>\<open>ProcessRequestContext\<close>. Shown: a request
    commits exactly one turn to the session its key names, a failed one records no turn, the content of other
    tenants' sessions is untouched and they are dropped only to make room at the cap, and a client that
    answers every tool call stops receiving them unless a call is forced.
  \<^item> \<open>Graph_Order\<close>, \<open>Pipeline_Validator\<close>, \<open>Pipeline\<close>, \<open>Pipeline_Kahn\<close>, \<open>Pipeline_Walk\<close>:
    \<^verbatim>\<open>internal/config/pipeline_validator.go\<close>, \<^verbatim>\<open>internal/engine/pipeline.go\<close> and \<^verbatim>\<open>pipeline_registry.go\<close>. Shown: the
    validator's depth-first search decides acyclicity; Kahn's peeling finds the nodes stuck behind a cycle;
    the walk runs each node once, after all its parents, exactly when a firing edge or an empty in-degree
    leads to it; a validated pipeline never fails for a structural reason.
  \<^item> \<open>Token_Bucket\<close>: a locale for a refilled bucket, with the bound on what it admits; interpreted in \<open>Quota\<close> and
    \<open>Auth_Limiter\<close>.
  \<^item> \<open>Quota\<close>, \<open>Spend_Ledger\<close>, \<open>Pricing\<close>, \<open>Metering\<close>: \<^verbatim>\<open>internal/quota/quota.go\<close>, the spend rows of
    \<^verbatim>\<open>internal/tenancy/store.go\<close>, the price table and the metering of replies. Shown: the rate bound, the
    conservation of recorded spend between the replicas and the ledger within a month, and that a metered
    pipeline run is charged the estimated cost of what it recorded, with the ledger and without.
  \<^item> \<open>Tenancy_Types\<close>, \<open>Auth_Cache\<close>, \<open>Tenancy_Store\<close>: \<^verbatim>\<open>types.go\<close>, \<^verbatim>\<open>sessions.go\<close>, \<^verbatim>\<open>auth_cache.go\<close>, \<^verbatim>\<open>store.go\<close> and
    \<^verbatim>\<open>identity_sqlite.go\<close> of \<^verbatim>\<open>internal/tenancy\<close>. Tables are lists of rows; an operation of several statements is
    split into the phases between which others run. Shown: a created key resolves to what it was created
    with; a bulk rotation is all or nothing.
  \<^item> \<open>Tenancy_Replicas\<close>: several stores with caches of their own over one database, with the steps of their
    operations interleaved. Shown: what a call of \<^verbatim>\<open>Resolve\<close> that nothing interrupts returns is what the database
    holds at that moment; a rotated secret is refused by every replica.
  \<^item> \<open>Auth_Limiter\<close>, \<open>Auth\<close>: \<^verbatim>\<open>auth_limiter.go\<close> and \<^verbatim>\<open>middleware.go\<close> of \<^verbatim>\<open>internal/tenancy\<close>, \<^verbatim>\<open>internal/clientip\<close>,
    \<^verbatim>\<open>route_authz.go\<close> and the capabilities of \<^verbatim>\<open>identity_handlers.go\<close> in \<^verbatim>\<open>internal/server\<close>. A gated
    request is a run (\<open>auth_run\<close>) whose stages others' steps come between. Shown: a gated handler runs only for a
    principal the database vouched for at some moment of that run; failures of an address are bounded, by a
    factor of its requests in flight; a client cannot choose its address; capabilities are what the gates do.
  \<^item> \<open>Tenancy_API\<close>: \<^verbatim>\<open>tenancy_handlers.go\<close> and \<^verbatim>\<open>quota_handlers.go\<close> of \<^verbatim>\<open>internal/server\<close>. Shown: a caller below the
    platform role never leaves its tenant.

  \<^item> \<open>A2A_Server\<close>, \<open>A2A_Tasks\<close>: \<^verbatim>\<open>internal/a2a/server.go\<close>. Each request is a run of elementary steps on the task store.
    Shown: the byte and task counts are exact, a terminal task never changes, ids are never reused, and what
    was sent back can be fetched until its deadline. Four lemmas at the end record where the code departs from
    what it means to do.

  \<^item> \<open>Log_Broadcaster\<close>, \<open>Log_Worker\<close>: \<^verbatim>\<open>internal/server/log_broadcaster.go\<close> and \<^verbatim>\<open>log_worker.go\<close>. Callers, goroutines
    and the shutdown are interleaved step by step. Shown: a subscriber sees its tenant's entries in order and
    its drop count is exact; the worker's counters add up; nothing panics on a closed channel; after the
    goroutines have left nothing is written.

  \<^bold>\<open>Conventions\<close>

  \<^item> State is passed explicitly; a method on a pointer receiver returns the updated record. A mutex is the
    atomicity of the operation it guards; an operation that releases its lock in the middle is split there.
  \<^item> Errors are constructors of a datatype, one per error the code builds; their texts are kept where the
    code or a client reads them.
  \<^item> What the sources import and this repository does not contain is an argument: the regular-expression
    compiler, the template engine, random draws, the clock, the hash behind chaos sampling.

  \<^bold>\<open>Simplifications.\<close>

  \<^item> Case folding and trimming act on ASCII only. A \<^verbatim>\<open>float64\<close> of prices, rates and bucket levels is a rational
    number. Counts that would need centuries to wrap (turns of a session, entries of the log, identifiers of
    tasks) do not wrap. A \<^verbatim>\<open>float64\<close> outside the range of \<^verbatim>\<open>int\<close> is converted as on amd64.
  \<^item> \<^verbatim>\<open>GetOrCreate\<close> looks the id up under the read lock and again under the write lock. It is one step, at its last
    critical section: a hit on the fast path changes nothing, and the slow path does on any store what
    \<open>GetOrCreate\<close> does on it (\<open>GetOrCreate_slow_eq\<close>).
  \<^item> In \<open>Engine\<close> a request is one step from the lookup of its session to the end of its turn. The sections of several
    callers are interleaved in \<open>Session_State\<close> (\<open>store_step\<close>), where a turn is a step of its own on a pointer
    obtained earlier.
  \<^item> The copies that protect a session's variables from its callback are identities on values; the one case in
    which the code shares a map is the flag \<open>reusedEmpty\<close> of \<open>ApplyTurn\<close>.
  \<^item> \<open>Spend_Ledger\<close> has a ledger and stays within one month; its last two lemmas show what a change of month loses.

  \<^bold>\<open>Fuel.\<close> \<open>Pipeline_Validator.dfs\<close> runs with one more than the number of agents: a path of the search is
  simple. \<open>reach_loop\<close> runs with the number of nodes and edges it can enqueue. \<open>Pipeline.settle\<close> runs with one more
  than the number of agents: a settled node is never entered again. \<open>Pricing.ExtractUsage\<close> runs with more than the
  length of the body: an element of an array is shorter than its text. Each bound is proved sufficient, so
  \<open>None\<close> is never the value at the entry points.

  \<^bold>\<open>Not modelled.\<close> The provider adapters and their streams, batches, files and conversations, the MCP and
  realtime servers, the vector store, recording and replay, the configuration loader and the agent validator,
  the request log's table and queries, and the remaining HTTP handlers. These have state and rules of their
  own that no theorem here speaks about. The PostgreSQL store repeats the SQLite store in another dialect;
  opening and migrating a database, single sign-on, the hook that records refusals, metrics, tracing, audit
  queries, the command line, the GUI, the demo, the client SDK and the release tools are outside as well.
  Logging and trace attributes are left out everywhere.
\<close>

end
